(* ===== verification/Prelude.thy ===== *)
theory Prelude
  imports Main "HOL-Library.Word"
begin

text \<open>
  Shared vocabulary of the development.

  The kernel is modelled as a state monad: a C function that reads and writes kernel state is a
  value of type \<open>('s, 'a) kern\<close>, a function from the state before the call to a result. A call
  either returns (\<open>Done value state\<close>) or stops (\<open>Stop reason state\<close>): the kernel panics, the
  thread leaves the CPU through \<open>swtch\<close>, it spins on a lock another CPU holds, it follows a null
  pointer, or it is caught in a loop that no step of its own can end. The theory also fixes the
  compile-time parameters of \<open>kernel/param.h\<close> and \<open>kernel/riscv.h\<close>, the names of locks and wait
  channels (in the source, addresses of kernel objects), weakest preconditions for the monad, and
  the list and word lemmas the components share.
\<close>

unbundle bit_operations_syntax

section \<open>Machine integers\<close>

type_synonym byte = "8 word"
type_synonym ushort = "16 word"
type_synonym uint = "32 word"
type_synonym uint64 = "64 word"

section \<open>Compile-time parameters\<close>

definition NPROC :: nat where "NPROC = 64"
definition NCPU :: nat where "NCPU = 8"
definition NOFILE :: nat where "NOFILE = 16"
definition NFILE :: nat where "NFILE = 100"
definition NINODE :: nat where "NINODE = 50"
definition NDEV :: nat where "NDEV = 10"
definition ROOTDEV :: uint where "ROOTDEV = 1"
definition MAXARG :: nat where "MAXARG = 32"
definition MAXOPBLOCKS :: nat where "MAXOPBLOCKS = 10"
definition LOGBLOCKS :: nat where "LOGBLOCKS = MAXOPBLOCKS * 3"
definition NBUF :: nat where "NBUF = MAXOPBLOCKS * 3"
definition MAXPATH :: nat where "MAXPATH = 128"
definition USERSTACK :: nat where "USERSTACK = 2"

lemmas param_defs =
  NPROC_def NCPU_def NOFILE_def NFILE_def NINODE_def NDEV_def ROOTDEV_def MAXARG_def
  MAXOPBLOCKS_def LOGBLOCKS_def NBUF_def MAXPATH_def USERSTACK_def

section \<open>Names of locks and wait channels\<close>

text \<open>
  A sleep lock sits in a buffer or in an in-memory inode; a spin lock guards one table or one
  object. The source identifies both, and the channels threads sleep on, by address.
\<close>

datatype slockid = BufSleep nat | InodeSleep nat

datatype lockid =
    KmemLock | BcacheLock | LogLock | ItableLock | FtableLock | PidLock | WaitLock | TicksLock
  | TxLock | ConsLock | PrLock | VdiskLock
  | ProcLock nat
  | PipeLock uint64
  | SleepLk slockid

datatype chan =
    ProcChan nat | LogChan | SlockChan slockid | NreadChan uint64 | NwriteChan uint64
  | TicksChan | TxChan | ConsChan | DiskFreeChan | BufChan nat

section \<open>The kernel monad\<close>

datatype stop =
    Panic string       \<comment> \<open>\<open>panic(s)\<close> never returns\<close>
  | Swtch              \<comment> \<open>the thread left the CPU in \<open>sched()\<close>\<close>
  | Spin lockid        \<comment> \<open>\<open>acquire()\<close> spins: another CPU holds the lock\<close>
  | Fault string       \<comment> \<open>a null or invalid pointer was followed\<close>
  | Hang               \<comment> \<open>a loop whose exit this thread can not reach by itself\<close>

datatype ('a, 's) res = Done 'a 's | Stop stop 's

type_synonym ('s, 'a) kern = "'s \<Rightarrow> ('a, 's) res"

definition return :: "'a \<Rightarrow> ('s, 'a) kern" where
  "return x s = Done x s"

definition Do :: "('s, 'a) kern \<Rightarrow> ('a \<Rightarrow> ('s, 'b) kern) \<Rightarrow> ('s, 'b) kern" where
  "Do m f s = (case m s of Done x t \<Rightarrow> f x t | Stop r t \<Rightarrow> Stop r t)"

abbreviation Seq :: "('s, 'a) kern \<Rightarrow> ('s, 'b) kern \<Rightarrow> ('s, 'b) kern" where
  "Seq m k \<equiv> Do m (\<lambda>_. k)"

definition gets :: "('s \<Rightarrow> 'a) \<Rightarrow> ('s, 'a) kern" where
  "gets f s = Done (f s) s"

definition modify :: "('s \<Rightarrow> 's) \<Rightarrow> ('s, unit) kern" where
  "modify f s = Done () (f s)"

definition stop :: "stop \<Rightarrow> ('s, 'a) kern" where
  "stop r s = Stop r s"

abbreviation panic :: "string \<Rightarrow> ('s, 'a) kern" where
  "panic msg \<equiv> stop (Panic msg)"

abbreviation skip :: "('s, unit) kern" where
  "skip \<equiv> return ()"

abbreviation kwhen :: "bool \<Rightarrow> ('s, unit) kern \<Rightarrow> ('s, unit) kern" where
  "kwhen b m \<equiv> (if b then m else skip)"

text \<open>A counted loop whose body always runs to its end: one body per index, in order.\<close>

primrec for_each :: "'i list \<Rightarrow> ('i \<Rightarrow> ('s, unit) kern) \<Rightarrow> ('s, unit) kern" where
  "for_each [] body = skip"
| "for_each (i # ks) body = Seq (body i) (for_each ks body)"

text \<open>A counted loop that a body may leave early, with a value.\<close>

primrec for_find :: "'i list \<Rightarrow> ('i \<Rightarrow> ('s, 'a option) kern) \<Rightarrow> ('s, 'a option) kern" where
  "for_find [] body = return None"
| "for_find (i # ks) body =
     Do (body i) (\<lambda>r. case r of None \<Rightarrow> for_find ks body | Some x \<Rightarrow> return (Some x))"

lemma for_each_append: "for_each (xs @ ys) body s = Seq (for_each xs body) (for_each ys body) s"
  by (induction xs arbitrary: s) (simp_all add: Do_def return_def split: res.split)

named_theorems kern_simps \<open>one-step evaluation of the kernel monad\<close>

lemma return_app [kern_simps]: "return x s = Done x s"
  by (simp add: return_def)

lemma gets_app [kern_simps]: "gets f s = Done (f s) s"
  by (simp add: gets_def)

lemma modify_app [kern_simps]: "modify f s = Done () (f s)"
  by (simp add: modify_def)

lemma stop_app [kern_simps]: "stop r s = Stop r s"
  by (simp add: stop_def)

lemma Do_app [kern_simps]:
  "Do m f s = (case m s of Done x t \<Rightarrow> f x t | Stop r t \<Rightarrow> Stop r t)"
  by (simp add: Do_def)

lemma Do_Done: "m s = Done x t \<Longrightarrow> Do m f s = f x t"
  by (simp add: Do_def)

lemma Do_Stop: "m s = Stop r t \<Longrightarrow> Do m f s = Stop r t"
  by (simp add: Do_def)

lemma Do_gets: "Do (gets f) k s = k (f s) s"
  by (simp add: Do_def gets_def)

lemma Do_modify: "Do (modify f) k s = k () (f s)"
  by (simp add: Do_def modify_def)

lemma Do_eq_Done: "Do m f s = Done y u \<longleftrightarrow> (\<exists>x t. m s = Done x t \<and> f x t = Done y u)"
  by (simp add: Do_def split: res.split)

lemma Do_assoc: "Do (Do m f) g = Do m (\<lambda>x. Do (f x) g)"
  by (rule ext) (simp add: Do_def split: res.split)

lemma Do_return: "Do (return x) f = f x"
  by (rule ext) (simp add: Do_def return_def)

lemma if_app: "(if b then m else k) s = (if b then m s else k s)"
  by simp

section \<open>Weakest preconditions\<close>

text \<open>
  \<open>wp m Q s\<close> says that \<open>m\<close>, called in state \<open>s\<close>, returns, and that the value and the state it
  returns with satisfy \<open>Q\<close>: total correctness, with no panic and no sleep on the way.
\<close>

definition wp :: "('s, 'a) kern \<Rightarrow> ('a \<Rightarrow> 's \<Rightarrow> bool) \<Rightarrow> 's \<Rightarrow> bool" where
  "wp m Q s = (case m s of Done x t \<Rightarrow> Q x t | Stop r t \<Rightarrow> False)"

named_theorems wp_simps \<open>weakest preconditions of the monad's operations\<close>

lemma wp_return [wp_simps]: "wp (return x) Q s = Q x s"
  by (simp add: wp_def return_def)

lemma wp_gets [wp_simps]: "wp (gets f) Q s = Q (f s) s"
  by (simp add: wp_def gets_def)

lemma wp_modify [wp_simps]: "wp (modify f) Q s = Q () (f s)"
  by (simp add: wp_def modify_def)

lemma wp_stop [wp_simps]: "wp (stop r) Q s = False"
  by (simp add: wp_def stop_def)

lemma wp_Do [wp_simps]: "wp (Do m f) Q s = wp m (\<lambda>x. wp (f x) Q) s"
  by (simp add: wp_def Do_def split: res.split)

lemma wp_if: "wp (if b then m else k) Q s = (if b then wp m Q s else wp k Q s)"
  by simp

lemma wp_Done: "m s = Done x t \<Longrightarrow> wp m Q s = Q x t"
  by (simp add: wp_def)

lemma wp_iff_Done: "wp m Q s \<longleftrightarrow> (\<exists>x t. m s = Done x t \<and> Q x t)"
  by (simp add: wp_def split: res.split)

lemma wp_mono: "wp m P s \<Longrightarrow> (\<And>x t. P x t \<Longrightarrow> Q x t) \<Longrightarrow> wp m Q s"
  by (simp add: wp_def split: res.split_asm res.split)

lemma wp_conj: "wp m P s \<Longrightarrow> wp m Q s \<Longrightarrow> wp m (\<lambda>x t. P x t \<and> Q x t) s"
  by (simp add: wp_def split: res.split_asm res.split)

lemma wp_for_each:
  assumes "I [] s"
    and "\<And>done i todo t. ks = done @ i # todo \<Longrightarrow> I done t \<Longrightarrow> wp (body i) (\<lambda>_. I (done @ [i])) t"
  shows "wp (for_each ks body) (\<lambda>_. I ks) s"
proof -
  have "wp (for_each todo body) (\<lambda>_. I (done @ todo)) t"
    if "ks = done @ todo" and "I done t" for todo "done" t
    using that
  proof (induction todo arbitrary: "done" t)
    case Nil
    then show ?case by (simp add: wp_simps)
  next
    case (Cons i todo)
    have "wp (body i) (\<lambda>_. I (done @ [i])) t"
      using Cons.prems by (rule assms(2))
    moreover have "\<And>u. I (done @ [i]) u \<Longrightarrow> wp (for_each todo body) (\<lambda>_. I (done @ i # todo)) u"
      using Cons.IH [of "done @ [i]"] Cons.prems(1) by simp
    ultimately show ?case
      by (auto simp: wp_simps intro: wp_mono)
  qed
  from this [of "[]" ks s] assms(1) show ?thesis by simp
qed

lemma wp_for_upt:
  assumes "I 0 s" and "\<And>k t. k < n \<Longrightarrow> I k t \<Longrightarrow> wp (body k) (\<lambda>_. I (Suc k)) t"
  shows "wp (for_each [0..<n] body) (\<lambda>_. I n) s"
proof -
  have "wp (for_each [0..<n] body) (\<lambda>_ t. I (length [0..<n]) t) s"
  proof (rule wp_for_each [where I = "\<lambda>ds. I (length ds)"])
    show "I (length []) s" using assms(1) by simp
    fix ds k todo t assume l: "[0..<n] = ds @ k # todo" and I: "I (length ds) t"
    have len: "length ds < n" using arg_cong [OF l, of length] by simp
    have "[0..<n] ! length ds = k" unfolding l by simp
    then have "length ds = k" using len by simp
    with len I show "wp (body k) (\<lambda>_. I (length (ds @ [k]))) t" using assms(2) by simp
  qed
  then show ?thesis by simp
qed

text \<open>A search loop whose body leaves the state alone until it finds what it looks for.\<close>

lemma for_find_pure:
  assumes "\<And>i. i \<in> set ks \<Longrightarrow> body i s = (if P i then Done (Some (v i)) (f i) else Done None s)"
  shows "for_find ks body s =
    (case find P ks of None \<Rightarrow> Done None s | Some i \<Rightarrow> Done (Some (v i)) (f i))"
  using assms by (induction ks) (simp_all add: Do_def return_def)

section \<open>Lists, functions and words\<close>

lemma find_SomeD: "find P xs = Some x \<Longrightarrow> x \<in> set xs \<and> P x"
  by (induction xs) (auto split: if_splits)

lemma find_upt_Some:
  "find P [0..<n] = Some i \<longleftrightarrow> i < n \<and> P i \<and> (\<forall>j<i. \<not> P j)"
  by (auto simp: find_Some_iff intro: exI [of _ i])

lemma find_upt_None: "find P [0..<n] = None \<longleftrightarrow> (\<forall>i<n. \<not> P i)"
  by (auto simp: find_None_iff)

lemma fun_upd_same_value: "f x = y \<Longrightarrow> f(x := y) = f"
  by auto

lemma unat_less_numeral_imp: "x < y \<Longrightarrow> unat x < unat (y :: 'a::len word)"
  by (simp add: word_less_nat_alt)

lemma unat_add_small:
  "unat (x :: 'a::len word) + unat y < 2 ^ LENGTH('a) \<Longrightarrow> unat (x + y) = unat x + unat y"
  by (simp add: unat_word_ariths)

lemma nth_take_append_drop:
  "i < length xs \<Longrightarrow> j \<le> length xs \<Longrightarrow> j + n \<le> length xs \<Longrightarrow> n \<le> length ys \<Longrightarrow>
   (take j xs @ take n ys @ drop (j + n) xs) ! i =
     (if j \<le> i \<and> i < j + n then ys ! (i - j) else xs ! i)"
  by (auto simp: nth_append)

end
