(* ===== verification/Spinlock.thy ===== *)
theory Spinlock
  imports Prelude
begin

text \<open>
  Per-CPU state and spin locks: \<open>struct cpu\<close> of \<open>kernel/proc.h\<close>, \<open>struct spinlock\<close> of
  \<open>kernel/spinlock.h\<close>, the interrupt bit of \<open>kernel/riscv.h\<close> and all of \<open>kernel/spinlock.c\<close>.

  The state \<open>mach\<close> is the part of the machine every kernel function runs on: the hart the code
  executes on (register \<open>tp\<close>), the CPU structures with their control registers, and every spin
  lock, indexed by its name. Later theories extend this record, so the operations below apply to
  every richer kernel state as they are. The two CPUs of an interleaving are two values of \<open>tp\<close>:
  \<open>lock_step\<close> lets any hart perform the next operation.
\<close>

section \<open>State\<close>

datatype csr =
    Sstatus | Stvec | Sepc | Scause | Stval | Satp | Stimecmp | Time | Sie | Sip
  | Mstatus | Mepc | Mie | Medeleg | Mideleg | Menvcfg | Mcounteren | Pmpcfg0 | Pmpaddr0 | Mhartid

text \<open>
  \<open>struct cpu\<close>: the running process, the nesting depth of \<open>push_off\<close> and the saved interrupt
  flag. The saved scheduler context belongs to the assembly of \<open>swtch.S\<close> and is left out; the
  hart's control and status registers stand here because they are per hart.
\<close>

record cpu =
  cproc :: "nat option"
  noff :: int
  intena :: bool
  csrs :: "csr \<Rightarrow> uint64"

record spinlock =
  locked :: bool
  lname :: string
  lcpu :: "nat option"

record mach =
  tp :: nat
  cpus :: "nat \<Rightarrow> cpu"
  locks :: "lockid \<Rightarrow> spinlock"

definition SSTATUS_SIE :: uint64 where
  "SSTATUS_SIE = 2"

section \<open>Interrupts and the current CPU\<close>

definition cpuid :: "('z mach_scheme, nat) kern" where
  "cpuid = gets tp"

definition mycpu :: "'z mach_scheme \<Rightarrow> cpu" where
  "mycpu s = cpus s (tp s)"

definition upd_mycpu :: "(cpu \<Rightarrow> cpu) \<Rightarrow> 'z mach_scheme \<Rightarrow> 'z mach_scheme" where
  "upd_mycpu f s = s\<lparr>cpus := (cpus s)(tp s := f (cpus s (tp s)))\<rparr>"

definition r_csr :: "csr \<Rightarrow> ('z mach_scheme, uint64) kern" where
  "r_csr r = gets (\<lambda>s. csrs (mycpu s) r)"

definition w_csr :: "csr \<Rightarrow> uint64 \<Rightarrow> ('z mach_scheme, unit) kern" where
  "w_csr r x = modify (upd_mycpu (\<lambda>c. c\<lparr>csrs := (csrs c)(r := x)\<rparr>))"

definition intr_on :: "('z mach_scheme, unit) kern" where
  "intr_on = Do (r_csr Sstatus) (\<lambda>x. w_csr Sstatus (x OR SSTATUS_SIE))"

definition intr_off :: "('z mach_scheme, unit) kern" where
  "intr_off = Do (r_csr Sstatus) (\<lambda>x. w_csr Sstatus (x AND NOT SSTATUS_SIE))"

definition intr_get :: "('z mach_scheme, bool) kern" where
  "intr_get = Do (r_csr Sstatus) (\<lambda>x. return (x AND SSTATUS_SIE \<noteq> 0))"

section \<open>push_off and pop_off\<close>

definition push_off :: "('z mach_scheme, unit) kern" where
  "push_off =
     Do intr_get (\<lambda>old.
     Seq intr_off (
     Do (gets (\<lambda>s. noff (mycpu s))) (\<lambda>n.
     Seq (kwhen (n = 0) (modify (upd_mycpu (\<lambda>c. c\<lparr>intena := old\<rparr>)))) (
     modify (upd_mycpu (\<lambda>c. c\<lparr>noff := noff c + 1\<rparr>))))))"

definition pop_off :: "('z mach_scheme, unit) kern" where
  "pop_off =
     Do intr_get (\<lambda>on.
     if on then panic ''pop_off - interruptible'' else
     Do (gets (\<lambda>s. noff (mycpu s))) (\<lambda>n.
     if n < 1 then panic ''pop_off'' else
     Seq (modify (upd_mycpu (\<lambda>c. c\<lparr>noff := noff c - 1\<rparr>))) (
     Do (gets mycpu) (\<lambda>c.
     kwhen (noff c = 0 \<and> intena c) intr_on))))"

section \<open>Spin locks\<close>

definition initlock :: "lockid \<Rightarrow> string \<Rightarrow> ('z mach_scheme, unit) kern" where
  "initlock lk name =
     modify (\<lambda>s. s\<lparr>locks := (locks s)(lk := \<lparr>locked = False, lname = name, lcpu = None\<rparr>)\<rparr>)"

definition holding :: "lockid \<Rightarrow> ('z mach_scheme, bool) kern" where
  "holding lk = gets (\<lambda>s. locked (locks s lk) \<and> lcpu (locks s lk) = Some (tp s))"

text \<open>
  The loop around the atomic test-and-set ends at once when the lock is free; while another CPU
  holds it this CPU makes no progress of its own, which is the outcome \<open>Spin\<close>.
\<close>

definition acquire :: "lockid \<Rightarrow> ('z mach_scheme, unit) kern" where
  "acquire lk =
     Seq push_off (
     Do (holding lk) (\<lambda>h.
     if h then panic ''acquire'' else
     Do (gets (\<lambda>s. locked (locks s lk))) (\<lambda>busy.
     if busy then stop (Spin lk) else
     Seq (modify (\<lambda>s. s\<lparr>locks := (locks s)(lk := (locks s lk)\<lparr>locked := True\<rparr>)\<rparr>)) (
     modify (\<lambda>s. s\<lparr>locks := (locks s)(lk := (locks s lk)\<lparr>lcpu := Some (tp s)\<rparr>)\<rparr>)))))"

definition release :: "lockid \<Rightarrow> ('z mach_scheme, unit) kern" where
  "release lk =
     Do (holding lk) (\<lambda>h.
     if \<not> h then panic ''release'' else
     Seq (modify (\<lambda>s. s\<lparr>locks := (locks s)(lk := (locks s lk)\<lparr>lcpu := None\<rparr>)\<rparr>)) (
     Seq (modify (\<lambda>s. s\<lparr>locks := (locks s)(lk := (locks s lk)\<lparr>locked := False\<rparr>)\<rparr>))
     pop_off))"

section \<open>Interleavings\<close>

text \<open>A step of the whole machine: one hart completes an \<open>acquire\<close> or a \<open>release\<close>.\<close>

datatype lock_event = Acq nat lockid | Rel nat lockid

primrec lock_step :: "lock_event \<Rightarrow> mach \<Rightarrow> mach option" where
  "lock_step (Acq h lk) s =
     (case acquire lk (s\<lparr>tp := h\<rparr>) of Done _ t \<Rightarrow> Some t | Stop _ _ \<Rightarrow> None)"
| "lock_step (Rel h lk) s =
     (case release lk (s\<lparr>tp := h\<rparr>) of Done _ t \<Rightarrow> Some t | Stop _ _ \<Rightarrow> None)"

primrec lock_run :: "lock_event list \<Rightarrow> mach \<Rightarrow> mach option" where
  "lock_run [] s = Some s"
| "lock_run (e # es) s = (case lock_step e s of None \<Rightarrow> None | Some t \<Rightarrow> lock_run es t)"

text \<open>
  Specification: seen from one lock, a run is a sequence of critical sections, each opened by an
  acquisition and closed by a release of the same hart before any other hart gets in.
\<close>

fun critical_sections :: "lockid \<Rightarrow> nat option \<Rightarrow> lock_event list \<Rightarrow> bool" where
  "critical_sections lk own [] = True"
| "critical_sections lk own (Acq h l # es) =
     (if l = lk then own = None \<and> critical_sections lk (Some h) es
      else critical_sections lk own es)"
| "critical_sections lk own (Rel h l # es) =
     (if l = lk then own = Some h \<and> critical_sections lk None es
      else critical_sections lk own es)"

definition ints_on :: "cpu \<Rightarrow> bool" where
  "ints_on c \<longleftrightarrow> csrs c Sstatus AND SSTATUS_SIE \<noteq> 0"

definition lock_owner :: "'z mach_scheme \<Rightarrow> lockid \<Rightarrow> nat option" where
  "lock_owner s lk = (if locked (locks s lk) then lcpu (locks s lk) else None)"

definition held_by :: "'z mach_scheme \<Rightarrow> nat \<Rightarrow> lockid set" where
  "held_by s h = {lk. lock_owner s lk = Some h}"

text \<open>
  The lock discipline: a held lock records its CPU, the nesting depth of each CPU is the number of
  locks it holds, and interrupts are on exactly as they were before the first of them was taken.
  \<open>on h\<close> is the interrupt state of hart \<open>h\<close> outside every critical section.
\<close>

definition hart_ok :: "bool \<Rightarrow> cpu \<Rightarrow> nat \<Rightarrow> bool" where
  "hart_ok on c n \<longleftrightarrow> noff c = int n \<and>
     (if n = 0 then ints_on c = on else \<not> ints_on c \<and> intena c = on)"

definition lock_inv :: "(nat \<Rightarrow> bool) \<Rightarrow> 'z mach_scheme \<Rightarrow> bool" where
  "lock_inv on s \<longleftrightarrow>
     (\<forall>lk. locked (locks s lk) \<longrightarrow> lcpu (locks s lk) \<noteq> None) \<and>
     (\<forall>h. finite (held_by s h) \<and> hart_ok (on h) (cpus s h) (card (held_by s h)))"

section \<open>One-step equations\<close>

lemma bit_SIE: "bit SSTATUS_SIE n \<longleftrightarrow> n = 1"
  using bit_exp_iff [where 'a = uint64, of 1 n] by (auto simp: SSTATUS_SIE_def)

lemma SIE_bit: "x AND SSTATUS_SIE \<noteq> 0 \<longleftrightarrow> bit x 1"
  by (auto simp: bit_eq_iff [of "x AND SSTATUS_SIE"] bit_simps bit_SIE)

lemma SIE_nonzero [simp]: "SSTATUS_SIE \<noteq> 0"
  by (simp add: SSTATUS_SIE_def)

lemma SIE_clear [simp]: "(x AND NOT SSTATUS_SIE) AND SSTATUS_SIE = 0"
  by (simp add: and.assoc)

lemma SIE_set [simp]: "(x OR SSTATUS_SIE) AND SSTATUS_SIE \<noteq> 0"
  by simp

lemma SIE_restore: "x AND SSTATUS_SIE \<noteq> 0 \<Longrightarrow> (x AND NOT SSTATUS_SIE) OR SSTATUS_SIE = x"
  unfolding SIE_bit by (auto intro!: bit_word_eqI simp: bit_simps bit_SIE)

lemma SIE_already_clear: "x AND SSTATUS_SIE = 0 \<Longrightarrow> x AND NOT SSTATUS_SIE = x"
  using SIE_bit [of x] by (auto intro!: bit_word_eqI simp: bit_simps bit_SIE)

section \<open>Effect of the operations\<close>

definition pushed :: "cpu \<Rightarrow> cpu" where
  "pushed c = c\<lparr>csrs := (csrs c)(Sstatus := csrs c Sstatus AND NOT SSTATUS_SIE),
               intena := (if noff c = 0 then ints_on c else intena c),
               noff := noff c + 1\<rparr>"

definition popped :: "cpu \<Rightarrow> cpu" where
  "popped c = c\<lparr>noff := noff c - 1,
               csrs := (if noff c = 1 \<and> intena c
                        then (csrs c)(Sstatus := csrs c Sstatus OR SSTATUS_SIE) else csrs c)\<rparr>"

text \<open>Outside every critical section the saved flag agrees with the interrupt bit; inside,
  interrupts are off.\<close>

definition settled :: "cpu \<Rightarrow> bool" where
  "settled c \<longleftrightarrow> 0 \<le> noff c \<and> (if noff c = 0 then intena c = ints_on c else \<not> ints_on c)"

definition lk_free :: "'z mach_scheme \<Rightarrow> lockid \<Rightarrow> bool" where
  "lk_free s lk \<longleftrightarrow> \<not> locked (locks s lk) \<and> lcpu (locks s lk) = None"

definition lk_mine :: "'z mach_scheme \<Rightarrow> lockid \<Rightarrow> bool" where
  "lk_mine s lk \<longleftrightarrow> locked (locks s lk) \<and> lcpu (locks s lk) = Some (tp s)"

lemmas intr_defs = intr_get_def intr_on_def intr_off_def r_csr_def w_csr_def

lemma push_off_eq: "push_off s = Done () (upd_mycpu pushed s)"
  by (simp add: push_off_def intr_defs kern_simps upd_mycpu_def mycpu_def pushed_def ints_on_def)

lemma pop_off_eq:
  "\<not> ints_on (mycpu s) \<Longrightarrow> 0 < noff (mycpu s) \<Longrightarrow> pop_off s = Done () (upd_mycpu popped s)"
  by (simp add: pop_off_def intr_defs kern_simps upd_mycpu_def mycpu_def popped_def ints_on_def)

lemma popped_pushed: "settled c \<Longrightarrow> popped (pushed c) = c"
  by (cases "ints_on c")
    (auto simp: popped_def pushed_def settled_def ints_on_def SIE_restore SIE_already_clear
      intro!: cpu.equality split: if_splits)

definition enter :: "lockid \<Rightarrow> 'z mach_scheme \<Rightarrow> 'z mach_scheme" where
  "enter lk s = (upd_mycpu pushed s)
     \<lparr>locks := (locks s)(lk := (locks s lk)\<lparr>locked := True, lcpu := Some (tp s)\<rparr>)\<rparr>"

definition leave :: "lockid \<Rightarrow> 'z mach_scheme \<Rightarrow> 'z mach_scheme" where
  "leave lk s = upd_mycpu popped
     (s\<lparr>locks := (locks s)(lk := (locks s lk)\<lparr>lcpu := None, locked := False\<rparr>)\<rparr>)"

lemma acquire_free: "\<not> locked (locks s lk) \<Longrightarrow> acquire lk s = Done () (enter lk s)"
  by (simp add: acquire_def holding_def push_off_eq kern_simps enter_def upd_mycpu_def)

lemma acquire_held_other:
  "locked (locks s lk) \<Longrightarrow> lcpu (locks s lk) \<noteq> Some (tp s) \<Longrightarrow>
   acquire lk s = Stop (Spin lk) (upd_mycpu pushed s)"
  by (simp add: acquire_def holding_def push_off_eq kern_simps upd_mycpu_def)

lemma acquire_held_self:
  "lk_mine s lk \<Longrightarrow> acquire lk s = Stop (Panic ''acquire'') (upd_mycpu pushed s)"
  by (simp add: acquire_def holding_def push_off_eq kern_simps upd_mycpu_def lk_mine_def)

lemma release_not_mine: "\<not> lk_mine s lk \<Longrightarrow> release lk s = Stop (Panic ''release'') s"
  by (auto simp: release_def holding_def kern_simps lk_mine_def)

lemma release_mine:
  "lk_mine s lk \<Longrightarrow> \<not> ints_on (mycpu s) \<Longrightarrow> 0 < noff (mycpu s) \<Longrightarrow>
   release lk s = Done () (leave lk s)"
  by (simp add: release_def holding_def kern_simps lk_mine_def pop_off_eq mycpu_def leave_def
      upd_mycpu_def)

lemma mycpu_enter: "mycpu (enter lk s) = pushed (mycpu s)"
  by (simp add: mycpu_def enter_def upd_mycpu_def)

lemma enter_simps [simp]:
  "tp (enter lk s) = tp s"
  "lk_mine (enter lk s) lk"
  "lk' \<noteq> lk \<Longrightarrow> locks (enter lk s) lk' = locks s lk'"
  by (simp_all add: enter_def upd_mycpu_def lk_mine_def)

lemma pushed_off [simp]: "\<not> ints_on (pushed c)" "noff (pushed c) = noff c + 1"
  by (simp_all add: pushed_def ints_on_def)

lemma cproc_push_pop [simp]: "cproc (pushed c) = cproc c" "cproc (popped c) = cproc c"
  by (simp_all add: pushed_def popped_def)

lemma settled_nonneg: "settled c \<Longrightarrow> 0 \<le> noff c"
  by (simp add: settled_def)

lemma settled_pushed: "settled c \<Longrightarrow> settled (pushed c)"
  by (simp add: settled_def)

lemma leave_enter: "lk_free s lk \<Longrightarrow> settled (mycpu s) \<Longrightarrow> leave lk (enter lk s) = s"
  by (simp add: leave_def enter_def upd_mycpu_def mycpu_def popped_pushed lk_free_def
      fun_upd_same_value spinlock.equality)

lemma release_enter:
  "settled (mycpu s) \<Longrightarrow> release lk (enter lk s) = Done () (leave lk (enter lk s))"
  by (rule release_mine) (auto simp: mycpu_enter dest: settled_nonneg)

lemma acquire_release:
  "lk_free s lk \<Longrightarrow> settled (mycpu s) \<Longrightarrow> Seq (acquire lk) (release lk) s = Done () s"
  by (simp add: Do_def acquire_free release_enter leave_enter lk_free_def)

text \<open>The end of a critical section: whatever else the section changed, the CPU and the locks are
  back to what they were before the matching \<open>acquire\<close>.\<close>

lemma release_from:
  assumes "lk_free s lk" and "settled (mycpu s)"
    and "tp u = tp s" and "cpus u = cpus (enter lk s)" and "locks u = locks (enter lk s)"
  shows "release lk u = Done () (u\<lparr>cpus := cpus s, locks := locks s\<rparr>)"
proof -
  have *: "release lk u = Done () (leave lk u)"
    using assms by (intro release_mine)
      (auto simp: lk_mine_def mycpu_def enter_def upd_mycpu_def dest: settled_nonneg)
  have "leave lk u = u\<lparr>locks := locks s, cpus := cpus s\<rparr>"
    using assms
    by (simp add: leave_def enter_def upd_mycpu_def mycpu_def popped_pushed lk_free_def
        fun_upd_same_value spinlock.equality)
  with * show ?thesis by simp
qed

section \<open>Mutual exclusion\<close>

text \<open>No critical section is open on this CPU and no lock is taken; a process may run or not.\<close>

definition calm :: "'z mach_scheme \<Rightarrow> bool" where
  "calm s \<longleftrightarrow> settled (mycpu s) \<and> (\<forall>lk. lk_free s lk)"

lemma critical_section:
  assumes "lk_free s lk" and "settled (mycpu s)" and "m (enter lk s) = Done x v"
    and "tp v = tp s" and "cpus v = cpus (enter lk s)" and "locks v = locks (enter lk s)"
  shows "Seq (acquire lk) (Do m (\<lambda>x. Seq (release lk) (k x))) s = k x (v\<lparr>cpus := cpus s, locks := locks s\<rparr>)"
    and "Seq (acquire lk) (Seq m (release lk)) s = Done () (v\<lparr>cpus := cpus s, locks := locks s\<rparr>)"
proof -
  have "acquire lk s = Done () (enter lk s)" "release lk v = Done () (v\<lparr>cpus := cpus s, locks := locks s\<rparr>)"
    using release_from [of s lk v] assms by (simp_all add: acquire_free lk_free_def)
  with assms(3) show "Seq (acquire lk) (Do m (\<lambda>x. Seq (release lk) (k x))) s = k x (v\<lparr>cpus := cpus s, locks := locks s\<rparr>)"
    "Seq (acquire lk) (Seq m (release lk)) s = Done () (v\<lparr>cpus := cpus s, locks := locks s\<rparr>)"
    by (simp_all add: Do_def)
qed

lemma acquire_Done_iff:
  "acquire lk s = Done x t \<longleftrightarrow> \<not> locked (locks s lk) \<and> t = enter lk s"
  by (cases "locked (locks s lk)"; cases "lcpu (locks s lk) = Some (tp s)")
    (simp_all add: acquire_free acquire_held_other acquire_held_self lk_mine_def eq_commute)

lemma release_Done:
  "release lk s = Done x t \<Longrightarrow> lk_mine s lk \<and> \<not> ints_on (mycpu s) \<and> 0 < noff (mycpu s) \<and> t = leave lk s"
  by (auto simp: release_def holding_def lk_mine_def kern_simps leave_def upd_mycpu_def mycpu_def
      pop_off_def intr_defs ints_on_def popped_def fun_upd_same_value spinlock.equality
      split: if_splits)

lemma owner_enter:
  "lock_owner (enter lk s) l = (if l = lk then Some (tp s) else lock_owner s l)"
  by (simp add: lock_owner_def enter_def upd_mycpu_def)

lemma owner_leave: "lock_owner (leave lk s) l = (if l = lk then None else lock_owner s l)"
  by (simp add: lock_owner_def leave_def upd_mycpu_def)

lemma owner_free: "\<not> locked (locks s lk) \<Longrightarrow> lock_owner s lk = None"
  by (simp add: lock_owner_def)

lemma owner_tp [simp]: "lock_owner (s\<lparr>tp := h\<rparr>) l = lock_owner s l"
  by (simp add: lock_owner_def)

lemma lock_step_cases:
  assumes "lock_step e s = Some t"
  obtains (acq) h lk where "e = Acq h lk" "\<not> locked (locks s lk)" "t = enter lk (s\<lparr>tp := h\<rparr>)"
  | (rel) h lk where "e = Rel h lk" "lock_owner s lk = Some h" "\<not> ints_on (cpus s h)"
      "0 < noff (cpus s h)" "t = leave lk (s\<lparr>tp := h\<rparr>)"
proof (cases e)
  case (Acq h lk)
  with assms have "acquire lk (s\<lparr>tp := h\<rparr>) = Done () t"
    by (simp split: res.splits)
  then show ?thesis using acq [OF Acq] by (simp add: acquire_Done_iff)
next
  case (Rel h lk)
  with assms have "release lk (s\<lparr>tp := h\<rparr>) = Done () t"
    by (simp split: res.splits)
  then show ?thesis using rel [OF Rel]
    by (auto dest!: release_Done simp: lock_owner_def lk_mine_def mycpu_def)
qed


lemma held_by_enter:
  "\<not> locked (locks s lk) \<Longrightarrow>
   held_by (enter lk (s\<lparr>tp := h\<rparr>)) g = (if g = h then insert lk (held_by s g) else held_by s g)"
  by (auto simp: held_by_def owner_enter owner_free)

lemma held_by_leave:
  "lock_owner s lk = Some h \<Longrightarrow>
   held_by (leave lk (s\<lparr>tp := h\<rparr>)) g = (if g = h then held_by s g - {lk} else held_by s g)"
  by (auto simp: held_by_def owner_leave)

lemma cpus_enter: "cpus (enter lk (s\<lparr>tp := h\<rparr>)) = (cpus s)(h := pushed (cpus s h))"
  by (simp add: enter_def upd_mycpu_def)

lemma cpus_leave: "cpus (leave lk (s\<lparr>tp := h\<rparr>)) = (cpus s)(h := popped (cpus s h))"
  by (simp add: leave_def upd_mycpu_def)

lemma hart_ok_pushed: "hart_ok on c n \<Longrightarrow> hart_ok on (pushed c) (Suc n)"
  by (auto simp: hart_ok_def pushed_def ints_on_def split: if_splits)

lemma hart_ok_popped: "hart_ok on c (Suc n) \<Longrightarrow> hart_ok on (popped c) n"
  by (auto simp: hart_ok_def popped_def ints_on_def split: if_splits)

lemma lock_inv_enter:
  assumes inv: "lock_inv on s" and free: "\<not> locked (locks s lk)"
  shows "lock_inv on (enter lk (s\<lparr>tp := h\<rparr>))"
proof -
  have "lk \<notin> held_by s h" using free by (simp add: held_by_def owner_free)
  then have "hart_ok (on h) (pushed (cpus s h)) (card (insert lk (held_by s h)))"
    using inv by (simp add: lock_inv_def hart_ok_pushed)
  moreover have "\<forall>l. locked (locks (enter lk (s\<lparr>tp := h\<rparr>)) l) \<longrightarrow>
      lcpu (locks (enter lk (s\<lparr>tp := h\<rparr>)) l) \<noteq> None"
    using inv by (simp add: lock_inv_def enter_def upd_mycpu_def)
  ultimately show ?thesis
    using inv free by (simp add: lock_inv_def held_by_enter cpus_enter)
qed

lemma lock_inv_leave:
  assumes inv: "lock_inv on s" and own: "lock_owner s lk = Some h"
  shows "lock_inv on (leave lk (s\<lparr>tp := h\<rparr>))"
proof -
  have "lk \<in> held_by s h" using own by (simp add: held_by_def)
  with inv have "card (held_by s h) = Suc (card (held_by s h - {lk}))"
    unfolding lock_inv_def by (blast intro: card.remove)
  with inv have "hart_ok (on h) (popped (cpus s h)) (card (held_by s h - {lk}))"
    by (metis hart_ok_popped lock_inv_def)
  moreover have "\<forall>l. locked (locks (leave lk (s\<lparr>tp := h\<rparr>)) l) \<longrightarrow>
      lcpu (locks (leave lk (s\<lparr>tp := h\<rparr>)) l) \<noteq> None"
    using inv by (simp add: lock_inv_def leave_def upd_mycpu_def)
  ultimately show ?thesis
    using inv own by (simp add: lock_inv_def held_by_leave cpus_leave)
qed

lemma lock_step_inv: "lock_step e s = Some t \<Longrightarrow> lock_inv on s \<Longrightarrow> lock_inv on t"
  by (erule lock_step_cases) (auto intro: lock_inv_enter lock_inv_leave)

lemma lock_run_inv: "lock_run es s = Some t \<Longrightarrow> lock_inv on s \<Longrightarrow> lock_inv on t"
proof (induction es arbitrary: s)
  case Nil
  then show ?case by simp
next
  case (Cons e es)
  then obtain u where "lock_step e s = Some u" "lock_run es u = Some t"
    by (auto split: option.splits)
  with Cons show ?case by (blast intro: lock_step_inv)
qed

text \<open>C2: in every run that starts from a state obeying the lock discipline, a hart that holds a
  spin lock has interrupts disabled, and as soon as it has released every lock it took, interrupts
  are exactly as they were before it took the first.\<close>

theorem interrupts_follow_locks:
  assumes "lock_run es s = Some t" and "lock_inv on s"
  shows "ints_on (cpus t h) = (held_by t h = {} \<and> on h)"
proof -
  have "finite (held_by t h)" "hart_ok (on h) (cpus t h) (card (held_by t h))"
    using lock_run_inv [OF assms] by (auto simp: lock_inv_def)
  then show ?thesis by (auto simp: hart_ok_def split: if_splits)
qed


section \<open>A booted machine\<close>

definition cpu0 :: cpu where
  "cpu0 = \<lparr>cproc = None, noff = 0, intena = True, csrs = (\<lambda>r. if r = Sstatus then SSTATUS_SIE else 0)\<rparr>"

definition mach0 :: mach where
  "mach0 = \<lparr>tp = 0, cpus = (\<lambda>_. cpu0), locks = (\<lambda>_. \<lparr>locked = False, lname = [], lcpu = None\<rparr>)\<rparr>"

lemma ints_on_cpu0 [simp]: "ints_on cpu0"
  by (simp add: cpu0_def ints_on_def)

lemma settled_cpu0 [simp]: "settled cpu0"
  by (simp add: settled_def) (simp add: cpu0_def)

lemma lock_inv_mach0: "lock_inv (\<lambda>_. True) mach0"
  by (simp add: lock_inv_def held_by_def lock_owner_def hart_ok_def mach0_def) (simp add: cpu0_def)

definition demo_events :: "lock_event list" where
  "demo_events = [Acq 0 KmemLock, Acq 1 BcacheLock, Rel 0 KmemLock, Acq 1 KmemLock]"

lemma demo_run: "\<exists>t. lock_run demo_events mach0 = Some t \<and> held_by t 1 = {KmemLock, BcacheLock}"
  by (simp add: demo_events_def acquire_free release_mine lk_mine_def enter_def leave_def
      upd_mycpu_def mach0_def mycpu_def pushed_def popped_def ints_on_def cpu0_def held_by_def
      lock_owner_def)
    (auto simp: fun_upd_def)


theorem interrupts_follow_locks_witness:
  "\<exists>t. lock_run demo_events mach0 = Some t \<and> \<not> ints_on (cpus t 1) \<and>
       ints_on (cpus t 2) = (held_by t 2 = {})"
proof -
  obtain t where t: "lock_run demo_events mach0 = Some t" "held_by t 1 = {KmemLock, BcacheLock}"
    using demo_run by blast
  then show ?thesis
    using interrupts_follow_locks [OF t(1) lock_inv_mach0] by simp
qed


end
