(* ===== verification/Sched.thy ===== *)
theory Sched
  imports Spinlock
begin

text \<open>
  The process table and the scheduling core: \<open>struct proc\<close> of \<open>kernel/proc.h\<close>, the functions of
  \<open>kernel/proc.c\<close> that need no memory and no files (\<open>myproc\<close>, \<open>allocpid\<close>, \<open>scheduler\<close>,
  \<open>sched\<close>, \<open>yield\<close>, \<open>sleep\<close>, \<open>wakeup\<close>, \<open>kkill\<close>, \<open>setkilled\<close>, \<open>killed\<close>, \<open>reparent\<close>) and
  all of \<open>kernel/sleeplock.c\<close>.

  A kernel thread runs until \<open>sched\<close> calls \<open>swtch\<close>; the model stops there with the outcome
  \<open>Swtch\<close>. What the thread does when the scheduler runs it again is a definition of its own
  (\<open>sched_resume\<close>, \<open>yield_resume\<close>, \<open>sleep_resume\<close>), and so is the scheduler's side of the switch
  (\<open>scheduler_try\<close> up to \<open>swtch\<close>, \<open>scheduler_back\<close> after it). The tables of the source are total
  functions on indices; the loops range over \<open>[0..<NPROC]\<close>.
\<close>

section \<open>State\<close>

datatype procstate = UNUSED | USED | SLEEPING | RUNNABLE | RUNNING | ZOMBIE

record kcontext =
  ra :: uint64
  sp :: uint64
  callee_saved :: "nat \<Rightarrow> uint64"  \<comment> \<open>registers s0 to s11\<close>

record proc =
  pstate :: procstate
  pchan :: "chan option"
  pkilled :: bool
  xstate :: uint
  pid :: uint
  parent :: "nat option"
  kstack :: uint64
  sz :: uint64
  pagetable :: uint64
  trapframe :: uint64
  pcontext :: kcontext
  ofile :: "nat \<Rightarrow> nat option"
  cwd :: "nat option"
  pname :: "byte list"

record sleeplock =
  slocked :: bool
  sname :: string
  spid :: uint

record sched = mach +
  procs :: "nat \<Rightarrow> proc"
  initproc :: "nat option"
  nextpid :: uint
  slocks :: "slockid \<Rightarrow> sleeplock"

definition upd_proc :: "nat \<Rightarrow> (proc \<Rightarrow> proc) \<Rightarrow> ('z sched_scheme, unit) kern" where
  "upd_proc p f = modify (\<lambda>s. s\<lparr>procs := (procs s)(p := f (procs s p))\<rparr>)"

section \<open>The current process\<close>

definition myproc :: "('z mach_scheme, nat option) kern" where
  "myproc =
     Seq push_off (
     Do (gets (\<lambda>s. cproc (mycpu s))) (\<lambda>p.
     Seq pop_off (
     return p)))"

text \<open>\<open>struct proc *p = myproc();\<close> followed by an access through \<open>p\<close>.\<close>

definition cur :: "('z mach_scheme, nat) kern" where
  "cur = Do myproc (\<lambda>p. case p of None \<Rightarrow> stop (Fault ''myproc'') | Some i \<Rightarrow> return i)"

definition allocpid :: "('z sched_scheme, uint) kern" where
  "allocpid =
     Seq (acquire PidLock) (
     Do (gets nextpid) (\<lambda>p.
     Seq (modify (\<lambda>s. s\<lparr>nextpid := nextpid s + 1\<rparr>)) (
     Seq (release PidLock) (
     return p))))"

section \<open>Switching\<close>

definition sched :: "('z sched_scheme, 'a) kern" where
  "sched =
     Do cur (\<lambda>p.
     Do (holding (ProcLock p)) (\<lambda>h.
     if \<not> h then panic ''sched p->lock'' else
     Do (gets (\<lambda>s. noff (mycpu s))) (\<lambda>n.
     if n \<noteq> 1 then panic ''sched locks'' else
     Do (gets (\<lambda>s. pstate (procs s p))) (\<lambda>st.
     if st = RUNNING then panic ''sched RUNNING'' else
     Do intr_get (\<lambda>on.
     if on then panic ''sched interruptible'' else
     stop Swtch)))))"

definition sched_resume :: "bool \<Rightarrow> ('z sched_scheme, unit) kern" where
  "sched_resume saved = modify (upd_mycpu (\<lambda>c. c\<lparr>intena := saved\<rparr>))"

definition yield :: "('z sched_scheme, unit) kern" where
  "yield =
     Do cur (\<lambda>p.
     Seq (acquire (ProcLock p)) (
     Seq (upd_proc p (\<lambda>q. q\<lparr>pstate := RUNNABLE\<rparr>))
     sched))"

definition yield_resume :: "nat \<Rightarrow> bool \<Rightarrow> ('z sched_scheme, unit) kern" where
  "yield_resume p saved = Seq (sched_resume saved) (release (ProcLock p))"

definition sleep :: "chan \<Rightarrow> lockid \<Rightarrow> ('z sched_scheme, 'a) kern" where
  "sleep ch lk =
     Do cur (\<lambda>p.
     Seq (acquire (ProcLock p)) (
     Seq (release lk) (
     Seq (upd_proc p (\<lambda>q. q\<lparr>pchan := Some ch\<rparr>)) (
     Seq (upd_proc p (\<lambda>q. q\<lparr>pstate := SLEEPING\<rparr>))
     sched))))"

definition sleep_resume :: "nat \<Rightarrow> bool \<Rightarrow> lockid \<Rightarrow> ('z sched_scheme, unit) kern" where
  "sleep_resume p saved lk =
     Seq (sched_resume saved) (
     Seq (upd_proc p (\<lambda>q. q\<lparr>pchan := None\<rparr>)) (
     Seq (release (ProcLock p))
     (acquire lk)))"

text \<open>
  One iteration of the scheduler's inner loop: \<open>True\<close> when it switched to process \<open>p\<close>, which
  then runs with \<open>p->lock\<close> held; \<open>scheduler_back\<close> is what follows when \<open>p\<close> switches back.
\<close>

definition scheduler_try :: "nat \<Rightarrow> ('z sched_scheme, bool) kern" where
  "scheduler_try p =
     Seq (acquire (ProcLock p)) (
     Do (gets (\<lambda>s. pstate (procs s p))) (\<lambda>st.
     if st = RUNNABLE then
       Seq (upd_proc p (\<lambda>q. q\<lparr>pstate := RUNNING\<rparr>)) (
       Seq (modify (upd_mycpu (\<lambda>c. c\<lparr>cproc := Some p\<rparr>)))
       (return True))
     else Seq (release (ProcLock p)) (return False)))"

definition scheduler_back :: "nat \<Rightarrow> ('z sched_scheme, unit) kern" where
  "scheduler_back p =
     Seq (modify (upd_mycpu (\<lambda>c. c\<lparr>cproc := None\<rparr>)))
     (release (ProcLock p))"

section \<open>Waking and killing\<close>

definition wakeup_one :: "chan \<Rightarrow> nat \<Rightarrow> ('z sched_scheme, unit) kern" where
  "wakeup_one ch p =
     Do myproc (\<lambda>me.
     kwhen (me \<noteq> Some p) (
       Seq (acquire (ProcLock p)) (
       Do (gets (\<lambda>s. procs s p)) (\<lambda>q.
       Seq (kwhen (pstate q = SLEEPING \<and> pchan q = Some ch)
              (upd_proc p (\<lambda>q. q\<lparr>pstate := RUNNABLE\<rparr>)))
       (release (ProcLock p))))))"

definition wakeup :: "chan \<Rightarrow> ('z sched_scheme, unit) kern" where
  "wakeup ch = for_each [0..<NPROC] (wakeup_one ch)"

definition kkill :: "uint \<Rightarrow> ('z sched_scheme, int) kern" where
  "kkill n =
     Do (for_find [0..<NPROC] (\<lambda>p.
       Seq (acquire (ProcLock p)) (
       Do (gets (\<lambda>s. procs s p)) (\<lambda>q.
       if pid q = n then
         Seq (upd_proc p (\<lambda>q. q\<lparr>pkilled := True\<rparr>)) (
         Seq (kwhen (pstate q = SLEEPING) (upd_proc p (\<lambda>q. q\<lparr>pstate := RUNNABLE\<rparr>))) (
         Seq (release (ProcLock p))
         (return (Some (0 :: int)))))
       else Seq (release (ProcLock p)) (return None)))))
     (\<lambda>r. return (case r of Some v \<Rightarrow> v | None \<Rightarrow> - 1))"

definition setkilled :: "nat \<Rightarrow> ('z sched_scheme, unit) kern" where
  "setkilled p =
     Seq (acquire (ProcLock p)) (
     Seq (upd_proc p (\<lambda>q. q\<lparr>pkilled := True\<rparr>))
     (release (ProcLock p)))"

definition killed :: "nat \<Rightarrow> ('z sched_scheme, bool) kern" where
  "killed p =
     Seq (acquire (ProcLock p)) (
     Do (gets (\<lambda>s. pkilled (procs s p))) (\<lambda>k.
     Seq (release (ProcLock p))
     (return k)))"

text \<open>\<open>wakeup(initproc)\<close> and \<open>pp->parent = initproc\<close> compare and store a pointer that is null
  before \<open>userinit\<close>.\<close>

definition reparent :: "nat \<Rightarrow> ('z sched_scheme, unit) kern" where
  "reparent p =
     for_each [0..<NPROC] (\<lambda>pp.
       Do (gets (\<lambda>s. parent (procs s pp))) (\<lambda>par.
       kwhen (par = Some p) (
         Do (gets initproc) (\<lambda>ip.
         Seq (upd_proc pp (\<lambda>q. q\<lparr>parent := ip\<rparr>)) (
         case ip of None \<Rightarrow> stop (Fault ''reparent'') | Some i \<Rightarrow> wakeup (ProcChan i))))))"

section \<open>Sleep locks\<close>

definition upd_slock :: "slockid \<Rightarrow> (sleeplock \<Rightarrow> sleeplock) \<Rightarrow> ('z sched_scheme, unit) kern" where
  "upd_slock k f = modify (\<lambda>s. s\<lparr>slocks := (slocks s)(k := f (slocks s k))\<rparr>)"

definition initsleeplock :: "slockid \<Rightarrow> string \<Rightarrow> ('z sched_scheme, unit) kern" where
  "initsleeplock k name =
     Seq (initlock (SleepLk k) ''sleep lock'')
     (upd_slock k (\<lambda>_. \<lparr>slocked = False, sname = name, spid = 0\<rparr>))"

text \<open>A thread woken from \<open>acquiresleep\<close> tests the lock again: it runs \<open>sleep_resume\<close> and then
  \<open>acquiresleep_loop\<close>.\<close>

definition acquiresleep_loop :: "slockid \<Rightarrow> ('z sched_scheme, unit) kern" where
  "acquiresleep_loop k =
     Do (gets (\<lambda>s. slocked (slocks s k))) (\<lambda>busy.
     if busy then sleep (SlockChan k) (SleepLk k) else
     Seq (upd_slock k (\<lambda>l. l\<lparr>slocked := True\<rparr>)) (
     Do cur (\<lambda>p.
     Do (gets (\<lambda>s. pid (procs s p))) (\<lambda>n.
     Seq (upd_slock k (\<lambda>l. l\<lparr>spid := n\<rparr>))
     (release (SleepLk k))))))"

definition acquiresleep :: "slockid \<Rightarrow> ('z sched_scheme, unit) kern" where
  "acquiresleep k = Seq (acquire (SleepLk k)) (acquiresleep_loop k)"

definition releasesleep :: "slockid \<Rightarrow> ('z sched_scheme, unit) kern" where
  "releasesleep k =
     Seq (acquire (SleepLk k)) (
     Seq (upd_slock k (\<lambda>l. l\<lparr>slocked := False\<rparr>)) (
     Seq (upd_slock k (\<lambda>l. l\<lparr>spid := 0\<rparr>)) (
     Seq (wakeup (SlockChan k))
     (release (SleepLk k)))))"

definition holdingsleep :: "slockid \<Rightarrow> ('z sched_scheme, bool) kern" where
  "holdingsleep k =
     Seq (acquire (SleepLk k)) (
     Do (gets (\<lambda>s. slocked (slocks s k))) (\<lambda>b.
     Do (if b then Do cur (\<lambda>p. gets (\<lambda>s. spid (slocks s k) = pid (procs s p))) else return False) (\<lambda>r.
     Seq (release (SleepLk k))
     (return r))))"

section \<open>Effect of the operations\<close>

lemma myproc_eq: "settled (mycpu s) \<Longrightarrow> myproc s = Done (cproc (mycpu s)) s"
proof -
  assume st: "settled (mycpu s)"
  have "pop_off (upd_mycpu pushed s) = Done () (upd_mycpu popped (upd_mycpu pushed s))"
    using st by (intro pop_off_eq) (auto simp: mycpu_def upd_mycpu_def dest: settled_nonneg)
  also have "upd_mycpu popped (upd_mycpu pushed s) = s"
    using st by (simp add: upd_mycpu_def mycpu_def popped_pushed)
  finally show ?thesis
    by (simp add: myproc_def push_off_eq kern_simps) (simp add: mycpu_def upd_mycpu_def)
qed

lemma cur_eq: "settled (mycpu s) \<Longrightarrow> cproc (mycpu s) = Some p \<Longrightarrow> cur s = Done p s"
  by (simp add: cur_def Do_def myproc_eq return_def)

definition woken :: "chan \<Rightarrow> nat option \<Rightarrow> (nat \<Rightarrow> proc) \<Rightarrow> nat \<Rightarrow> proc" where
  "woken ch me ps p =
     (if p < NPROC \<and> me \<noteq> Some p \<and> pstate (ps p) = SLEEPING \<and> pchan (ps p) = Some ch
      then (ps p)\<lparr>pstate := RUNNABLE\<rparr> else ps p)"

lemma upd_proc_eq: "upd_proc p f s = Done () (s\<lparr>procs := (procs s)(p := f (procs s p))\<rparr>)"
  by (simp add: upd_proc_def modify_def)

lemma mycpu_procs [simp]: "mycpu (s\<lparr>procs := x\<rparr>) = mycpu s"
  by (simp add: mycpu_def)

lemma lk_free_procs [simp]: "lk_free (s\<lparr>procs := x\<rparr>) lk = lk_free s lk"
  by (simp add: lk_free_def)

lemma release_procs:
  "lk_free s lk \<Longrightarrow> settled (mycpu s) \<Longrightarrow>
   release lk ((enter lk s)\<lparr>procs := x\<rparr>) = Done () (s\<lparr>procs := x\<rparr>)"
  by (subst release_from [of s lk]) (simp_all add: enter_def upd_mycpu_def)

lemma procs_enter [simp]: "procs (enter lk s) = procs s" "slocks (enter lk s) = slocks s"
  by (simp_all add: enter_def upd_mycpu_def)

lemma wakeup_one_eq:
  assumes "settled (mycpu s)" and "cproc (mycpu s) \<noteq> Some p \<longrightarrow> lk_free s (ProcLock p)" and "p < NPROC"
  shows "wakeup_one ch p s =
    Done () (s\<lparr>procs := (procs s)(p := woken ch (cproc (mycpu s)) (procs s) p)\<rparr>)"
proof (cases "cproc (mycpu s) = Some p")
  case True
  with assms show ?thesis by (simp add: wakeup_one_def kern_simps myproc_eq woken_def)
next
  case False
  with assms have free: "lk_free s (ProcLock p)" by simp
  then have "acquire (ProcLock p) s = Done () (enter (ProcLock p) s)"
    by (simp add: acquire_free lk_free_def)
  with assms False free show ?thesis
    by (simp add: wakeup_one_def kern_simps myproc_eq woken_def
        release_procs upd_proc_eq release_enter leave_enter)
qed

lemma wakeup_upto:
  assumes "settled (mycpu s)" and "\<forall>p\<in>set ps. cproc (mycpu s) \<noteq> Some p \<longrightarrow> lk_free s (ProcLock p)"
    and "distinct ps" and "set ps \<subseteq> {..<NPROC}"
  shows "for_each ps (wakeup_one ch) s =
     Done () (s\<lparr>procs := \<lambda>p. if p \<in> set ps then woken ch (cproc (mycpu s)) (procs s) p else procs s p\<rparr>)"
  using assms
proof (induction ps arbitrary: s)
  case Nil
  then show ?case by (simp add: return_def)
next
  case (Cons p ps)
  let ?me = "cproc (mycpu s)"
  let ?s1 = "s\<lparr>procs := (procs s)(p := woken ch ?me (procs s) p)\<rparr>"
  have "for_each (p # ps) (wakeup_one ch) s = for_each ps (wakeup_one ch) ?s1"
    using Cons.prems by (simp add: Do_def wakeup_one_eq)
  also have "\<dots> = Done () (?s1\<lparr>procs := \<lambda>q. if q \<in> set ps
      then woken ch ?me (procs ?s1) q else procs ?s1 q\<rparr>)"
  proof -
    have "for_each ps (wakeup_one ch) ?s1 = Done () (?s1\<lparr>procs := \<lambda>q. if q \<in> set ps
        then woken ch (cproc (mycpu ?s1)) (procs ?s1) q else procs ?s1 q\<rparr>)"
      using Cons.prems by (intro Cons.IH) auto
    then show ?thesis by (simp only: mycpu_procs)
  qed
  also have "?s1\<lparr>procs := \<lambda>q. if q \<in> set ps then woken ch ?me (procs ?s1) q else procs ?s1 q\<rparr> =
      s\<lparr>procs := \<lambda>q. if q \<in> set (p # ps) then woken ch ?me (procs s) q else procs s q\<rparr>"
    using Cons.prems(3) by (auto simp: woken_def fun_eq_iff intro!: sched.equality)
  finally show ?case .
qed

lemma wakeup_eq:
  assumes "settled (mycpu s)" and "\<forall>p<NPROC. cproc (mycpu s) \<noteq> Some p \<longrightarrow> lk_free s (ProcLock p)"
  shows "wakeup ch s = Done () (s\<lparr>procs := woken ch (cproc (mycpu s)) (procs s)\<rparr>)"
proof -
  have "(\<lambda>p. if p \<in> set [0..<NPROC] then woken ch (cproc (mycpu s)) (procs s) p else procs s p) =
      woken ch (cproc (mycpu s)) (procs s)"
    by (auto simp: woken_def fun_eq_iff)
  with assms show ?thesis
    unfolding wakeup_def by (subst wakeup_upto) auto
qed

section \<open>Process context\<close>

text \<open>
  Code in process context, between system call entry and exit: the CPU runs a process, holds no
  spin lock, and no other CPU is inside a critical section at the moment considered.
\<close>

definition quiet :: "'z sched_scheme \<Rightarrow> bool" where
  "quiet s \<longleftrightarrow> settled (mycpu s) \<and> noff (mycpu s) = 0 \<and> (\<forall>lk. lk_free s lk) \<and>
     (\<exists>p<NPROC. cproc (mycpu s) = Some p)"

definition me :: "'z sched_scheme \<Rightarrow> nat" where
  "me s = the (cproc (mycpu s))"

definition mypid :: "'z sched_scheme \<Rightarrow> uint" where
  "mypid s = pid (procs s (me s))"

lemma quiet_free: "quiet s \<Longrightarrow> lk_free s lk"
  by (simp add: quiet_def)

lemma quiet_settled: "quiet s \<Longrightarrow> settled (mycpu s)"
  by (simp add: quiet_def)

lemma quiet_me: "quiet s \<Longrightarrow> cproc (mycpu s) = Some (me s)" "quiet s \<Longrightarrow> me s < NPROC"
  by (auto simp: quiet_def me_def)

lemma quiet_cong:
  "tp t = tp s \<Longrightarrow> cpus t = cpus s \<Longrightarrow> locks t = locks s \<Longrightarrow> quiet t = quiet s"
  by (simp add: quiet_def mycpu_def lk_free_def)

lemma quiet_updates [simp]:
  "quiet (s\<lparr>procs := x\<rparr>) = quiet s" "quiet (s\<lparr>slocks := y\<rparr>) = quiet s"
  by (simp_all add: quiet_def mycpu_def lk_free_def)

lemma me_updates [simp]:
  "me (s\<lparr>procs := x\<rparr>) = me s" "me (s\<lparr>slocks := y\<rparr>) = me s"
  by (simp_all add: me_def mycpu_def)

lemma quiet_acquire: "quiet s \<Longrightarrow> acquire lk s = Done () (enter lk s)"
  using quiet_free [of s lk] by (simp add: acquire_free lk_free_def)

lemma quiet_release:
  assumes "quiet s" and "tp u = tp s" and "cpus u = cpus (enter lk s)" and "locks u = locks (enter lk s)"
  shows "release lk u = Done () (u\<lparr>cpus := cpus s, locks := locks s\<rparr>)"
  using assms by (intro release_from) (auto simp: quiet_def)

lemma quiet_myproc: "quiet s \<Longrightarrow> myproc s = Done (Some (me s)) s"
  by (simp add: myproc_eq quiet_settled quiet_me)

lemma quiet_cur: "quiet s \<Longrightarrow> cur s = Done (me s) s"
  by (simp add: cur_eq quiet_settled quiet_me)

lemma cur_in_section:
  assumes "quiet s" and "tp u = tp s" and "cpus u = cpus (enter lk s)"
  shows "cur u = Done (me s) u"
proof -
  have "mycpu u = pushed (mycpu s)"
    using assms by (simp add: mycpu_def enter_def upd_mycpu_def)
  with assms(1) show ?thesis
    by (intro cur_eq) (auto simp: quiet_me settled_pushed quiet_settled)
qed

lemma wakeup_in_section:
  assumes "quiet s" and "tp u = tp s" and "cpus u = cpus (enter lk s)" and "locks u = locks (enter lk s)"
    and "\<And>p. lk \<noteq> ProcLock p"
  shows "wakeup ch u = Done () (u\<lparr>procs := woken ch (Some (me s)) (procs u)\<rparr>)"
proof -
  have *: "mycpu u = pushed (mycpu s)"
    using assms by (simp add: mycpu_def enter_def upd_mycpu_def)
  have "lk_free u (ProcLock p)" for p
    using assms quiet_free [OF assms(1), of "ProcLock p"] not_sym [OF assms(5) [of p]]
    by (simp add: lk_free_def)
  then show ?thesis
    using assms(1) * by (subst wakeup_eq) (simp_all add: quiet_me settled_pushed quiet_settled)
qed

definition in_section :: "lockid \<Rightarrow> 'z sched_scheme \<Rightarrow> 'z sched_scheme \<Rightarrow> bool" where
  "in_section lk s u \<longleftrightarrow> quiet s \<and> (\<forall>p. lk \<noteq> ProcLock p) \<and> tp u = tp s \<and>
     cpus u = cpus (enter lk s) \<and> locks u = locks (enter lk s)"

lemma killed_in_section:
  assumes "in_section lk s u"
  shows "killed p u = Done (pkilled (procs u p)) u"
proof -
  have *: "mycpu u = pushed (mycpu s)"
    using assms by (simp add: in_section_def mycpu_def enter_def upd_mycpu_def)
  have f: "lk_free u (ProcLock p)"
    using assms quiet_free [of s "ProcLock p"] not_sym [of lk "ProcLock p"] by (simp add: in_section_def lk_free_def)
  moreover have s: "settled (mycpu u)" using assms * by (simp add: in_section_def settled_pushed quiet_settled)
  ultimately have "release (ProcLock p) (enter (ProcLock p) u) = Done () u"
    by (simp add: release_enter leave_enter)
  with f show ?thesis
    by (simp add: killed_def Do_def acquire_free lk_free_def gets_def return_def)
qed

lemmas section_simps =
  kern_simps enter_def upd_mycpu_def upd_proc_eq upd_slock_def

lemma acquiresleep_eq:
  assumes "quiet s" and "\<not> slocked (slocks s k)"
  shows "acquiresleep k s = Done () (s\<lparr>slocks := (slocks s)(k :=
    (slocks s k)\<lparr>slocked := True, spid := mypid s\<rparr>)\<rparr>)"
proof -
  have c: "cur (u :: 'a sched_scheme) = Done (me s) u"
    if "tp u = tp s" "cpus u = cpus (enter (SleepLk k) s)" for u
    using assms(1) that by (rule cur_in_section)
  show ?thesis
    using assms
    by (simp add: acquiresleep_def acquiresleep_loop_def Do_def quiet_acquire gets_def upd_slock_def
        modify_def c quiet_release [of s])
      (simp add: enter_def upd_mycpu_def mypid_def)
qed

lemma holdingsleep_eq:
  assumes "quiet s"
  shows "holdingsleep k s = Done (slocked (slocks s k) \<and> spid (slocks s k) = mypid s) s"
proof -
  have c: "cur (enter (SleepLk k) s) = Done (me s) (enter (SleepLk k) s)"
    using assms by (rule cur_in_section) (simp_all)
  show ?thesis
    using assms
    by (simp add: holdingsleep_def Do_def quiet_acquire gets_def return_def
        c quiet_release [of s])
      (simp add: enter_def upd_mycpu_def mypid_def)
qed

lemma releasesleep_eq:
  assumes "quiet s"
  shows "releasesleep k s = Done () (s\<lparr>slocks := (slocks s)(k := (slocks s k)\<lparr>slocked := False, spid := 0\<rparr>),
    procs := woken (SlockChan k) (Some (me s)) (procs s)\<rparr>)"
  using assms
  by (simp add: releasesleep_def Do_def quiet_acquire upd_slock_def modify_def
      wakeup_in_section [of s _ "SleepLk k"] quiet_release [of s])
    (simp add: enter_def upd_mycpu_def)

section \<open>Sleeping on a held lock\<close>

lemma enter_inner:
  assumes "lk_free s lk" and "settled (mycpu s)" and "lk' \<noteq> lk"
  shows "release lk (enter lk' (enter lk s)) = Done () (enter lk' s)"
proof -
  have "lk_mine (enter lk' (enter lk s)) lk"
    using assms(3) by (simp add: lk_mine_def enter_def upd_mycpu_def)
  then have "release lk (enter lk' (enter lk s)) = Done () (leave lk (enter lk' (enter lk s)))"
    using assms(2) by (intro release_mine) (auto simp: mycpu_enter dest: settled_nonneg)
  moreover have "leave lk (enter lk' (enter lk s)) = enter lk' s"
    using assms
    by (auto simp: leave_def enter_def upd_mycpu_def mycpu_def lk_free_def popped_pushed
        settled_pushed fun_upd_twist intro!: mach.equality ext spinlock.equality split: if_splits)
  ultimately show ?thesis by simp
qed

lemma sched_swtch:
  assumes "quiet s" and "tp u = tp s" and "cpus u = cpus (enter (ProcLock (me s)) s)"
    and "locks u = locks (enter (ProcLock (me s)) s)" and "pstate (procs u (me s)) \<noteq> RUNNING"
  shows "sched u = Stop Swtch u"
proof -
  have c: "mycpu u = pushed (mycpu s)"
    using assms by (simp add: mycpu_def enter_def upd_mycpu_def)
  have "cur u = Done (me s) u" using assms(1-3) by (rule cur_in_section)
  moreover have "noff (mycpu u) = 1" "\<not> ints_on (mycpu u)"
    using assms(1) by (simp_all add: c quiet_def)
  moreover have "holding (ProcLock (me s)) u = Done True u"
    using assms by (simp add: holding_def gets_def enter_def upd_mycpu_def)
  ultimately show ?thesis
    using assms(5) by (simp add: sched_def Do_def gets_def intr_defs ints_on_def return_def stop_def)
qed

lemma sleep_eq:
  assumes "quiet s" and "\<And>p. lk \<noteq> ProcLock p"
  shows "sleep ch lk (enter lk s) = Stop Swtch ((enter (ProcLock (me s)) s)
    \<lparr>procs := (procs s)(me s := (procs s (me s))\<lparr>pchan := Some ch, pstate := SLEEPING\<rparr>)\<rparr>)"
proof -
  let ?pl = "ProcLock (me s)"
  have "cur (enter lk s) = Done (me s) (enter lk s)"
    using assms(1) by (rule cur_in_section) simp_all
  moreover have "acquire ?pl (enter lk s) = Done () (enter ?pl (enter lk s))"
    using assms quiet_free [OF assms(1), of ?pl]
    by (intro acquire_free) (simp add: lk_free_def assms(2) [symmetric])
  moreover have "release lk (enter ?pl (enter lk s)) = Done () (enter ?pl s)"
    using assms by (intro enter_inner) (auto simp: quiet_def)
  moreover have "sched (u :: 'a sched_scheme) = (Stop Swtch u :: ('b, _) res)"
    if "u = (enter ?pl s)\<lparr>procs := (procs s)(me s := (procs s (me s))\<lparr>pchan := Some ch, pstate := SLEEPING\<rparr>)\<rparr>"
    for u using assms(1) that by (intro sched_swtch) auto
  ultimately show ?thesis
    by (simp add: sleep_def Do_def upd_proc_eq)
qed

definition asleep :: "chan \<Rightarrow> 'z sched_scheme \<Rightarrow> 'z sched_scheme" where
  "asleep chn s = (enter (ProcLock (me s)) s)
     \<lparr>procs := (procs s)(me s := (procs s (me s))\<lparr>pchan := Some chn, pstate := SLEEPING\<rparr>)\<rparr>"

lemma sleep_asleep:
  assumes "quiet s" and "\<And>p. lk \<noteq> ProcLock p"
  shows "sleep chn lk (enter lk s) = Stop Swtch (asleep chn s)"
  using sleep_eq [OF assms] by (simp add: asleep_def)

lemma acquiresleep_blocks:
  assumes "quiet s" and "slocked (slocks s k)"
  shows "acquiresleep k s = Stop Swtch ((enter (ProcLock (me s)) s)
    \<lparr>procs := (procs s)(me s := (procs s (me s))\<lparr>pchan := Some (SlockChan k), pstate := SLEEPING\<rparr>)\<rparr>)"
  using assms
  by (simp add: acquiresleep_def acquiresleep_loop_def Do_def quiet_acquire gets_def
      sleep_eq [of s "SleepLk k"])

section \<open>Scheduling on several CPUs\<close>

text \<open>
  A step of the machine at the granularity of scheduling: any hart \<open>h\<close> dispatches a process, or
  the process it runs yields, sleeps, wakes others or kills one. Every rule is built from the
  operations above, both sides of \<open>swtch\<close> included: \<open>run_new\<close> is the first dispatch, where
  \<open>forkret\<close> releases \<open>p->lock\<close>; the other dispatches end in \<open>yield_resume\<close> or in
  \<open>sleep_resume\<close> and the release of the condition lock by the woken thread.
\<close>

inductive sched_step :: "sched \<Rightarrow> sched \<Rightarrow> bool" where
  run_new: "cproc (cpus s h) = None \<Longrightarrow> p < NPROC \<Longrightarrow> scheduler_try p (s\<lparr>tp := h\<rparr>) = Done True u \<Longrightarrow>
     release (ProcLock p) u = Done () t \<Longrightarrow> sched_step s t"
| run_yielded: "cproc (cpus s h) = None \<Longrightarrow> p < NPROC \<Longrightarrow> scheduler_try p (s\<lparr>tp := h\<rparr>) = Done True u \<Longrightarrow>
     yield_resume p saved u = Done () t \<Longrightarrow> sched_step s t"
| run_slept: "cproc (cpus s h) = None \<Longrightarrow> p < NPROC \<Longrightarrow> scheduler_try p (s\<lparr>tp := h\<rparr>) = Done True u \<Longrightarrow>
     (\<And>q. lk \<noteq> ProcLock q) \<Longrightarrow> sleep_resume p saved lk u = Done () v \<Longrightarrow> release lk v = Done () t \<Longrightarrow>
     sched_step s t"
| skipped: "cproc (cpus s h) = None \<Longrightarrow> scheduler_try p (s\<lparr>tp := h\<rparr>) = Done False t \<Longrightarrow> sched_step s t"
| toggled: "cproc (cpus s h) = None \<Longrightarrow> Seq intr_on intr_off (s\<lparr>tp := h\<rparr>) = Done () t \<Longrightarrow> sched_step s t"
| yielded: "cproc (cpus s h) = Some p \<Longrightarrow> yield (s\<lparr>tp := h\<rparr>) = Stop Swtch u \<Longrightarrow>
     scheduler_back p u = Done () t \<Longrightarrow> sched_step s t"
| slept: "cproc (cpus s h) = Some p \<Longrightarrow> (\<And>q. lk \<noteq> ProcLock q) \<Longrightarrow>
     Seq (acquire lk) (sleep ch lk) (s\<lparr>tp := h\<rparr>) = (Stop Swtch u :: (unit, sched) res) \<Longrightarrow>
     scheduler_back p u = Done () t \<Longrightarrow> sched_step s t"
| woke: "(\<And>q. lk \<noteq> ProcLock q) \<Longrightarrow>
     Seq (acquire lk) (Seq (wakeup ch) (release lk)) (s\<lparr>tp := h\<rparr>) = Done () t \<Longrightarrow> sched_step s t"
| killing: "kkill n (s\<lparr>tp := h\<rparr>) = Done r t \<Longrightarrow> sched_step s t"

text \<open>The invariant: between steps no spin lock is held, a process is \<open>RUNNING\<close> exactly when some
  CPU runs it, and no two CPUs run the same process.\<close>

definition cpus_inv :: "sched \<Rightarrow> bool" where
  "cpus_inv s \<longleftrightarrow>
     (\<forall>lk. lk_free s lk) \<and> (\<forall>h. noff (cpus s h) = 0) \<and>
     (\<forall>h p. cproc (cpus s h) = Some p \<longrightarrow> p < NPROC \<and> pstate (procs s p) = RUNNING) \<and>
     (\<forall>p<NPROC. pstate (procs s p) = RUNNING \<longrightarrow> (\<exists>h. cproc (cpus s h) = Some p)) \<and>
     (\<forall>h g p. cproc (cpus s h) = Some p \<longrightarrow> cproc (cpus s g) = Some p \<longrightarrow> h = g)"

definition settle :: "'z mach_scheme \<Rightarrow> 'z mach_scheme" where
  "settle s = upd_mycpu (\<lambda>c. c\<lparr>intena := ints_on c\<rparr>) s"

lemma push_off_settle: "noff (mycpu s) = 0 \<Longrightarrow> push_off s = push_off (settle s)"
  by (simp add: push_off_eq settle_def upd_mycpu_def mycpu_def pushed_def ints_on_def)

lemma acquire_settle: "noff (mycpu s) = 0 \<Longrightarrow> acquire lk s = acquire lk (settle s)"
  by (simp add: acquire_def Do_def push_off_settle)

lemma myproc_settle: "noff (mycpu s) = 0 \<Longrightarrow> myproc s = myproc (settle s)"
  by (simp add: myproc_def Do_def push_off_settle)

lemma settled_settle: "noff (mycpu s) = 0 \<Longrightarrow> settled (mycpu (settle s))"
  by (simp add: settled_def settle_def mycpu_def upd_mycpu_def ints_on_def)

lemma settle_simps [simp]:
  "tp (settle s) = tp s" "locks (settle s) = locks s" "lk_free (settle s) lk = lk_free s lk"
  "noff (cpus (settle s) h) = noff (cpus s h)" "cproc (cpus (settle s) h) = cproc (cpus s h)"
  by (simp_all add: settle_def upd_mycpu_def lk_free_def)

lemma settle_sched [simp]: "procs (settle s) = procs s" "slocks (settle s) = slocks s"
  by (simp_all add: settle_def upd_mycpu_def)

lemma view_enter [simp]:
  "cproc (cpus (enter lk s) h) = cproc (cpus s h)"
  "noff (cpus (enter lk s) h) = noff (cpus s h) + (if h = tp s then 1 else 0)"
  "lk_free (enter lk s) l = (l \<noteq> lk \<and> lk_free s l)"
  by (auto simp: enter_def upd_mycpu_def lk_free_def)

lemma view_leave [simp]:
  "tp (leave lk s) = tp s"
  "cproc (cpus (leave lk s) h) = cproc (cpus s h)"
  "noff (cpus (leave lk s) h) = noff (cpus s h) - (if h = tp s then 1 else 0)"
  "lk_free (leave lk s) l = (l = lk \<or> lk_free s l)"
  "procs (leave lk t) = procs t"
  by (auto simp: leave_def upd_mycpu_def lk_free_def popped_def)

lemma view_upd_mycpu [simp]:
  "lk_free (upd_mycpu f s) l = lk_free s l" "tp (upd_mycpu f s) = tp s"
  "cpus (upd_mycpu f s) = (cpus s)(tp s := f (cpus s (tp s)))"
  by (simp_all add: upd_mycpu_def lk_free_def)

lemma procs_upd_mycpu [simp]: "procs (upd_mycpu f s) = procs s"
  by (simp add: upd_mycpu_def)

lemma release_Done_eq: "release lk s = Done x t \<Longrightarrow> t = leave lk s"
  by (drule release_Done) simp

lemma scheduler_try_True:
  "scheduler_try p s = Done True u \<Longrightarrow>
   pstate (procs s p) = RUNNABLE \<and>
   u = upd_mycpu (\<lambda>c. c\<lparr>cproc := Some p\<rparr>)
     ((enter (ProcLock p) s)\<lparr>procs := (procs s)(p := (procs s p)\<lparr>pstate := RUNNING\<rparr>)\<rparr>)"
  by (auto simp: scheduler_try_def Do_eq_Done acquire_Done_iff gets_def upd_proc_eq modify_def return_def
      split: if_splits)

lemma scheduler_try_False:
  "scheduler_try p s = Done False t \<Longrightarrow> t = leave (ProcLock p) (enter (ProcLock p) s)"
  by (auto simp: scheduler_try_def Do_eq_Done acquire_Done_iff gets_def upd_proc_eq modify_def return_def
      split: if_splits dest: release_Done_eq)

lemma yield_resume_Done:
  "yield_resume p saved u = Done x t \<Longrightarrow> t = leave (ProcLock p) (upd_mycpu (\<lambda>c. c\<lparr>intena := saved\<rparr>) u)"
  by (auto simp: yield_resume_def sched_resume_def Do_eq_Done modify_def dest: release_Done_eq)

lemma sleep_resume_Done:
  "sleep_resume p saved lk u = Done x t \<Longrightarrow>
   t = enter lk (leave (ProcLock p) ((upd_mycpu (\<lambda>c. c\<lparr>intena := saved\<rparr>) u)
     \<lparr>procs := (procs u)(p := (procs u p)\<lparr>pchan := None\<rparr>)\<rparr>))"
  by (auto simp: sleep_resume_def sched_resume_def Do_eq_Done modify_def upd_proc_eq acquire_Done_iff
      dest!: release_Done_eq)

lemma scheduler_back_Done:
  "scheduler_back p u = Done x t \<Longrightarrow> t = leave (ProcLock p) (upd_mycpu (\<lambda>c. c\<lparr>cproc := None\<rparr>) u)"
  by (auto simp: scheduler_back_def Do_eq_Done modify_def dest: release_Done_eq)

definition killed_proc :: "proc \<Rightarrow> proc" where
  "killed_proc q = q\<lparr>pkilled := True, pstate := (if pstate q = SLEEPING then RUNNABLE else pstate q)\<rparr>"

lemma kkill_eq:
  assumes "settled (mycpu s)" and "\<forall>p<NPROC. lk_free s (ProcLock p)"
  shows "kkill n s = (case find (\<lambda>p. pid (procs s p) = n) [0..<NPROC] of
     None \<Rightarrow> Done (- 1) s
   | Some p \<Rightarrow> Done 0 (s\<lparr>procs := (procs s)(p := killed_proc (procs s p))\<rparr>))"
  unfolding kkill_def Do_def
  using assms
  by (subst for_find_pure [where P = "\<lambda>p. pid (procs s p) = n" and v = "\<lambda>_. 0"
        and f = "\<lambda>p. s\<lparr>procs := (procs s)(p := killed_proc (procs s p))\<rparr>"])
    (auto simp: acquire_free lk_free_def [THEN iffD1] gets_def return_def upd_proc_eq release_procs
      release_enter leave_enter killed_proc_def fun_upd_same_value split: option.splits)

lemma yield_eq:
  assumes "quiet s"
  shows "yield s = Stop Swtch ((enter (ProcLock (me s)) s)
    \<lparr>procs := (procs s)(me s := (procs s (me s))\<lparr>pstate := RUNNABLE\<rparr>)\<rparr>)"
proof -
  have "sched (u :: 'a sched_scheme) = (Stop Swtch u :: (unit, _) res)"
    if "u = (enter (ProcLock (me s)) s)\<lparr>procs := (procs s)(me s := (procs s (me s))\<lparr>pstate := RUNNABLE\<rparr>)\<rparr>"
    for u using assms that by (intro sched_swtch) auto
  with assms show ?thesis
    by (simp add: yield_def Do_def quiet_cur quiet_acquire upd_proc_eq)
qed

lemma cpus_inv_settle:
  assumes "cpus_inv s"
  shows "noff (mycpu (s\<lparr>tp := h\<rparr>)) = 0" "settled (mycpu (settle (s\<lparr>tp := h\<rparr>)))"
    "lk_free (settle (s\<lparr>tp := h\<rparr>)) lk"
    "cproc (cpus s h) = Some p \<Longrightarrow> quiet (settle (s\<lparr>tp := h\<rparr>)) \<and> me (settle (s\<lparr>tp := h\<rparr>)) = p"
proof -
  show *: "noff (mycpu (s\<lparr>tp := h\<rparr>)) = 0"
    using assms by (simp add: cpus_inv_def mycpu_def)
  then show st: "settled (mycpu (settle (s\<lparr>tp := h\<rparr>)))" by (rule settled_settle)
  show free: "lk_free (settle (s\<lparr>tp := h\<rparr>)) lk" for lk
    using assms by (simp add: cpus_inv_def lk_free_def)
  assume "cproc (cpus s h) = Some p"
  with assms st free * show "quiet (settle (s\<lparr>tp := h\<rparr>)) \<and> me (settle (s\<lparr>tp := h\<rparr>)) = p"
    by (auto simp: quiet_def me_def mycpu_def cpus_inv_def)
qed

text \<open>Three ways a step changes who runs: not at all, a CPU takes a process on, a CPU lets go of
  its process.\<close>

lemma cpus_inv_same:
  assumes "cpus_inv s" and "\<And>lk. lk_free t lk" and "\<And>h. noff (cpus t h) = 0"
    and "\<And>h. cproc (cpus t h) = cproc (cpus s h)"
    and "\<And>p. (pstate (procs t p) = RUNNING) = (pstate (procs s p) = RUNNING)"
  shows "cpus_inv t"
  using assms by (simp add: cpus_inv_def)

lemma cpus_inv_dispatch:
  assumes "cpus_inv s" and "\<And>lk. lk_free t lk" and "\<And>h. noff (cpus t h) = 0"
    and "cproc (cpus s h) = None" and "p < NPROC" and "pstate (procs s p) = RUNNABLE"
    and "\<And>g. cproc (cpus t g) = (if g = h then Some p else cproc (cpus s g))"
    and "\<And>q. pstate (procs t q) = (if q = p then RUNNING else pstate (procs s q))"
  shows "cpus_inv t"
proof -
  have "cproc (cpus s g) \<noteq> Some p" for g
    using assms(1,6) by (force simp: cpus_inv_def)
  moreover have "\<exists>g. cproc (cpus t g) = Some q" if "q < NPROC" "pstate (procs t q) = RUNNING" for q
  proof (cases "q = p")
    case True
    then show ?thesis using assms(7) by auto
  next
    case False
    with that assms(1,8) obtain g where "cproc (cpus s g) = Some q" by (auto simp: cpus_inv_def)
    with assms(4) show ?thesis by (intro exI [of _ g]) (auto simp: assms(7))
  qed
  ultimately show ?thesis
    using assms unfolding cpus_inv_def by (simp del: not_Some_eq split: if_splits) blast
qed

lemma cpus_inv_off:
  assumes "cpus_inv s" and "\<And>lk. lk_free t lk" and "\<And>h. noff (cpus t h) = 0"
    and "cproc (cpus s h) = Some p" and "x \<noteq> RUNNING"
    and "\<And>g. cproc (cpus t g) = (if g = h then None else cproc (cpus s g))"
    and "\<And>q. pstate (procs t q) = (if q = p then x else pstate (procs s q))"
  shows "cpus_inv t"
proof -
  have "cproc (cpus s g) \<noteq> Some p" if "g \<noteq> h" for g
    using assms(1,4) that by (force simp: cpus_inv_def)
  moreover have "\<exists>g. cproc (cpus t g) = Some q" if "q < NPROC" "pstate (procs t q) = RUNNING" for q
  proof -
    from that assms(5,7) have "q \<noteq> p" "pstate (procs s q) = RUNNING" by (auto split: if_splits)
    with that assms(1) obtain g where "cproc (cpus s g) = Some q" by (auto simp: cpus_inv_def)
    with assms(4) \<open>q \<noteq> p\<close> show ?thesis by (intro exI [of _ g]) (auto simp: assms(6))
  qed
  ultimately show ?thesis
    using assms unfolding cpus_inv_def by (simp del: not_Some_eq split: if_splits) blast
qed

lemma kkill_settle:
  assumes "noff (mycpu s) = 0"
  shows "kkill n s = kkill n (settle s)"
proof -
  have "[0..<NPROC] = 0 # [1..<NPROC]" by (simp add: upt_conv_Cons NPROC_def)
  then show ?thesis
    unfolding kkill_def Do_def by (simp add: Do_def acquire_settle [OF assms])
qed

lemma sched_step_inv:
  assumes "sched_step s t" and "cpus_inv s"
  shows "cpus_inv t"
  using assms
proof (induction rule: sched_step.induct)
  case (run_new s h p u t)
  then show ?case
    by (intro cpus_inv_dispatch [of s t h p])
      (auto simp: cpus_inv_def lk_free_def [of "s\<lparr>tp := h\<rparr>"] lk_free_def [of s]
        dest!: scheduler_try_True release_Done_eq)
next
  case (run_yielded s h p u saved t)
  then show ?case
    by (intro cpus_inv_dispatch [of s t h p])
      (auto simp: cpus_inv_def lk_free_def [of "s\<lparr>tp := h\<rparr>"] lk_free_def [of s]
        dest!: scheduler_try_True yield_resume_Done)
next
  case (run_slept s h p u lk saved v t)
  then show ?case
    by (intro cpus_inv_dispatch [of s t h p])
      (auto simp: cpus_inv_def lk_free_def [of "s\<lparr>tp := h\<rparr>"] lk_free_def [of s]
        dest!: scheduler_try_True sleep_resume_Done release_Done_eq)
next
  case (skipped s h p t)
  then show ?case
    by (intro cpus_inv_same [of s t])
      (auto simp: cpus_inv_def lk_free_def [of "s\<lparr>tp := h\<rparr>"] lk_free_def [of s]
        dest!: scheduler_try_False)
next
  case (toggled s h t)
  then show ?case
    by (intro cpus_inv_same [of s t])
      (auto simp: cpus_inv_def intr_defs Do_def gets_def modify_def lk_free_def upd_mycpu_def)
next
  case (yielded s h p u t)
  note q = cpus_inv_settle [OF yielded.prems, of h]
  have "yield (s\<lparr>tp := h\<rparr>) = yield (settle (s\<lparr>tp := h\<rparr>))"
    by (simp add: yield_def cur_def Do_def myproc_settle [OF q(1)])
  with yielded q(4) [OF yielded.hyps(1)] show ?case
    by (intro cpus_inv_off [of s t h p RUNNABLE])
      (auto simp: yield_eq cpus_inv_def lk_free_def [of s] lk_free_def [of "s\<lparr>tp := h\<rparr>"]
        dest!: scheduler_back_Done)
next
  case (slept s h p lk ch u t)
  note q = cpus_inv_settle [OF slept.prems, of h]
  have "(Seq (acquire lk) (sleep ch lk) :: (sched, unit) kern) (s\<lparr>tp := h\<rparr>) =
      sleep ch lk (enter lk (settle (s\<lparr>tp := h\<rparr>)))"
    using q by (simp add: Do_def acquire_settle quiet_acquire acquire_free lk_free_def)
  with slept q(4) [OF slept.hyps(1)] show ?case
    by (intro cpus_inv_off [of s t h p SLEEPING])
      (auto simp: sleep_eq cpus_inv_def lk_free_def [of s] lk_free_def [of "s\<lparr>tp := h\<rparr>"]
        dest!: scheduler_back_Done)
next
  case (woke lk ch h s t)
  note q = cpus_inv_settle [OF woke.prems, of h]
  let ?s = "settle (s\<lparr>tp := h\<rparr>)"
  have "Seq (acquire lk) (Seq (wakeup ch) (release lk)) (s\<lparr>tp := h\<rparr>) =
      Seq (wakeup ch) (release lk) (enter lk ?s)"
    using q by (simp add: Do_def acquire_settle acquire_free lk_free_def)
  also have "\<dots> = release lk ((enter lk ?s)\<lparr>procs := woken ch (cproc (mycpu (enter lk ?s))) (procs ?s)\<rparr>)"
    using q by (simp add: Do_def wakeup_eq mycpu_enter settled_pushed woke.hyps(1) [symmetric])
  finally have "release lk ((enter lk ?s)\<lparr>procs :=
      woken ch (cproc (mycpu (enter lk ?s))) (procs ?s)\<rparr>) = Done () t"
    using woke.hyps(2) by simp
  then show ?case
    using woke.prems
    by (intro cpus_inv_same [of s t])
      (auto simp: woken_def cpus_inv_def lk_free_def [of s] lk_free_def [of "s\<lparr>tp := h\<rparr>"]
        dest!: release_Done_eq split: if_splits)
next
  case (killing n h s r t)
  note q = cpus_inv_settle [OF killing.prems, of h]
  have "kkill n (s\<lparr>tp := h\<rparr>) = kkill n (settle (s\<lparr>tp := h\<rparr>))"
    by (rule kkill_settle [OF q(1)])
  then have t: "kkill n (settle (s\<lparr>tp := h\<rparr>)) = Done r t" using killing.hyps by simp
  have "\<exists>f. t = (settle (s\<lparr>tp := h\<rparr>))\<lparr>procs := f\<rparr> \<and>
      (\<forall>p. (pstate (f p) = RUNNING) = (pstate (procs s p) = RUNNING))"
  proof (cases "find (\<lambda>p. pid (procs s p) = n) [0..<NPROC]")
    case None
    with t q show ?thesis by (intro exI [of _ "procs s"]) (auto simp: kkill_eq)
  next
    case (Some p)
    with t q show ?thesis
      by (intro exI [of _ "(procs s)(p := killed_proc (procs s p))"]) (auto simp: kkill_eq killed_proc_def)
  qed
  then show ?case
    using killing.prems q(3) by (elim exE conjE, intro cpus_inv_same [of s t]) (auto simp: cpus_inv_def)
qed


text \<open>C5: \<open>wakeup(chan)\<close> called without any process lock makes every process that sleeps on \<open>chan\<close>
  runnable, except the caller, and changes nothing else: it never panics, never loses a sleeper and
  leaves the CPU, the interrupt state and every lock as they were.\<close>

theorem wakeup_wakes_the_sleepers:
  assumes "settled (mycpu s)" and "\<forall>p<NPROC. lk_free s (ProcLock p)"
  shows "\<exists>ps. wakeup ch s = Done () (s\<lparr>procs := ps\<rparr>) \<and>
    (\<forall>p. ps p = (if p < NPROC \<and> cproc (mycpu s) \<noteq> Some p \<and> pstate (procs s p) = SLEEPING \<and>
                  pchan (procs s p) = Some ch
               then (procs s p)\<lparr>pstate := RUNNABLE\<rparr> else procs s p))"
  using assms by (intro exI [of _ "woken ch (cproc (mycpu s)) (procs s)"]) (simp add: wakeup_eq woken_def)

text \<open>C6: \<open>kkill(pid)\<close> marks the first process with that pid as killed and, if it sleeps, makes it
  runnable so that it notices; it returns 0. When no process has the pid it returns -1 and changes
  nothing. No other process is touched.\<close>

theorem kkill_outcomes:
  assumes "settled (mycpu s)" and "\<forall>p<NPROC. lk_free s (ProcLock p)"
  shows "(\<forall>p<NPROC. pid (procs s p) = n \<and> (\<forall>q<p. pid (procs s q) \<noteq> n) \<longrightarrow>
      kkill n s = Done 0 (s\<lparr>procs := (procs s)(p := (procs s p)\<lparr>pkilled := True,
        pstate := if pstate (procs s p) = SLEEPING then RUNNABLE else pstate (procs s p)\<rparr>)\<rparr>)) \<and>
    ((\<forall>p<NPROC. pid (procs s p) \<noteq> n) \<longrightarrow> kkill n s = Done (- 1) s)"
proof (intro conjI allI impI)
  fix p assume "p < NPROC" "pid (procs s p) = n \<and> (\<forall>q<p. pid (procs s q) \<noteq> n)"
  then have "find (\<lambda>p. pid (procs s p) = n) [0..<NPROC] = Some p"
    by (simp add: find_upt_Some)
  with assms show "kkill n s = Done 0 (s\<lparr>procs := (procs s)(p := (procs s p)\<lparr>pkilled := True,
      pstate := if pstate (procs s p) = SLEEPING then RUNNABLE else pstate (procs s p)\<rparr>)\<rparr>)"
    by (simp add: kkill_eq killed_proc_def)
next
  assume "\<forall>p<NPROC. pid (procs s p) \<noteq> n"
  then have "find (\<lambda>p. pid (procs s p) = n) [0..<NPROC] = None"
    by (simp add: find_upt_None)
  with assms show "kkill n s = Done (- 1) s" by (simp add: kkill_eq)
qed


lemma wakeup_spins:
  assumes "settled (mycpu s)" and "p < NPROC" and "cproc (mycpu s) \<noteq> Some p"
    and "\<forall>q<p. lk_free s (ProcLock q)"
    and "locked (locks s (ProcLock p))" and "lcpu (locks s (ProcLock p)) \<noteq> Some (tp s)"
  shows "\<exists>u. wakeup ch s = Stop (Spin (ProcLock p)) u"
proof -
  let ?t = "s\<lparr>procs := \<lambda>q. if q \<in> set [0..<p] then woken ch (cproc (mycpu s)) (procs s) q else procs s q\<rparr>"
  have "[0..<NPROC] = [0..<p] @ p # [Suc p..<NPROC]"
    using assms(2) upt_add_eq_append [of 0 p "NPROC - p"] by (simp add: upt_conv_Cons)
  moreover have "for_each [0..<p] (wakeup_one ch) s = Done () ?t"
    using assms by (intro wakeup_upto) auto
  moreover have "wakeup_one ch p ?t = Stop (Spin (ProcLock p)) (upd_mycpu pushed ?t)"
    using assms by (simp add: wakeup_one_def Do_def myproc_eq acquire_held_other)
  ultimately show ?thesis
    by (simp add: wakeup_def for_each_append Do_def)
qed

lemma slept_state:
  assumes "quiet s" and "\<And>p. lk \<noteq> ProcLock p"
    and t_def: "t = s\<lparr>cpus := (cpus s)(tp s := (mycpu s)\<lparr>cproc := None\<rparr>), procs := (procs s)(me s :=
    (procs s (me s))\<lparr>pchan := Some ch, pstate := SLEEPING\<rparr>)\<rparr>"
  shows "\<exists>u. sleep ch lk (enter lk s) = (Stop Swtch u :: ('b, _) res) \<and> scheduler_back (me s) u = Done () t"
proof -
  let ?pl = "ProcLock (me s)"
  let ?u = "(enter ?pl s)\<lparr>procs := (procs s)(me s := (procs s (me s))\<lparr>pchan := Some ch, pstate := SLEEPING\<rparr>)\<rparr>"
  let ?s0 = "s\<lparr>cpus := (cpus s)(tp s := (mycpu s)\<lparr>cproc := None\<rparr>)\<rparr>"
  have "release ?pl (upd_mycpu (\<lambda>c. c\<lparr>cproc := None\<rparr>) ?u) =
      Done () ((upd_mycpu (\<lambda>c. c\<lparr>cproc := None\<rparr>) ?u)\<lparr>cpus := cpus ?s0, locks := locks ?s0\<rparr>)"
    using assms(1)
    by (intro release_from)
      (auto simp: quiet_def lk_free_def enter_def upd_mycpu_def mycpu_def pushed_def settled_def ints_on_def)
  also have "\<dots> = Done () t"
    by (simp add: t_def enter_def upd_mycpu_def)
  finally show ?thesis
    using assms(1,2) by (simp add: sleep_eq scheduler_back_def Do_def modify_def)
qed


section \<open>Leaving and re-entering the CPU\<close>

definition hart_idle :: "'z mach_scheme \<Rightarrow> bool" where
  "hart_idle s \<longleftrightarrow> settled (mycpu s) \<and> noff (mycpu s) = 0 \<and> (\<forall>lk. lk_free s lk) \<and> cproc (mycpu s) = None"

definition set_cproc :: "nat option \<Rightarrow> 'z mach_scheme \<Rightarrow> 'z mach_scheme" where
  "set_cproc p = upd_mycpu (\<lambda>c. c\<lparr>cproc := p\<rparr>)"

lemma pushed_cproc: "pushed (c\<lparr>cproc := p\<rparr>) = (pushed c)\<lparr>cproc := p\<rparr>"
  by (rule cpu.equality) (simp_all add: pushed_def ints_on_def)

lemma scheduler_back_asleep:
  assumes "quiet s"
  shows "scheduler_back (me s) (asleep chn s) = Done () (set_cproc None
    (s\<lparr>procs := (procs s)(me s := (procs s (me s))\<lparr>pchan := Some chn, pstate := SLEEPING\<rparr>)\<rparr>))"
proof -
  let ?P = "(procs s)(me s := (procs s (me s))\<lparr>pchan := Some chn, pstate := SLEEPING\<rparr>)"
  let ?t = "set_cproc None (s\<lparr>procs := ?P\<rparr>)"
  have "upd_mycpu (\<lambda>c. c\<lparr>cproc := None\<rparr>) (asleep chn s) = enter (ProcLock (me s)) ?t"
    by (simp add: asleep_def set_cproc_def enter_def upd_mycpu_def pushed_cproc)
  moreover have "settled (mycpu ?t)" "lk_free ?t (ProcLock (me s))"
    using assms by (simp_all add: set_cproc_def upd_mycpu_def mycpu_def settled_def ints_on_def quiet_def lk_free_def)
  ultimately show ?thesis
    by (simp add: scheduler_back_def Do_modify release_enter leave_enter)
qed

lemma idle_asleep:
  "quiet s \<Longrightarrow> hart_idle (set_cproc None (s\<lparr>procs := P\<rparr>))"
  by (auto simp: hart_idle_def quiet_def set_cproc_def upd_mycpu_def mycpu_def settled_def ints_on_def lk_free_def)

text \<open>The scheduler picks a runnable process that slept in \<open>sleep\<close>: it comes back with its lock held,
  on a quiet machine on which it is the running process.\<close>

lemma scheduler_resumes:
  assumes "hart_idle s" and "pstate (procs s p) = RUNNABLE" and "p < NPROC" and "\<And>q. lk \<noteq> ProcLock q"
  obtains t where "Do (scheduler_try p) (\<lambda>ran. if ran then sleep_resume p saved lk else stop Hang) s = Done () (enter lk t)"
    and "quiet t" and "me t = p" and "t = s\<lparr>cpus := cpus t, procs := (procs s)(p := (procs s p)\<lparr>pstate := RUNNING, pchan := None\<rparr>)\<rparr>"
    and "tp t = tp s"
proof -
  let ?pl = "ProcLock p"
  have free: "\<And>l. lk_free s l" and st: "settled (mycpu s)" "noff (mycpu s) = 0"
    using assms(1) by (simp_all add: hart_idle_def)
  let ?c = "popped ((pushed (mycpu s))\<lparr>cproc := Some p, intena := saved\<rparr>)"
  let ?t = "s\<lparr>cpus := (cpus s)(tp s := ?c), procs := (procs s)(p := (procs s p)\<lparr>pstate := RUNNING, pchan := None\<rparr>)\<rparr>"
  have a: "acquire ?pl s = Done () (enter ?pl s)"
    using free [of ?pl] by (intro acquire_free) (simp add: lk_free_def)
  let ?u = "(upd_mycpu (\<lambda>c. c\<lparr>cproc := Some p\<rparr>) ((enter ?pl s)\<lparr>procs := (procs s)(p := (procs s p)\<lparr>pstate := RUNNING\<rparr>)\<rparr>))"
  have tr: "scheduler_try p s = Done True ?u"
    using a assms(2) by (simp add: scheduler_try_def Do_def gets_def modify_def return_def upd_proc_eq)
  let ?v = "(upd_mycpu (\<lambda>c. c\<lparr>intena := saved\<rparr>) ?u)\<lparr>procs := (procs ?u)(p := (procs ?u p)\<lparr>pchan := None\<rparr>)\<rparr>"
  have "release ?pl ?v = Done () (leave ?pl ?v)"
    using st by (intro release_mine)
      (simp_all add: lk_mine_def mycpu_def upd_mycpu_def enter_def ints_on_def pushed_def)
  moreover have "leave ?pl ?v = ?t"
    using free [of ?pl]
    by (simp add: leave_def enter_def upd_mycpu_def mycpu_def lk_free_def fun_upd_same_value spinlock.equality)
  moreover have "acquire lk ?t = Done () (enter lk ?t)"
    using free [of lk] by (intro acquire_free) (simp add: lk_free_def)
  ultimately have "Do (scheduler_try p) (\<lambda>ran. if ran then sleep_resume p saved lk else stop Hang) s = Done () (enter lk ?t)"
    using tr by (simp add: Do_def sleep_resume_def sched_resume_def modify_def upd_proc_eq)
  moreover have "quiet ?t"
    using free st assms(3) by (auto simp: quiet_def mycpu_def lk_free_def settled_def ints_on_def popped_def pushed_def)
  moreover have "me ?t = p" by (simp add: me_def mycpu_def)
  ultimately show ?thesis by (intro that [of ?t]) simp_all
qed

section \<open>A machine with two processes\<close>

text \<open>Process 0 runs on hart 0, process 1 sleeps on console input, the other slots are free.\<close>

definition proc0 :: proc where
  "proc0 = \<lparr>pstate = UNUSED, pchan = None, pkilled = False, xstate = 0, pid = 0, parent = None,
     kstack = 0, sz = 0, pagetable = 0, trapframe = 0,
     pcontext = \<lparr>ra = 0, sp = 0, callee_saved = (\<lambda>_. 0)\<rparr>, ofile = (\<lambda>_. None), cwd = None, pname = []\<rparr>"

definition procs0 :: "nat \<Rightarrow> proc" where
  "procs0 = (\<lambda>_. proc0)(0 := proc0\<lparr>pstate := RUNNING, pid := 1\<rparr>,
     1 := proc0\<lparr>pstate := SLEEPING, pchan := Some ConsChan, pid := 2\<rparr>)"

definition sched0 :: sched where
  "sched0 = mach.extend (mach0\<lparr>cpus := (\<lambda>_. cpu0)(0 := cpu0\<lparr>cproc := Some 0\<rparr>)\<rparr>)
     (sched.fields procs0 (Some 0) 3 (\<lambda>_. \<lparr>slocked = False, sname = [], spid = 0\<rparr>))"

lemmas sched0_defs = sched0_def sched.defs mach.defs procs0_def proc0_def mach0_def

lemma quiet_sched0: "quiet sched0"
  by (simp add: quiet_def mycpu_def lk_free_def sched0_defs settled_def ints_on_def NPROC_def)
    (simp add: cpu0_def)

lemma me_sched0: "me sched0 = 0"
  by (simp add: me_def mycpu_def sched0_defs)

lemma cpus_inv_sched0: "cpus_inv sched0"
  by (auto simp: cpus_inv_def lk_free_def sched0_defs NPROC_def)
    (auto simp: cpu0_def split: if_splits)

lemma yield_sched0: "\<exists>t. sched_step sched0 t \<and> pstate (procs t 0) = RUNNABLE"
proof -
  let ?u = "(enter (ProcLock 0) sched0)\<lparr>procs := procs0(0 := (procs0 0)\<lparr>pstate := RUNNABLE\<rparr>)\<rparr>"
  have "procs sched0 = procs0" by (simp add: sched0_def sched.defs mach.defs)
  then have "yield sched0 = Stop Swtch ?u"
    using yield_eq [OF quiet_sched0] by (simp add: me_sched0)
  moreover have "scheduler_back 0 ?u = Done () (leave (ProcLock 0) (upd_mycpu (\<lambda>c. c\<lparr>cproc := None\<rparr>) ?u))"
    unfolding scheduler_back_def Do_def modify_def
    by (simp, rule release_mine)
      (simp_all add: lk_mine_def mycpu_def enter_def upd_mycpu_def sched0_defs pushed_def ints_on_def cpu0_def)
  moreover have "cproc (cpus sched0 0) = Some 0" "sched0\<lparr>tp := 0\<rparr> = sched0"
    by (simp_all add: sched0_defs)
  ultimately have "sched_step sched0 (leave (ProcLock 0) (upd_mycpu (\<lambda>c. c\<lparr>cproc := None\<rparr>) ?u))"
    using sched_step.yielded [of sched0 0 0] by simp
  then show ?thesis by (intro exI conjI) auto
qed


theorem wakeup_wakes_the_sleepers_witness:
  "\<exists>ps. wakeup ConsChan sched0 = Done () (sched0\<lparr>procs := ps\<rparr>) \<and>
     pstate (ps 1) = RUNNABLE \<and> pstate (ps 0) = RUNNING"
  using wakeup_wakes_the_sleepers [of sched0 ConsChan] quiet_sched0
  by (auto simp: quiet_def) (auto simp: sched0_defs mycpu_def NPROC_def)

theorem kkill_outcomes_witness:
  "kkill 7 sched0 = Done (- 1) sched0 \<and>
   (\<exists>t. kkill 2 sched0 = Done 0 t \<and> pkilled (procs t 1) \<and> pstate (procs t 1) = RUNNABLE)"
proof -
  have q: "settled (mycpu sched0)" "\<forall>p<NPROC. lk_free sched0 (ProcLock p)"
    using quiet_sched0 by (auto simp: quiet_def)
  have p: "pid (procs sched0 p) = (if p = 0 then 1 else if p = 1 then 2 else 0)" for p
    by (simp add: sched0_defs)
  show ?thesis
    using kkill_outcomes [OF q, of 7] kkill_outcomes [OF q, of 2, THEN conjunct1, rule_format, of 1]
    by (simp add: p NPROC_def) (simp add: sched0_defs)
qed



end
