(* ===== verification/Bytes.thy ===== *)
theory Bytes
  imports Prelude
begin

text \<open>
  Bytes: the little-endian representation of machine words, in memory and on disk, and memory as a
  function from 64-bit addresses to bytes. A range of \<open>n\<close> bytes from address \<open>a\<close> is the set of
  addresses \<open>b\<close> with \<open>unat (b - a) < n\<close>, so wrap-around at the top of the address space needs
  no case of its own.
\<close>

section \<open>Little-endian words\<close>

definition le_byte :: "'a::len word \<Rightarrow> nat \<Rightarrow> byte" where
  "le_byte w i = ucast (drop_bit (8 * i) w)"

primrec of_le :: "nat \<Rightarrow> (nat \<Rightarrow> byte) \<Rightarrow> 'a::len word" where
  "of_le 0 f = 0"
| "of_le (Suc n) f = of_le n f OR push_bit (8 * n) (ucast (f n))"

lemma bit_le_byte: "bit (le_byte (w :: 'a::len word) i) k \<longleftrightarrow> k < 8 \<and> bit w (8 * i + k)"
  by (auto simp: le_byte_def bit_simps add.commute dest: bit_imp_le_length)

lemma bit_of_le:
  "bit (of_le n f :: 'a::len word) k \<longleftrightarrow> k < 8 * n \<and> k < LENGTH('a) \<and> bit (f (k div 8)) (k mod 8)"
proof (induction n)
  case 0
  then show ?case by simp
next
  case (Suc n)
  have "bit (f n) (k - 8 * n) = bit (f (k div 8)) (k mod 8)" if "8 * n \<le> k" "k < 8 * n + 8"
  proof -
    have "k div 8 = n" using that by auto
    moreover from this have "k mod 8 = k - 8 * n" by (simp add: modulo_nat_def)
    ultimately have "k div 8 = n" "k mod 8 = k - 8 * n" by simp_all
    then show ?thesis by simp
  qed
  moreover have "\<not> bit (f n) (k - 8 * n)" if "8 * n + 8 \<le> k"
    using that bit_imp_le_length [of "f n" "k - 8 * n"] by auto
  ultimately show ?case
    by (cases "k < 8 * n"; cases "k < 8 * n + 8")
      (auto simp: Suc bit_simps not_less dest: bit_imp_le_length)
qed

lemma of_le_le_byte: "LENGTH('a) \<le> 8 * n \<Longrightarrow> of_le n (le_byte w) = (w :: 'a::len word)"
  by (rule bit_word_eqI) (auto simp: bit_of_le bit_le_byte)

lemma le_byte_of_le:
  "i < n \<Longrightarrow> 8 * n \<le> LENGTH('a) \<Longrightarrow> le_byte (of_le n f :: 'a::len word) i = f i"
  by (rule bit_word_eqI) (auto simp: bit_of_le bit_le_byte)

lemma of_le_cong: "(\<And>i. i < n \<Longrightarrow> f i = g i) \<Longrightarrow> of_le n f = of_le n g"
  by (induction n) auto

definition word_bytes :: "nat \<Rightarrow> 'a::len word \<Rightarrow> byte list" where
  "word_bytes n w = map (le_byte w) [0..<n]"

definition bytes_word :: "byte list \<Rightarrow> 'a::len word" where
  "bytes_word bs = of_le (length bs) (\<lambda>i. bs ! i)"

lemma length_word_bytes [simp]: "length (word_bytes n w) = n"
  by (simp add: word_bytes_def)

lemma bytes_word_bytes: "LENGTH('a) \<le> 8 * n \<Longrightarrow> bytes_word (word_bytes n w) = (w :: 'a::len word)"
proof -
  assume "LENGTH('a) \<le> 8 * n"
  then have "of_le n (\<lambda>i. word_bytes n w ! i) = (of_le n (le_byte w) :: 'a word)"
    by (intro of_le_cong) (simp add: word_bytes_def)
  with \<open>LENGTH('a) \<le> 8 * n\<close> show ?thesis
    by (simp add: bytes_word_def of_le_le_byte)
qed

lemma word_bytes_word:
  "8 * length bs \<le> LENGTH('a) \<Longrightarrow> word_bytes (length bs) (bytes_word bs :: 'a::len word) = bs"
  by (auto simp: word_bytes_def bytes_word_def le_byte_of_le intro: nth_equalityI)

section \<open>Memory\<close>

type_synonym mem = "uint64 \<Rightarrow> byte"

definition in_range :: "uint64 \<Rightarrow> nat \<Rightarrow> uint64 \<Rightarrow> bool" where
  "in_range a n b \<longleftrightarrow> unat (b - a) < n"

definition rd64 :: "mem \<Rightarrow> uint64 \<Rightarrow> uint64" where
  "rd64 m a = of_le 8 (\<lambda>i. m (a + of_nat i))"

definition wr64 :: "uint64 \<Rightarrow> uint64 \<Rightarrow> mem \<Rightarrow> mem" where
  "wr64 a v m = (\<lambda>b. if in_range a 8 b then le_byte v (unat (b - a)) else m b)"

definition mem_fill :: "uint64 \<Rightarrow> byte list \<Rightarrow> mem \<Rightarrow> mem" where
  "mem_fill a bs m = (\<lambda>b. if in_range a (length bs) b then bs ! unat (b - a) else m b)"

definition mem_read :: "mem \<Rightarrow> uint64 \<Rightarrow> nat \<Rightarrow> byte list" where
  "mem_read m a n = map (\<lambda>i. m (a + of_nat i)) [0..<n]"

lemma unat64_less: "unat (a :: uint64) < 2 ^ 64"
  using unsigned_less [of a, where ?'a = nat] by simp

lemma unat_of_nat64: "n < 2 ^ 64 \<Longrightarrow> unat (of_nat n :: uint64) = n"
  by (simp add: unat_of_nat)

lemma offset_eq: "n < 2 ^ 64 \<Longrightarrow> b = a + of_nat n \<longleftrightarrow> unat (b - a :: uint64) = n"
  by (metis add.commute diff_add_cancel add_diff_cancel_right' of_nat_unat ucast_id unat_of_nat64)

lemma unat_minus_1_64: "unat (- 1 :: uint64) = 2 ^ 64 - 1"
  by (simp add: unsigned_minus_1_eq_mask mask_eq_exp_minus_1)

lemma in_range_offset: "n < 2 ^ 64 \<Longrightarrow> in_range a k (a + of_nat n) \<longleftrightarrow> n < k"
  by (simp add: in_range_def unat_of_nat64)

lemma rd64_wr64_same [simp]: "rd64 (wr64 a v m) a = v"
proof -
  have "rd64 (wr64 a v m) a = of_le 8 (le_byte v)"
    unfolding rd64_def by (intro of_le_cong) (simp add: wr64_def in_range_offset unat_of_nat64)
  then show ?thesis by (simp add: of_le_le_byte)
qed

lemma rd64_cong: "(\<And>b. in_range a 8 b \<Longrightarrow> m b = m' b) \<Longrightarrow> rd64 m a = rd64 m' a"
  unfolding rd64_def by (intro of_le_cong) (simp add: in_range_offset)

lemma length_mem_read [simp]: "length (mem_read m a n) = n"
  by (simp add: mem_read_def)

lemma mem_read_fill_same:
  "length bs \<le> 2 ^ 64 \<Longrightarrow> mem_read (mem_fill a bs m) a (length bs) = bs"
  by (auto simp: mem_read_def mem_fill_def in_range_offset unat_of_nat64 intro!: nth_equalityI)

lemma mem_read_cong:
  "n \<le> 2 ^ 64 \<Longrightarrow> (\<And>b. in_range a n b \<Longrightarrow> m b = m' b) \<Longrightarrow> mem_read m a n = mem_read m' a n"
  by (simp add: mem_read_def in_range_offset)

text \<open>Aligned blocks: two different multiples of a power of two are at least that far apart.\<close>

lemma aligned_in_range:
  fixes a b c :: uint64
  assumes "unat a mod k = 0" and "unat c mod k = 0" and "k dvd 2 ^ 64" and "0 < k"
    and "in_range a k b" and "in_range c k b"
  shows "a = c"
proof -
  have *: "unat x = k * (unat b div k)" 
    if al: "unat x mod k = 0" and rng: "in_range x k b" for x :: uint64
  proof -
    obtain q where q: "unat x = k * q" using al by (auto simp: mod_eq_0_iff_dvd)
    obtain r where r: "(2::nat) ^ 64 = k * r" using assms(3) unfolding dvd_def by blast
    let ?o = "unat (b - x)"
    have "unat x < 2 ^ 64" by (rule unat64_less)
    then have "k * q < k * r" using q r by simp
    then have "q < r" by simp
    then have "k * q + k \<le> k * r" by (metis Suc_leI mult_Suc_right add.commute mult_le_mono2)
    then have "unat x + ?o < 2 ^ 64" using rng q r unfolding in_range_def by linarith
    then have "unat b = unat x + ?o" using unat_add_small [of x "b - x"] by simp
    then show ?thesis using rng q assms(4) by (simp add: in_range_def)
  qed
  show ?thesis using * [OF assms(1,5)] * [OF assms(2,6)] by (simp add: word_unat_eq_iff)
qed

end
