(* ===== verification/Kstring.thy ===== *)
theory Kstring
  imports Bytes
begin

text \<open>
  The string functions of \<open>kernel/string.c\<close>, over memory, loop by loop. Counts are natural
  numbers (the source has \<open>uint\<close> or \<open>int\<close>; a count that is not positive copies nothing).
  The \<open>_l\<close> functions are the same algorithms on C strings kept as lists of non-zero bytes, which
  is how the file system theories hold names; the lemmas relate the two and give closed forms.
\<close>

section \<open>Memory blocks\<close>

definition memset :: "mem \<Rightarrow> uint64 \<Rightarrow> byte \<Rightarrow> nat \<Rightarrow> mem" where
  "memset m dst c n = fold (\<lambda>i m. m(dst + of_nat i := c)) [0..<n] m"

fun memcmp :: "mem \<Rightarrow> uint64 \<Rightarrow> uint64 \<Rightarrow> nat \<Rightarrow> int" where
  "memcmp m s1 s2 0 = 0"
| "memcmp m s1 s2 (Suc n) =
     (if m s1 \<noteq> m s2 then uint (m s1) - uint (m s2) else memcmp m (s1 + 1) (s2 + 1) n)"

fun copy_up :: "mem \<Rightarrow> uint64 \<Rightarrow> uint64 \<Rightarrow> nat \<Rightarrow> mem" where
  "copy_up m d s 0 = m"
| "copy_up m d s (Suc n) = copy_up (m(d := m s)) (d + 1) (s + 1) n"

fun copy_down :: "mem \<Rightarrow> uint64 \<Rightarrow> uint64 \<Rightarrow> nat \<Rightarrow> mem" where
  "copy_down m d s 0 = m"
| "copy_down m d s (Suc n) = copy_down (m(d - 1 := m (s - 1))) (d - 1) (s - 1) n"

definition memmove :: "mem \<Rightarrow> uint64 \<Rightarrow> uint64 \<Rightarrow> nat \<Rightarrow> mem" where
  "memmove m dst src n =
     (if n = 0 then m
      else if src < dst \<and> src + of_nat n > dst
      then copy_down m (dst + of_nat n) (src + of_nat n) n
      else copy_up m dst src n)"

definition memcpy :: "mem \<Rightarrow> uint64 \<Rightarrow> uint64 \<Rightarrow> nat \<Rightarrow> mem" where
  "memcpy m dst src n = memmove m dst src n"

section \<open>Strings\<close>

fun strncmp :: "mem \<Rightarrow> uint64 \<Rightarrow> uint64 \<Rightarrow> nat \<Rightarrow> int" where
  "strncmp m p q 0 = 0"
| "strncmp m p q (Suc n) =
     (if m p \<noteq> 0 \<and> m p = m q then strncmp m (p + 1) (q + 1) n else uint (m p) - uint (m q))"

fun strncpy_pad :: "mem \<Rightarrow> uint64 \<Rightarrow> nat \<Rightarrow> mem" where
  "strncpy_pad m s 0 = m"
| "strncpy_pad m s (Suc n) = strncpy_pad (m(s := 0)) (s + 1) n"

fun strncpy :: "mem \<Rightarrow> uint64 \<Rightarrow> uint64 \<Rightarrow> nat \<Rightarrow> mem" where
  "strncpy m s t 0 = m"
| "strncpy m s t (Suc n) =
     (if m t \<noteq> 0 then strncpy (m(s := m t)) (s + 1) (t + 1) n
      else strncpy_pad (m(s := m t)) (s + 1) n)"

text \<open>After copying a NUL the pointer \<open>s\<close> has moved past it, so the final store writes a second
  NUL behind it; the loop condition leaves room for that.\<close>

fun safestrcpy :: "mem \<Rightarrow> uint64 \<Rightarrow> uint64 \<Rightarrow> nat \<Rightarrow> mem" where
  "safestrcpy m s t 0 = m"
| "safestrcpy m s t (Suc 0) = m(s := 0)"
| "safestrcpy m s t (Suc (Suc n)) =
     (if m t \<noteq> 0 then safestrcpy (m(s := m t)) (s + 1) (t + 1) (Suc n)
      else (m(s := m t))(s + 1 := 0))"

text \<open>The loop of \<open>strlen\<close> ends only at a NUL; in memory without one it has no value.\<close>

partial_function (option) strlen_from :: "mem \<Rightarrow> uint64 \<Rightarrow> nat \<Rightarrow> nat option" where
  "strlen_from m s n = (if m (s + of_nat n) \<noteq> 0 then strlen_from m s (n + 1) else Some n)"

definition strlen :: "mem \<Rightarrow> uint64 \<Rightarrow> nat option" where
  "strlen m s = strlen_from m s 0"

section \<open>The same functions on lists\<close>

definition hd0 :: "byte list \<Rightarrow> byte" where
  "hd0 xs = (case xs of [] \<Rightarrow> 0 | x # _ \<Rightarrow> x)"

fun strncmp_l :: "byte list \<Rightarrow> byte list \<Rightarrow> nat \<Rightarrow> int" where
  "strncmp_l xs ys 0 = 0"
| "strncmp_l xs ys (Suc n) =
     (if hd0 xs \<noteq> 0 \<and> hd0 xs = hd0 ys then strncmp_l (tl xs) (tl ys) n
      else uint (hd0 xs) - uint (hd0 ys))"

fun strncpy_l :: "nat \<Rightarrow> byte list \<Rightarrow> byte list" where
  "strncpy_l 0 xs = []"
| "strncpy_l (Suc n) [] = 0 # strncpy_l n []"
| "strncpy_l (Suc n) (x # xs) = x # strncpy_l n xs"

fun safestrcpy_l :: "nat \<Rightarrow> byte list \<Rightarrow> byte list" where
  "safestrcpy_l 0 xs = []"
| "safestrcpy_l (Suc 0) xs = [0]"
| "safestrcpy_l (Suc (Suc n)) [] = [0, 0]"
| "safestrcpy_l (Suc (Suc n)) (x # xs) = x # safestrcpy_l (Suc n) xs"

text \<open>The C string \<open>xs\<close> stands at address \<open>p\<close>.\<close>

definition cstr_at :: "mem \<Rightarrow> uint64 \<Rightarrow> byte list \<Rightarrow> bool" where
  "cstr_at m p xs \<longleftrightarrow> 0 \<notin> set xs \<and> (\<forall>i<length xs. m (p + of_nat i) = xs ! i) \<and>
     m (p + of_nat (length xs)) = 0"

section \<open>memset and memmove\<close>

lemma memset_eq:
  "n \<le> 2 ^ 64 \<Longrightarrow> memset m dst c n = (\<lambda>b. if in_range dst n b then c else m b)"
proof (induction n)
  case 0
  then show ?case by (simp add: memset_def in_range_def)
next
  case (Suc n)
  have "b = dst + of_nat n \<longleftrightarrow> unat (b - dst) = n" for b
    using Suc.prems by (intro offset_eq) simp
  moreover have "memset m dst c (Suc n) = (memset m dst c n)(dst + of_nat n := c)"
    by (simp add: memset_def)
  ultimately show ?case
    using Suc by (auto simp: fun_eq_iff in_range_def less_Suc_eq)
qed

lemma copy_up_eq:
  assumes "\<And>i j. i < j \<Longrightarrow> j < n \<Longrightarrow> s + of_nat j \<noteq> d + of_nat i" and "n \<le> 2 ^ 64"
  shows "copy_up m d s n = (\<lambda>b. if in_range d n b then m (s + (b - d)) else m b)"
  using assms
proof (induction n arbitrary: m d s)
  case 0
  then show ?case by (simp add: in_range_def)
next
  case (Suc n)
  have fresh: "s + 1 + (b - (d + 1)) \<noteq> d" if "in_range (d + 1) n b" for b
  proof -
    have "s + of_nat (Suc (unat (b - (d + 1)))) \<noteq> d + of_nat 0"
      using that by (intro Suc.prems(1)) (simp_all add: in_range_def)
    then show ?thesis by (simp add: algebra_simps)
  qed
  have "copy_up m d s (Suc n) = copy_up (m(d := m s)) (d + 1) (s + 1) n" by simp
  also have "\<dots> = (\<lambda>b. if in_range (d + 1) n b then (m(d := m s)) (s + 1 + (b - (d + 1))) else (m(d := m s)) b)"
  proof (rule Suc.IH)
    fix i j :: nat assume "i < j" "j < n"
    then have "s + of_nat (Suc j) \<noteq> d + of_nat (Suc i)" by (intro Suc.prems(1)) auto
    then show "s + 1 + of_nat j \<noteq> d + 1 + of_nat i" by (simp add: algebra_simps)
  qed (use Suc.prems in simp)
  also have "\<dots> = (\<lambda>b. if in_range d (Suc n) b then m (s + (b - d)) else m b)"
  proof
    fix b
    have "in_range d (Suc n) b \<longleftrightarrow> b = d \<or> in_range (d + 1) n b"
    proof (cases "b = d")
      case False
      then have "unat (b - d) = Suc (unat (b - (d + 1)))"
        using unat_minus_one [of "b - d"] by (simp add: diff_diff_eq unat_gt_0)
      with False show ?thesis by (simp add: in_range_def)
    qed (simp add: in_range_def)
    moreover have "\<not> in_range (d + 1) n d" 
      using Suc.prems(2) by (simp add: in_range_def unat_minus_1_64)
    moreover have "s + 1 + (b - (d + 1)) = s + (b - d)" by simp
    ultimately show "(if in_range (d + 1) n b then (m(d := m s)) (s + 1 + (b - (d + 1))) else (m(d := m s)) b) =
        (if in_range d (Suc n) b then m (s + (b - d)) else m b)"
      using fresh [of b] by auto
  qed
  finally show ?case .
qed

lemma copy_down_eq:
  assumes "\<And>i j. i < j \<Longrightarrow> j < n \<Longrightarrow> s + of_nat i \<noteq> d + of_nat j" and "n \<le> 2 ^ 64"
  shows "copy_down m (d + of_nat n) (s + of_nat n) n =
    (\<lambda>b. if in_range d n b then m (s + (b - d)) else m b)"
  using assms
proof (induction n arbitrary: m)
  case 0
  then show ?case by (simp add: in_range_def)
next
  case (Suc n)
  let ?m = "m(d + of_nat n := m (s + of_nat n))"
  have e: "x + of_nat (Suc n) - 1 = x + of_nat n" for x :: uint64 by simp
  have "copy_down m (d + of_nat (Suc n)) (s + of_nat (Suc n)) (Suc n) =
      copy_down ?m (d + of_nat n) (s + of_nat n) n"
    unfolding copy_down.simps e by (rule refl)
  also have "\<dots> = (\<lambda>b. if in_range d n b then ?m (s + (b - d)) else ?m b)"
    using Suc.prems by (intro Suc.IH) simp_all
  also have "\<dots> = (\<lambda>b. if in_range d (Suc n) b then m (s + (b - d)) else m b)"
  proof
    fix b
    have "b = d + of_nat n \<longleftrightarrow> unat (b - d) = n"
      using Suc.prems(2) by (intro offset_eq) simp
    moreover have "s + (b - d) \<noteq> d + of_nat n" if "unat (b - d) < n"
      using Suc.prems(1) [of "unat (b - d)" n] that by simp
    ultimately show "(if in_range d n b then ?m (s + (b - d)) else ?m b) =
        (if in_range d (Suc n) b then m (s + (b - d)) else m b)"
      by (auto simp: in_range_def less_Suc_eq)
  qed
  finally show ?case .
qed

lemma unat_offset: "unat a + i < 2 ^ 64 \<Longrightarrow> unat (a + of_nat i :: uint64) = unat a + i"
  by (simp add: unat_word_ariths unat_of_nat)

lemma memmove_eq:
  assumes "unat src + n < 2 ^ 64" and "unat dst + n < 2 ^ 64"
  shows "memmove m dst src n = (\<lambda>b. if in_range dst n b then m (src + (b - dst)) else m b)"
proof -
  have s: "unat (src + of_nat i) = unat src + i" if "i \<le> n" for i
    using that assms by (intro unat_offset) simp
  have d: "unat (dst + of_nat i) = unat dst + i" if "i \<le> n" for i
    using that assms by (intro unat_offset) simp
  consider "n = 0" | "src < dst \<and> src + of_nat n > dst" "n \<noteq> 0"
    | "\<not> (src < dst \<and> src + of_nat n > dst)" "n \<noteq> 0" by blast
  then show ?thesis
  proof cases
    case 1
    then show ?thesis by (simp add: memmove_def in_range_def)
  next
    case 2
    have "src + of_nat i \<noteq> dst + of_nat j" if "i < j" "j < n" for i j
      using that 2 s [of i] d [of j] by (auto simp: word_less_nat_alt word_unat_eq_iff)
    with 2 assms show ?thesis by (simp add: memmove_def copy_down_eq)
  next
    case 3
    have "src + of_nat j \<noteq> dst + of_nat i" if "i < j" "j < n" for i j
      using that 3 s [of j] s [of n] d [of i] by (auto simp: word_less_nat_alt word_unat_eq_iff not_less)
    with 3 assms show ?thesis by (auto simp: memmove_def copy_up_eq)
  qed
qed

text \<open>C11: \<open>memmove\<close> copies the source range as it was before the call, also when the two ranges
  overlap, and touches nothing outside the destination; it reads and writes within the ranges as
  long as neither wraps around the end of the address space.\<close>

theorem memmove_copies:
  assumes "unat src + n < 2 ^ 64" and "unat dst + n < 2 ^ 64"
  shows "mem_read (memmove m dst src n) dst n = mem_read m src n \<and>
    (\<forall>b. \<not> in_range dst n b \<longrightarrow> memmove m dst src n b = m b)"
  using assms by (auto simp: memmove_eq mem_read_def in_range_offset)

theorem memmove_copies_witness:
  "mem_read (memmove (\<lambda>a. ucast a) 12 10 5) 12 5 = [10, 11, 12, 13, 14]"
  using memmove_copies [of 10 5 12 "\<lambda>a. ucast a"] by (simp add: mem_read_def upt_rec)

section \<open>String functions against lists\<close>

lemma cstr_Nil: "cstr_at m p [] \<longleftrightarrow> m p = 0"
  by (simp add: cstr_at_def)

lemma cstr_Cons: "cstr_at m p (x # xs) \<longleftrightarrow> x \<noteq> 0 \<and> m p = x \<and> cstr_at m (p + 1) xs"
  by (auto simp: cstr_at_def nth_Cons' All_less_Suc2 add.assoc)

lemma cstr_hd: "cstr_at m p xs \<Longrightarrow> m p = hd0 xs"
  by (cases xs) (auto simp: cstr_Nil cstr_Cons hd0_def)

lemma cstr_tl: "cstr_at m p xs \<Longrightarrow> m p \<noteq> 0 \<Longrightarrow> cstr_at m (p + 1) (tl xs)"
  by (cases xs) (auto simp: cstr_Nil cstr_Cons)

lemma strncmp_cstr:
  "cstr_at m p xs \<Longrightarrow> cstr_at m q ys \<Longrightarrow> strncmp m p q n = strncmp_l xs ys n"
proof (induction n arbitrary: p q xs ys)
  case 0
  then show ?case by simp
next
  case (Suc n)
  from Suc.prems have "m p = hd0 xs" "m q = hd0 ys" by (auto intro: cstr_hd)
  moreover have "strncmp m (p + 1) (q + 1) n = strncmp_l (tl xs) (tl ys) n"
    if "m p \<noteq> 0" "m p = m q"
    using that Suc.prems by (intro Suc.IH cstr_tl) auto
  ultimately show ?case by simp
qed

lemma strncmp_l_zero:
  "0 \<notin> set xs \<Longrightarrow> 0 \<notin> set ys \<Longrightarrow> strncmp_l xs ys n = 0 \<longleftrightarrow> take n xs = take n ys"
proof (induction n arbitrary: xs ys)
  case 0
  then show ?case by simp
next
  case (Suc n)
  then show ?case
    by (cases xs; cases ys) (auto simp: hd0_def word_uint_eq_iff [symmetric] uint_0_iff)
qed

lemma strlen_from_cstr:
  "cstr_at m p xs \<Longrightarrow> n \<le> length xs \<Longrightarrow> strlen_from m p n = Some (length xs)"
proof (induction "length xs - n" arbitrary: n)
  case 0
  then show ?case by (subst strlen_from.simps) (auto simp: cstr_at_def)
next
  case (Suc k)
  then have n: "n < length xs" by simp
  then have "m (p + of_nat n) \<noteq> 0"
    using Suc.prems(1) by (auto simp: cstr_at_def) (metis nth_mem)
  moreover have "strlen_from m p (n + 1) = Some (length xs)"
    using Suc n by (intro Suc.hyps(1)) auto
  ultimately show ?case by (subst strlen_from.simps) simp
qed

lemma strncpy_l_eq: "strncpy_l n xs = take n xs @ replicate (n - length xs) 0"
  by (induction n xs rule: strncpy_l.induct) auto

lemma length_strncpy_l [simp]: "length (strncpy_l n xs) = n"
  by (simp add: strncpy_l_eq)

text \<open>The destination \<open>s\<close> of \<open>n\<close> bytes lies outside the source string and its NUL.\<close>

definition apart :: "uint64 \<Rightarrow> nat \<Rightarrow> uint64 \<Rightarrow> byte list \<Rightarrow> bool" where
  "apart s n t xs \<longleftrightarrow> (\<forall>i<n. \<forall>j\<le>length xs. s + of_nat i \<noteq> t + of_nat j)"

lemma apart_far:
  assumes "unat t + length xs < unat s" and "unat s + n < 2 ^ 64"
  shows "apart s n t xs"
proof -
  have "unat (s + of_nat i) = unat s + i" if "i < n" for i
    using that assms by (intro unat_offset) simp
  moreover have "unat (t + of_nat j) = unat t + j" if "j \<le> length xs" for j
    using that assms by (intro unat_offset) simp
  ultimately have "unat (s + of_nat i) \<noteq> unat (t + of_nat j)" if "i < n" "j \<le> length xs" for i j
    using that assms(1) by simp
  then show ?thesis unfolding apart_def by metis
qed

lemma apart_step: "apart s (Suc n) t (x # xs) \<Longrightarrow> apart (s + 1) n (t + 1) xs"
  unfolding apart_def by (force simp: algebra_simps dest: spec [of _ "Suc i" for i])

lemma apart_cstr:
  assumes "apart s (Suc n) t xs" and "cstr_at m t xs"
  shows "cstr_at (m(s := v)) t xs"
proof -
  have "t + of_nat j \<noteq> s" if "j \<le> length xs" for j
    using assms(1) [unfolded apart_def, rule_format, of 0 j] that by auto
  with assms(2) show ?thesis by (auto simp: cstr_at_def)
qed

lemma mem_fill_Nil [simp]: "mem_fill s [] m = m"
  by (simp add: mem_fill_def in_range_def)

lemma mem_fill_Cons:
  assumes "length l < 2 ^ 64"
  shows "mem_fill s (x # l) m = mem_fill (s + 1) l (m(s := x))"
proof
  fix b
  show "mem_fill s (x # l) m b = mem_fill (s + 1) l (m(s := x)) b"
  proof (cases "b = s")
    case True
    have "\<not> in_range (s + 1) (length l) s"
      using assms by (simp add: in_range_def unat_minus_1_64)
    with True show ?thesis by (simp add: mem_fill_def in_range_def)
  next
    case False
    then have "unat (b - s) = Suc (unat (b - (s + 1)))"
      using unat_minus_one [of "b - s"] by (simp add: diff_diff_eq unat_gt_0)
    with False show ?thesis by (simp add: mem_fill_def in_range_def)
  qed
qed

lemma strncpy_pad_eq: "n < 2 ^ 64 \<Longrightarrow> strncpy_pad m s n = mem_fill s (replicate n 0) m"
  by (induction n arbitrary: m s) (simp_all add: mem_fill_Cons)

lemma strncpy_eq:
  "cstr_at m t xs \<Longrightarrow> apart s n t xs \<Longrightarrow> n < 2 ^ 64 \<Longrightarrow> strncpy m s t n = mem_fill s (strncpy_l n xs) m"
proof (induction n xs arbitrary: m s t rule: strncpy_l.induct)
  case (1 xs)
  then show ?case by simp
next
  case (2 n)
  then have "m t = 0" by (simp add: cstr_Nil)
  with 2 show ?case by (simp add: mem_fill_Cons strncpy_pad_eq strncpy_l_eq)
next
  case (3 n x xs)
  then have "m t = x" "x \<noteq> 0" by (auto simp: cstr_Cons)
  moreover have "cstr_at (m(s := x)) (t + 1) xs"
    using apart_cstr [OF 3(3,2), of x] by (simp add: cstr_Cons)
  moreover have "apart (s + 1) n (t + 1) xs" using 3(3) by (rule apart_step)
  ultimately show ?case using 3 by (simp add: mem_fill_Cons)
qed

lemma safestrcpy_eq:
  "cstr_at m t xs \<Longrightarrow> apart s n t xs \<Longrightarrow> n < 2 ^ 64 \<Longrightarrow>
   safestrcpy m s t n = mem_fill s (safestrcpy_l n xs) m"
proof (induction n xs arbitrary: m s t rule: safestrcpy_l.induct)
  case (1 xs)
  then show ?case by simp
next
  case (2 xs)
  then show ?case by (simp add: mem_fill_Cons)
next
  case (3 n)
  then have "m t = 0" by (simp add: cstr_Nil)
  with 3 show ?case by (simp add: mem_fill_Cons)
next
  case (4 n x xs)
  then have "m t = x" "x \<noteq> 0" by (auto simp: cstr_Cons)
  moreover have "cstr_at (m(s := x)) (t + 1) xs"
    using apart_cstr [OF 4(3,2), of x] by (simp add: cstr_Cons)
  moreover have "apart (s + 1) (Suc n) (t + 1) xs" using 4(3) by (rule apart_step)
  moreover have "length (safestrcpy_l (Suc n) xs) < 2 ^ 64"
  proof -
    have "length (safestrcpy_l k ys) \<le> k" for k ys
      by (induction k ys rule: safestrcpy_l.induct) auto
    with 4(4) show ?thesis by (meson Suc_lessD order_le_less_trans)
  qed
  ultimately show ?case using 4 by (simp add: mem_fill_Cons)
qed

lemma safestrcpy_l_eq:
  "0 < n \<Longrightarrow> safestrcpy_l n xs = take (n - 1) xs @ (if length xs + 1 < n then [0, 0] else [0])"
  by (induction n xs rule: safestrcpy_l.induct) auto

text \<open>C12: the string routines on NUL-terminated strings. \<open>strlen\<close> ends and returns the length;
  \<open>strncmp\<close> returns 0 exactly when the first \<open>n\<close> characters agree; \<open>strncpy\<close> into a buffer of
  \<open>n\<close> bytes stores the truncated string padded with NULs, so no NUL at all when the string has
  \<open>n\<close> characters or more; \<open>safestrcpy\<close> always terminates it. Neither writes outside the buffer.\<close>

theorem string_routines:
  assumes "cstr_at m t xs" and "cstr_at m q ys" and "apart s n t xs" and "0 < n" and "n < 2 ^ 64"
  shows "strlen m t = Some (length xs) \<and>
    (strncmp m t q n = 0 \<longleftrightarrow> take n xs = take n ys) \<and>
    mem_read (strncpy m s t n) s n = take n xs @ replicate (n - length xs) 0 \<and>
    cstr_at (safestrcpy m s t n) s (take (n - 1) xs) \<and>
    (\<forall>b. \<not> in_range s n b \<longrightarrow> strncpy m s t n b = m b \<and> safestrcpy m s t n b = m b)"
proof (intro conjI)
  have z: "0 \<notin> set xs" "0 \<notin> set ys" using assms by (auto simp: cstr_at_def)
  show "strlen m t = Some (length xs)"
    using assms(1) by (simp add: strlen_def strlen_from_cstr)
  show "strncmp m t q n = 0 \<longleftrightarrow> take n xs = take n ys"
    using assms z by (simp add: strncmp_cstr strncmp_l_zero)
  show "mem_read (strncpy m s t n) s n = take n xs @ replicate (n - length xs) 0"
    using assms mem_read_fill_same [of "strncpy_l n xs" s m]
    by (simp only: strncpy_eq length_strncpy_l strncpy_l_eq [symmetric] less_imp_le)
  have "safestrcpy m s t n = mem_fill s (safestrcpy_l n xs) m"
    using assms by (intro safestrcpy_eq)
  then show "cstr_at (safestrcpy m s t n) s (take (n - 1) xs)"
    using assms(4,5) z
    by (auto simp: safestrcpy_l_eq cstr_at_def mem_fill_def in_range_offset unat_of_nat64 nth_append
        dest: in_set_takeD)
  show "\<forall>b. \<not> in_range s n b \<longrightarrow> strncpy m s t n b = m b \<and> safestrcpy m s t n b = m b"
    using assms by (auto simp: strncpy_eq safestrcpy_eq mem_fill_def in_range_def safestrcpy_l_eq)
qed

text \<open>The string \<open>init\<close> at address 0 and \<open>initcode\<close> at address 16.\<close>

definition mem_names :: mem where
  "mem_names = mem_fill 16 [105, 110, 105, 116, 99, 111, 100, 101, 0] (mem_fill 0 [105, 110, 105, 116, 0] (\<lambda>_. 7))"

theorem string_routines_witness:
  "strlen mem_names 16 = Some 8 \<and> strncmp mem_names 16 0 4 = 0 \<and>
   mem_read (strncpy mem_names 64 16 4) 64 4 = [105, 110, 105, 116] \<and>
   cstr_at (safestrcpy mem_names 64 16 4) 64 [105, 110, 105]"
proof -
  have "cstr_at mem_names 0 [105, 110, 105, 116]"
    and "cstr_at mem_names 16 [105, 110, 105, 116, 99, 111, 100, 101]"
    by (simp_all add: cstr_Cons cstr_Nil mem_names_def mem_fill_def in_range_def)
  moreover have "apart 64 4 16 [105, 110, 105, 116, 99, 111, 100, 101]"
    by (rule apart_far) simp_all
  ultimately show ?thesis
    using string_routines [of mem_names 16 "[105, 110, 105, 116, 99, 111, 100, 101]" 0 "[105, 110, 105, 116]" 64 4]
    by simp
qed

end
