(* ===== verification/Kalloc.thy ===== *)
theory Kalloc
  imports Sched Kstring
begin

text \<open>
  The physical page allocator, \<open>kernel/kalloc.c\<close>. The state gains byte-addressed memory and the
  head of the free list, which is threaded through the first eight bytes of the free pages
  themselves. \<open>kend\<close> is the linker's symbol \<open>end\<close>, the first address after the kernel image; it
  is part of the state so that every operation can read it, and no operation changes it. The
  theory ends with the contract that the clients of the allocator rely on, as a locale, and its
  interpretation on \<open>kalloc\<close> and \<open>kfree\<close>.
\<close>

section \<open>Memory layout\<close>

definition PGSIZE :: nat where "PGSIZE = 4096"
definition PGSHIFT :: nat where "PGSHIFT = 12"
definition KERNBASE :: uint64 where "KERNBASE = 0x80000000"
definition PHYSTOP :: uint64 where "PHYSTOP = KERNBASE + 128 * 1024 * 1024"

definition PGROUNDUP :: "uint64 \<Rightarrow> uint64" where
  "PGROUNDUP a = (a + of_nat PGSIZE - 1) AND NOT (of_nat PGSIZE - 1)"

definition PGROUNDDOWN :: "uint64 \<Rightarrow> uint64" where
  "PGROUNDDOWN a = a AND NOT (of_nat PGSIZE - 1)"

section \<open>State and operations\<close>

record kmem = sched +
  mem :: mem
  freelist :: uint64
  kend :: uint64

definition upd_mem :: "(mem \<Rightarrow> mem) \<Rightarrow> ('z kmem_scheme, unit) kern" where
  "upd_mem f = modify (\<lambda>s. s\<lparr>mem := f (mem s)\<rparr>)"

definition kfree :: "uint64 \<Rightarrow> ('z kmem_scheme, unit) kern" where
  "kfree pa =
     Do (gets kend) (\<lambda>e.
     if unat pa mod PGSIZE \<noteq> 0 \<or> pa < e \<or> pa \<ge> PHYSTOP then panic ''kfree'' else
     Seq (upd_mem (\<lambda>m. memset m pa 1 PGSIZE)) (
     Seq (acquire KmemLock) (
     Seq (modify (\<lambda>s. s\<lparr>mem := wr64 pa (freelist s) (mem s)\<rparr>)) (
     Seq (modify (\<lambda>s. s\<lparr>freelist := pa\<rparr>))
     (release KmemLock)))))"

definition kalloc :: "('z kmem_scheme, uint64) kern" where
  "kalloc =
     Seq (acquire KmemLock) (
     Do (gets freelist) (\<lambda>r.
     Seq (kwhen (r \<noteq> 0) (modify (\<lambda>s. s\<lparr>freelist := rd64 (mem s) r\<rparr>))) (
     Seq (release KmemLock) (
     Seq (kwhen (r \<noteq> 0) (upd_mem (\<lambda>m. memset m r 5 PGSIZE))) (
     return r)))))"

text \<open>The loop of \<open>freerange\<close> runs while a whole page still fits below \<open>pa_end\<close>; pointers do
  not wrap around, so the comparison is one of numbers.\<close>

function freerange_loop :: "uint64 \<Rightarrow> uint64 \<Rightarrow> ('z kmem_scheme, unit) kern" where
  "freerange_loop p pa_end =
     (if unat p + PGSIZE \<le> unat pa_end
      then Seq (kfree p) (freerange_loop (p + of_nat PGSIZE) pa_end)
      else skip)"
  by auto

lemma PGSIZE_pos [simp]: "0 < PGSIZE"
  by (simp add: PGSIZE_def)

lemma page_multiple: "n mod PGSIZE = 0 \<Longrightarrow> \<exists>k. n = PGSIZE * k"
  by (auto simp: mod_eq_0_iff_dvd dvd_def)

lemma unat_next_page: "unat p + PGSIZE \<le> unat (e :: uint64) \<Longrightarrow> unat (p + of_nat PGSIZE :: uint64) = unat p + PGSIZE"
  by (rule unat_offset) (rule le_less_trans [OF _ unat64_less])

lemma next_page_measure:
  assumes "unat p + PGSIZE \<le> unat (e :: uint64)"
  shows "unat e - unat (p + of_nat PGSIZE :: uint64) < unat e - unat p"
proof -
  have "unat (p + of_nat PGSIZE) = unat p + PGSIZE" using assms by (rule unat_next_page)
  moreover have "0 < PGSIZE" by simp
  ultimately show ?thesis using assms by linarith
qed

termination freerange_loop
  by (relation "measure (\<lambda>(p, e). unat e - unat p)") (simp_all add: next_page_measure)

declare freerange_loop.simps [simp del]

definition freerange :: "uint64 \<Rightarrow> uint64 \<Rightarrow> ('z kmem_scheme, unit) kern" where
  "freerange pa_start pa_end = freerange_loop (PGROUNDUP pa_start) pa_end"

definition kinit :: "('z kmem_scheme, unit) kern" where
  "kinit =
     Seq (initlock KmemLock ''kmem'') (
     Do (gets kend) (\<lambda>e. freerange e PHYSTOP))"

section \<open>The free list\<close>

text \<open>\<open>free_path m p xs\<close>: following \<open>next\<close> pointers from \<open>p\<close> visits the pages \<open>xs\<close> and ends at
  null.\<close>

fun free_path :: "mem \<Rightarrow> uint64 \<Rightarrow> uint64 list \<Rightarrow> bool" where
  "free_path m p [] \<longleftrightarrow> p = 0"
| "free_path m p (x # xs) \<longleftrightarrow> p = x \<and> x \<noteq> 0 \<and> free_path m (rd64 m x) xs"

definition page_ok :: "uint64 \<Rightarrow> uint64 \<Rightarrow> bool" where
  "page_ok e pa \<longleftrightarrow> unat pa mod PGSIZE = 0 \<and> e \<le> pa \<and> pa < PHYSTOP"

text \<open>The abstract state of the allocator is the list of its free pages, all distinct and all
  inside the memory it manages.\<close>

definition free_pages :: "'z kmem_scheme \<Rightarrow> uint64 list \<Rightarrow> bool" where
  "free_pages s xs \<longleftrightarrow> free_path (mem s) (freelist s) xs \<and> distinct xs \<and>
     (\<forall>pa\<in>set xs. page_ok (kend s) pa) \<and> 0 < kend s"

definition kmem_ready :: "'z kmem_scheme \<Rightarrow> bool" where
  "kmem_ready s \<longleftrightarrow> settled (mycpu s) \<and> lk_free s KmemLock"

lemma page_ok_nonzero: "page_ok e pa \<Longrightarrow> 0 < e \<Longrightarrow> pa \<noteq> 0"
  by (auto simp: page_ok_def)

lemma pages_apart:
  "unat a mod PGSIZE = 0 \<Longrightarrow> unat c mod PGSIZE = 0 \<Longrightarrow> in_range a PGSIZE b \<Longrightarrow> in_range c PGSIZE b \<Longrightarrow> a = c"
  using aligned_in_range [of a PGSIZE c b] by (simp add: PGSIZE_def dvd_def)

lemma free_path_cong:
  assumes "\<And>x b. x \<in> set xs \<Longrightarrow> in_range x 8 b \<Longrightarrow> m b = m' b"
  shows "free_path m p xs \<longleftrightarrow> free_path m' p xs"
  using assms
proof (induction xs arbitrary: p)
  case Nil
  then show ?case by simp
next
  case (Cons x xs)
  have "rd64 m x = rd64 m' x" using Cons.prems [of x] by (intro rd64_cong) simp
  moreover have "free_path m q xs \<longleftrightarrow> free_path m' q xs" for q
    using Cons.prems by (intro Cons.IH) (meson list.set_intros(2))
  ultimately show ?case by simp
qed

lemma free_path_unique: "free_path m p xs \<Longrightarrow> free_path m p ys \<Longrightarrow> xs = ys"
proof (induction xs arbitrary: p ys)
  case Nil
  then show ?case by (cases ys) auto
next
  case (Cons x xs)
  then show ?case by (cases ys) auto
qed

text \<open>Changing one page that is not on the list leaves the list alone.\<close>

lemma free_path_other_page:
  assumes "unat pa mod PGSIZE = 0" and "\<forall>x\<in>set xs. unat x mod PGSIZE = 0" and "pa \<notin> set xs"
    and "\<And>b. \<not> in_range pa PGSIZE b \<Longrightarrow> m' b = m b"
  shows "free_path m' p xs \<longleftrightarrow> free_path m p xs"
proof (rule free_path_cong)
  fix x b assume x: "x \<in> set xs" "in_range x 8 b"
  have "in_range x PGSIZE b" using x(2) by (simp add: in_range_def PGSIZE_def)
  with x assms pages_apart [of pa x b] have "\<not> in_range pa PGSIZE b" by metis
  then show "m' b = m b" by (rule assms(4))
qed

lemma kmem_release:
  assumes "kmem_ready s" and "tp u = tp s" and "cpus u = cpus (enter KmemLock s)"
    and "locks u = locks (enter KmemLock s)"
  shows "release KmemLock u = Done () (u\<lparr>cpus := cpus s, locks := locks s\<rparr>)"
  using assms by (intro release_from) (auto simp: kmem_ready_def)

lemma kmem_acquire: "kmem_ready s \<Longrightarrow> acquire KmemLock s = Done () (enter KmemLock s)"
  by (simp add: kmem_ready_def acquire_free lk_free_def)

lemma enter_mem [simp]: "mem (enter lk s) = mem s" "freelist (enter lk s) = freelist s" "kend (enter lk s) = kend s"
  by (simp_all add: enter_def upd_mycpu_def)

lemma kmem_ready_updates [simp]:
  "kmem_ready (s\<lparr>mem := x\<rparr>) = kmem_ready s" "kmem_ready (s\<lparr>freelist := y\<rparr>) = kmem_ready s"
  "kmem_ready (s\<lparr>procs := z\<rparr>) = kmem_ready s"
  by (simp_all add: kmem_ready_def mycpu_def lk_free_def)

lemma kfree_eq:
  assumes "kmem_ready s" and "page_ok (kend s) pa"
  shows "kfree pa s = Done () (s\<lparr>mem := wr64 pa (freelist s) (memset (mem s) pa 1 PGSIZE), freelist := pa\<rparr>)"
proof -
  have "unat pa mod PGSIZE = 0" "\<not> pa < kend s" "\<not> PHYSTOP \<le> pa"
    using assms(2) by (auto simp: page_ok_def)
  with assms(1) show ?thesis
    by (simp add: kfree_def Do_def gets_def upd_mem_def modify_def kmem_acquire
        kmem_release [of "s\<lparr>mem := memset (mem s) pa 1 PGSIZE\<rparr>"])
      (simp add: enter_def upd_mycpu_def)
qed

lemma kfree_panics: "\<not> page_ok (kend s) pa \<Longrightarrow> kfree pa s = Stop (Panic ''kfree'') s"
  by (auto simp: kfree_def Do_def gets_def page_ok_def stop_def not_less not_le)

lemma kalloc_eq:
  assumes "kmem_ready s"
  shows "kalloc s = (let r = freelist s in
    if r = 0 then Done 0 s
    else Done r (s\<lparr>mem := memset (mem s) r 5 PGSIZE, freelist := rd64 (mem s) r\<rparr>))"
  using assms
  by (simp add: kalloc_def Do_def gets_def kmem_acquire upd_mem_def modify_def return_def Let_def
      kmem_release [of s])
    (simp add: enter_def upd_mycpu_def)

lemma memset_page [simp]: "memset m pa c PGSIZE = (\<lambda>b. if in_range pa PGSIZE b then c else m b)"
  by (rule memset_eq) (simp add: PGSIZE_def)

lemma in_page: "in_range pa 8 b \<Longrightarrow> in_range pa PGSIZE b"
  by (simp add: in_range_def PGSIZE_def)

lemma kfree_free_pages:
  assumes "kmem_ready s" and "free_pages s xs" and "page_ok (kend s) pa" and "pa \<notin> set xs"
  shows "\<exists>t. kfree pa s = Done () t \<and> kmem_ready t \<and> free_pages t (pa # xs) \<and>
    (\<exists>m l. t = s\<lparr>mem := m, freelist := l\<rparr>) \<and> (\<forall>b. \<not> in_range pa PGSIZE b \<longrightarrow> mem t b = mem s b)"
proof -
  let ?m = "wr64 pa (freelist s) (memset (mem s) pa 1 PGSIZE)"
  have other: "?m b = mem s b" if "\<not> in_range pa PGSIZE b" for b
    using that in_page [of pa b] by (auto simp: wr64_def)
  then have "free_path ?m (freelist s) xs"
    using assms by (subst free_path_other_page [of pa]) (auto simp: free_pages_def page_ok_def)
  then have "free_pages (s\<lparr>mem := ?m, freelist := pa\<rparr>) (pa # xs)"
    using assms page_ok_nonzero by (auto simp: free_pages_def simp del: memset_page)
  with assms kfree_eq [OF assms(1,3)] other show ?thesis by (auto simp del: memset_page)
qed

lemma kalloc_free_pages:
  assumes "kmem_ready s" and "free_pages s (x # xs)"
  shows "\<exists>t. kalloc s = Done x t \<and> kmem_ready t \<and> free_pages t xs \<and> page_ok (kend s) x \<and> x \<noteq> 0 \<and> x \<notin> set xs \<and>
    (\<exists>m l. t = s\<lparr>mem := m, freelist := l\<rparr>) \<and>
    (\<forall>b. mem t b = (if in_range x PGSIZE b then 5 else mem s b))"
proof -
  have x: "freelist s = x" "x \<noteq> 0" "page_ok (kend s) x" "x \<notin> set xs" "free_path (mem s) (rd64 (mem s) x) xs"
    using assms(2) by (auto simp: free_pages_def)
  have "free_path (memset (mem s) x 5 PGSIZE) (rd64 (mem s) x) xs"
    using assms(2) x by (subst free_path_other_page [of x]) (auto simp: free_pages_def page_ok_def)
  then have "free_pages (s\<lparr>mem := memset (mem s) x 5 PGSIZE, freelist := rd64 (mem s) x\<rparr>) xs"
    using assms(2) by (auto simp: free_pages_def simp del: memset_page)
  with assms(1) x show ?thesis by (auto simp: kalloc_eq Let_def)
qed

lemma kalloc_empty: "kmem_ready s \<Longrightarrow> free_pages s [] \<Longrightarrow> kalloc s = Done 0 s"
  by (simp add: kalloc_eq free_pages_def)

section \<open>The contract of the allocator\<close>

text \<open>
  What the clients rely on: with \<open>F\<close> the set of free pages, \<open>alloc\<close> hands out a page of \<open>F\<close> or
  null when there is none, \<open>dealloc\<close> takes a managed page that is not free, and neither touches the
  contents of any other page.
\<close>

locale page_allocator =
  fixes alloc :: "('s, uint64) kern" and dealloc :: "uint64 \<Rightarrow> ('s, unit) kern"
    and inv :: "'s \<Rightarrow> uint64 set \<Rightarrow> bool" and managed :: "'s \<Rightarrow> uint64 \<Rightarrow> bool"
    and contents :: "'s \<Rightarrow> mem"
  assumes free_managed: "inv s F \<Longrightarrow> finite F \<and> (\<forall>p\<in>F. managed s p \<and> p \<noteq> 0)"
    and alloc_some: "inv s F \<Longrightarrow> F \<noteq> {} \<Longrightarrow>
      \<exists>p t. alloc s = Done p t \<and> p \<in> F \<and> inv t (F - {p}) \<and> managed t = managed s \<and>
            (\<forall>b. \<not> in_range p PGSIZE b \<longrightarrow> contents t b = contents s b)"
    and alloc_none: "inv s {} \<Longrightarrow> alloc s = Done 0 s"
    and dealloc_ok: "inv s F \<Longrightarrow> managed s p \<Longrightarrow> p \<notin> F \<Longrightarrow>
      \<exists>t. dealloc p s = Done () t \<and> inv t (insert p F) \<and> managed t = managed s \<and>
          (\<forall>b. \<not> in_range p PGSIZE b \<longrightarrow> contents t b = contents s b)"

text \<open>A client that takes \<open>n\<close> pages one after the other.\<close>

primrec alloc_many :: "('s, uint64) kern \<Rightarrow> nat \<Rightarrow> ('s, uint64 list) kern" where
  "alloc_many alloc 0 = return []"
| "alloc_many alloc (Suc n) = Do alloc (\<lambda>p. Do (alloc_many alloc n) (\<lambda>ps. return (p # ps)))"

context page_allocator
begin

lemma alloc_many_distinct:
  assumes "inv s F" and "n \<le> card F"
  shows "\<exists>ps t. alloc_many alloc n s = Done ps t \<and> length ps = n \<and> distinct ps \<and> set ps \<subseteq> F \<and>
    inv t (F - set ps) \<and> managed t = managed s \<and>
    (\<forall>b. (\<forall>p\<in>set ps. \<not> in_range p PGSIZE b) \<longrightarrow> contents t b = contents s b)"
  using assms
proof (induction n arbitrary: s F)
  case 0
  then show ?case by (auto simp: return_def)
next
  case (Suc n)
  have fin: "finite F" using free_managed [OF Suc.prems(1)] by simp
  with Suc.prems(2) have "F \<noteq> {}" by auto
  then obtain p u where u: "alloc s = Done p u" "p \<in> F" "inv u (F - {p})" "managed u = managed s"
    "\<forall>b. \<not> in_range p PGSIZE b \<longrightarrow> contents u b = contents s b"
    using alloc_some [OF Suc.prems(1)] by blast
  moreover have "n \<le> card (F - {p})" using Suc.prems(2) fin u(2) by simp
  ultimately obtain ps t where t: "alloc_many alloc n u = Done ps t" "length ps = n" "distinct ps"
    "set ps \<subseteq> F - {p}" "inv t (F - {p} - set ps)" "managed t = managed u"
    "\<forall>b. (\<forall>p\<in>set ps. \<not> in_range p PGSIZE b) \<longrightarrow> contents t b = contents u b"
    using Suc.IH [OF u(3)] by blast
  have "F - {p} - set ps = F - set (p # ps)" by auto
  with u t show ?case
    by (intro exI [of _ "p # ps"] exI [of _ t]) (auto simp: Do_def return_def)
qed

lemma dealloc_all:
  assumes "inv s F" and "distinct ps" and "set ps \<inter> F = {}" and "\<forall>p\<in>set ps. managed s p"
  shows "\<exists>t. for_each ps dealloc s = Done () t \<and> inv t (F \<union> set ps) \<and> managed t = managed s"
  using assms
proof (induction ps arbitrary: s F)
  case Nil
  then show ?case by (simp add: return_def)
next
  case (Cons p ps)
  then obtain u where u: "dealloc p s = Done () u" "inv u (insert p F)" "managed u = managed s"
    using dealloc_ok [of s F p] by auto
  with Cons.prems obtain t where "for_each ps dealloc u = Done () t" "inv t (insert p F \<union> set ps)"
    "managed t = managed u"
    using Cons.IH [OF u(2)] by auto
  with u show ?case by (auto simp: Do_def)
qed

lemma alloc_exhausted:
  assumes "inv s F" and "card F < n"
  shows "\<exists>ps t. alloc_many alloc n s = Done ps t \<and> 0 \<in> set ps"
  using assms
proof (induction n arbitrary: s F)
  case 0
  then show ?case by simp
next
  case (Suc n)
  have fin: "finite F" using free_managed [OF Suc.prems(1)] by simp
  show ?case
  proof (cases "F = {}")
    case True
    with Suc.prems(1) have a: "alloc s = Done 0 s" by (simp add: alloc_none)
    then have "\<exists>ps. alloc_many alloc k s = Done ps s" for k
      by (induction k) (auto simp: return_def Do_def)
    then obtain ps where "alloc_many alloc n s = Done ps s" by blast
    with a show ?thesis
      by (intro exI [of _ "0 # ps"] exI [of _ s]) (simp add: Do_def return_def)
  next
    case False
    then obtain p u where u: "alloc s = Done p u" "p \<in> F" "inv u (F - {p})"
      using alloc_some [OF Suc.prems(1)] by blast
    then have "card (F - {p}) < n"
      using Suc.prems(2) fin card_Suc_Diff1 [of F p] by simp
    with u obtain ps t where "alloc_many alloc n u = Done ps t" "0 \<in> set ps"
      using Suc.IH [OF u(3)] by blast
    with u show ?thesis
      by (intro exI [of _ "p # ps"] exI [of _ t]) (simp add: Do_def return_def)
  qed
qed

end

interpretation kmem_pages: page_allocator kalloc kfree
  "\<lambda>s F. kmem_ready s \<and> (\<exists>xs. free_pages s xs \<and> set xs = F)" "\<lambda>s. page_ok (kend s)" mem
proof (unfold_locales, goal_cases)
  case (1 s F)
  then show ?case by (auto simp: free_pages_def dest: page_ok_nonzero)
next
  case (2 s F)
  then obtain x xs where xs: "free_pages s (x # xs)" "F = insert x (set xs)" "kmem_ready s"
    by (metis list.exhaust list.simps(15) list.set(1))
  obtain t m l where t: "kalloc s = Done x t" "kmem_ready t" "free_pages t xs" "x \<notin> set xs"
    "t = s\<lparr>mem := m, freelist := l\<rparr>" "\<forall>b. mem t b = (if in_range x PGSIZE b then 5 else mem s b)"
    using kalloc_free_pages [OF xs(3,1)] by blast
  have "page_ok (kend t) = page_ok (kend s)" "F - {x} = set xs" using t(4,5) xs(2) by auto
  with t xs(2) show ?case by (intro exI [of _ x] exI [of _ t]) auto
next
  case (3 s)
  then show ?case by (auto intro: kalloc_empty)
next
  case (4 s F p)
  then obtain xs where xs: "kmem_ready s" "free_pages s xs" "set xs = F" by blast
  with 4 obtain t m l where t: "kfree p s = Done () t" "kmem_ready t" "free_pages t (p # xs)"
    "t = s\<lparr>mem := m, freelist := l\<rparr>" "\<forall>b. \<not> in_range p PGSIZE b \<longrightarrow> mem t b = mem s b"
    using kfree_free_pages [OF xs(1,2)] by blast
  have "page_ok (kend t) = page_ok (kend s)" "set (p # xs) = insert p F" using t(4) xs(3) by auto
  with t show ?case by blast
qed

text \<open>C13: pages handed out by \<open>kalloc\<close>. From an allocator with at least \<open>n\<close> free pages, \<open>n\<close> calls
  return \<open>n\<close> different pages, none of them null and each inside managed memory, and the contents of
  every page not handed out is untouched; giving the pages back with \<open>kfree\<close>, in any order, never
  panics and restores the set of free pages. With fewer than \<open>n\<close> free pages some call returns
  null, and none panics.\<close>

theorem kalloc_hands_out_distinct_pages:
  assumes "kmem_ready s" and "free_pages s xs"
  shows "(if n \<le> length xs then
      (\<exists>ps t. alloc_many kalloc n s = Done ps t \<and> length ps = n \<and> distinct ps \<and> set ps \<subseteq> set xs \<and>
        (\<forall>p\<in>set ps. page_ok (kend s) p \<and> p \<noteq> 0) \<and>
        (\<forall>b. (\<forall>p\<in>set ps. \<not> in_range p PGSIZE b) \<longrightarrow> mem t b = mem s b) \<and>
        (\<exists>ys. free_pages t ys \<and> set ys = set xs - set ps) \<and>
        (\<forall>qs. distinct qs \<and> set qs = set ps \<longrightarrow>
          (\<exists>u ys. for_each qs kfree t = Done () u \<and> free_pages u ys \<and> set ys = set xs)))
    else \<exists>ps t. alloc_many kalloc n s = Done ps t \<and> 0 \<in> set ps)"
proof -
  have inv: "kmem_ready s \<and> (\<exists>ys. free_pages s ys \<and> set ys = set xs)" and card: "card (set xs) = length xs"
    using assms by (auto simp: free_pages_def distinct_card)
  note all_ok = kmem_pages.free_managed [OF inv]
  show ?thesis
  proof (cases "n \<le> length xs")
    case True
    with card obtain ps t where t: "alloc_many kalloc n s = Done ps t" "length ps = n" "distinct ps"
      "set ps \<subseteq> set xs" "kmem_ready t \<and> (\<exists>ys. free_pages t ys \<and> set ys = set xs - set ps)"
      "page_ok (kend t) = page_ok (kend s)"
      "\<forall>b. (\<forall>p\<in>set ps. \<not> in_range p PGSIZE b) \<longrightarrow> mem t b = mem s b"
      using kmem_pages.alloc_many_distinct [OF inv, of n] by auto
    have "\<exists>u ys. for_each qs kfree t = Done () u \<and> free_pages u ys \<and> set ys = set xs"
      if "distinct qs" "set qs = set ps" for qs
    proof -
      have "set qs \<inter> (set xs - set ps) = {}" "\<forall>p\<in>set qs. page_ok (kend t) p"
        "set xs - set ps \<union> set qs = set xs"
        using that t(4,6) all_ok by auto
      with kmem_pages.dealloc_all [OF t(5) that(1)] show ?thesis by auto
    qed
    moreover have "\<forall>p\<in>set ps. page_ok (kend s) p \<and> p \<noteq> 0" using t(4) all_ok by blast
    ultimately show ?thesis using t unfolding if_P [OF True] by blast
  next
    case False
    with card show ?thesis using kmem_pages.alloc_exhausted [OF inv, of n] by simp
  qed
qed

section \<open>Initialisation\<close>

lemma unat_PGROUNDDOWN: "unat (PGROUNDDOWN a) = unat a - unat a mod PGSIZE"
proof -
  have m: "of_nat PGSIZE - 1 = (mask 12 :: uint64)" by (simp add: PGSIZE_def mask_eq_exp_minus_1)
  have "PGROUNDDOWN a + take_bit 12 a = PGROUNDDOWN a OR take_bit 12 a"
    by (rule disjunctive_add) (simp add: PGROUNDDOWN_def m bit_simps)
  also have "\<dots> = a"
    by (rule bit_word_eqI) (auto simp: PGROUNDDOWN_def m bit_simps)
  finally have "PGROUNDDOWN a = a - take_bit 12 a" by (simp add: eq_diff_eq)
  moreover have *: "unat (take_bit 12 a) = unat a mod PGSIZE"
    by (simp add: unsigned_take_bit_eq PGSIZE_def) (simp add: take_bit_eq_mod)
  moreover have "take_bit 12 a \<le> a"
    by (simp add: word_le_nat_alt *)
  ultimately show ?thesis by (simp add: unat_sub)
qed

lemma unat_PGROUNDUP:
  assumes "unat a + PGSIZE \<le> 2 ^ 64"
  shows "unat (PGROUNDUP a) mod PGSIZE = 0" "unat a \<le> unat (PGROUNDUP a)" "unat (PGROUNDUP a) < unat a + PGSIZE"
proof -
  have "PGROUNDUP a = PGROUNDDOWN (a + of_nat (PGSIZE - 1))"
    by (simp add: PGROUNDUP_def PGROUNDDOWN_def PGSIZE_def add.commute)
  moreover have "unat (a + of_nat (PGSIZE - 1)) = unat a + (PGSIZE - 1)"
    using assms by (intro unat_offset) (simp add: PGSIZE_def)
  ultimately have *: "unat (PGROUNDUP a) = unat a + (PGSIZE - 1) - (unat a + (PGSIZE - 1)) mod PGSIZE"
    by (simp add: unat_PGROUNDDOWN)
  show "unat (PGROUNDUP a) mod PGSIZE = 0" unfolding * by (simp add: minus_mod_eq_mult_div)
  have "(unat a + (PGSIZE - 1)) mod PGSIZE \<le> PGSIZE - 1" by (simp add: PGSIZE_def)
  moreover have "0 < PGSIZE" by simp
  ultimately show "unat a \<le> unat (PGROUNDUP a)" "unat (PGROUNDUP a) < unat a + PGSIZE"
    unfolding * by linarith+
qed

definition whole_pages :: "uint64 \<Rightarrow> uint64 \<Rightarrow> uint64 set" where
  "whole_pages p e = {pa. unat pa mod PGSIZE = 0 \<and> p \<le> pa \<and> unat pa + PGSIZE \<le> unat e}"

lemma whole_pages_step:
  assumes "unat p + PGSIZE \<le> unat e" and "unat p mod PGSIZE = 0"
  shows "whole_pages p e = insert p (whole_pages (p + of_nat PGSIZE) e)" "p \<notin> whole_pages (p + of_nat PGSIZE) e"
proof -
  have n: "unat (p + of_nat PGSIZE) = unat p + PGSIZE" using assms(1) by (rule unat_next_page)
  have "unat p + PGSIZE \<le> unat q" if al: "unat q mod PGSIZE = 0" and lt: "unat p < unat q" for q :: uint64
  proof -
    obtain k r where "unat q = PGSIZE * k" "unat p = PGSIZE * r"
      using page_multiple [OF al] page_multiple [OF assms(2)] by blast
    with lt show ?thesis by (simp add: PGSIZE_def)
  qed
  then have "unat p \<le> unat q \<longleftrightarrow> q = p \<or> unat p + PGSIZE \<le> unat q" if "unat q mod PGSIZE = 0" for q :: uint64
    using that by (metis add_leD1 le_neq_implies_less order_refl word_unat_eq_iff)
  then show "whole_pages p e = insert p (whole_pages (p + of_nat PGSIZE) e)"
    using assms n by (auto simp: whole_pages_def word_le_nat_alt)
  show "p \<notin> whole_pages (p + of_nat PGSIZE) e"
    using n by (simp add: whole_pages_def word_le_nat_alt PGSIZE_def)
qed

lemma freerange_loop_frees:
  fixes s :: "'z kmem_scheme"
  assumes "kmem_ready s" and "free_pages s xs" and "unat p mod PGSIZE = 0" and "kend s \<le> p" and "e \<le> PHYSTOP"
    and "set xs \<inter> whole_pages p e = {}"
  shows "\<exists>t ys. freerange_loop p e s = Done () t \<and> kmem_ready t \<and> kend t = kend s \<and> free_pages t ys \<and>
    set ys = set xs \<union> whole_pages p e"
  using assms
proof (induction "unat e - unat p" arbitrary: p s xs rule: less_induct)
  case less
  show ?case
  proof (cases "unat p + PGSIZE \<le> unat e")
    case True
    note step = whole_pages_step [OF True less.prems(3)]
    have ok: "page_ok (kend s) p"
    proof -
      have "p < e" using True by (simp add: word_less_nat_alt PGSIZE_def)
      with less.prems show ?thesis by (auto simp: page_ok_def)
    qed
    have "p \<notin> set xs" using less.prems(6) step(1) by auto
    then obtain u m l where u: "kfree p s = Done () u" "kmem_ready u" "free_pages u (p # xs)" "u = s\<lparr>mem := m, freelist := l\<rparr>"
      using kfree_free_pages [OF less.prems(1,2) ok] by blast
    let ?q = "p + of_nat PGSIZE"
    have q: "unat ?q = unat p + PGSIZE" using True by (rule unat_next_page)
    have "\<exists>t ys. freerange_loop ?q e u = Done () t \<and> kmem_ready t \<and> kend t = kend u \<and> free_pages t ys \<and>
        set ys = set (p # xs) \<union> whole_pages ?q e"
    proof (rule less.hyps)
      show "unat e - unat ?q < unat e - unat p" using True by (rule next_page_measure)
      show "unat ?q mod PGSIZE = 0" using q less.prems(3) by simp
      show "kend u \<le> ?q" using u(4) q less.prems(4) by (simp add: word_le_nat_alt)
      show "set (p # xs) \<inter> whole_pages ?q e = {}" using less.prems(6) step by auto
    qed (use u less.prems in simp_all)
    then obtain t ys where "freerange_loop ?q e u = Done () t" "kmem_ready t" "kend t = kend u" "free_pages t ys"
      "set ys = set (p # xs) \<union> whole_pages ?q e" by blast
    with True u step show ?thesis
      by (intro exI [of _ t] exI [of _ ys]) (auto simp: freerange_loop.simps [of p e] Do_def)
  next
    case False
    have "whole_pages p e = {}" using False by (auto simp: whole_pages_def word_le_nat_alt)
    with False less.prems show ?thesis
      by (intro exI [of _ s] exI [of _ xs]) (simp add: freerange_loop.simps [of p e] return_def)
  qed
qed

lemma kinit_whole_pages:
  assumes "0 < e" and "e \<le> PHYSTOP"
  shows "whole_pages (PGROUNDUP e) PHYSTOP = {pa. page_ok e pa}"
proof -
  have P: "unat PHYSTOP = 0x88000000" by (simp add: PHYSTOP_def KERNBASE_def)
  have "unat e + PGSIZE \<le> 2 ^ 64" using assms(2) P by (simp add: word_le_nat_alt PGSIZE_def)
  note up = unat_PGROUNDUP [OF this]
  have "unat (PGROUNDUP e) \<le> unat q \<and> unat q + PGSIZE \<le> unat PHYSTOP \<longleftrightarrow> unat e \<le> unat q \<and> unat q < unat PHYSTOP"
    if al: "unat q mod PGSIZE = 0" for q :: uint64
  proof -
    obtain k r where kr: "unat q = PGSIZE * k" "unat (PGROUNDUP e) = PGSIZE * r"
      using page_multiple [OF al] page_multiple [OF up(1)] by blast
    moreover have PP: "unat PHYSTOP = PGSIZE * 557056" using P by (simp add: PGSIZE_def)
    moreover have "r \<le> k \<longleftrightarrow> unat e \<le> PGSIZE * k"
    proof
      assume "unat e \<le> PGSIZE * k"
      then have "PGSIZE * r < PGSIZE * (k + 1)" using up(3) kr by simp
      then have "r < k + 1" by (rule mult_less_cancel1 [THEN iffD1, THEN conjunct2])
      then show "r \<le> k" by simp
    next
      assume "r \<le> k"
      then have "PGSIZE * r \<le> PGSIZE * k" by simp
      then show "unat e \<le> PGSIZE * k" using up(2) kr by linarith
    qed
    moreover have "PGSIZE * k + PGSIZE \<le> PGSIZE * 557056 \<longleftrightarrow> k < 557056"
      by (simp add: PGSIZE_def) linarith
    ultimately show ?thesis by simp
  qed
  note * = this
  show ?thesis
    unfolding whole_pages_def page_ok_def word_le_nat_alt word_less_nat_alt
    by (rule Collect_cong, rule conj_cong [OF refl], rule *)
qed

lemma kmem_ready_initlock:
  "settled (mycpu s) \<Longrightarrow> initlock KmemLock n s = Done x t \<Longrightarrow> kmem_ready t"
  by (auto simp: initlock_def modify_def kmem_ready_def lk_free_def mycpu_def)

text \<open>C14: \<open>kinit\<close> terminates without a panic and puts every whole page between the end of the
  kernel and \<open>PHYSTOP\<close> on the free list, each exactly once, and nothing else.\<close>

theorem kinit_frees_all_memory:
  assumes "settled (mycpu s)" and "freelist s = 0" and "0 < kend s" and "kend s \<le> PHYSTOP"
  shows "\<exists>t xs. kinit s = Done () t \<and> free_pages t xs \<and> distinct xs \<and> set xs = {pa. page_ok (kend s) pa}"
proof -
  let ?u = "s\<lparr>locks := (locks s)(KmemLock := \<lparr>locked = False, lname = ''kmem'', lcpu = None\<rparr>)\<rparr>"
  have i: "initlock KmemLock ''kmem'' s = Done () ?u" by (simp add: initlock_def modify_def)
  have "kmem_ready ?u" using kmem_ready_initlock [OF assms(1) i] .
  moreover have "free_pages ?u []" using assms(2,3) by (simp add: free_pages_def)
  moreover have "unat (kend s) + PGSIZE \<le> 2 ^ 64"
    using assms(4) by (simp add: word_le_nat_alt PHYSTOP_def KERNBASE_def PGSIZE_def)
  moreover note unat_PGROUNDUP [OF this]
  ultimately have "\<exists>t ys. freerange_loop (PGROUNDUP (kend s)) PHYSTOP ?u = Done () t \<and> kmem_ready t \<and>
      kend t = kend ?u \<and> free_pages t ys \<and> set ys = set [] \<union> whole_pages (PGROUNDUP (kend s)) PHYSTOP"
    by (intro freerange_loop_frees) (simp_all add: word_le_nat_alt)
  then show ?thesis
    using assms(3,4) i
    by (auto simp: kinit_def Do_def gets_def freerange_def kinit_whole_pages)
      (auto simp: free_pages_def)
qed

section \<open>An allocator with two free pages\<close>

definition kmem_boot :: kmem where
  "kmem_boot = sched.extend sched0 (kmem.fields (\<lambda>_. 0) 0 0x87FFD000)"

definition kmem0 :: kmem where
  "kmem0 = kmem_boot\<lparr>mem := wr64 0x87FFF000 0 (wr64 0x87FFE000 0x87FFF000 (\<lambda>_. 0)), freelist := 0x87FFE000\<rparr>"

lemma kmem_boot_proj [simp]:
  "tp kmem_boot = tp sched0" "cpus kmem_boot = cpus sched0" "locks kmem_boot = locks sched0"
  "procs kmem_boot = procs sched0" "freelist kmem_boot = 0" "kend kmem_boot = 0x87FFD000"
  by (simp_all add: kmem_boot_def kmem.defs sched.defs)

lemma kmem_ready_boot: "kmem_ready kmem_boot"
  using quiet_sched0 by (simp add: kmem_ready_def quiet_def mycpu_def lk_free_def)

lemma free_pages_kmem0: "free_pages kmem0 [0x87FFE000, 0x87FFF000]"
proof -
  have "\<not> in_range 0x87FFF000 8 b" if "in_range 0x87FFE000 8 b" for b
    using pages_apart [of "0x87FFE000" "0x87FFF000" b] in_page [OF that] in_page [of "0x87FFF000" b]
    by (auto simp: PGSIZE_def)
  then have "rd64 (wr64 0x87FFF000 0 (wr64 0x87FFE000 0x87FFF000 (\<lambda>_. 0))) 0x87FFE000 =
      rd64 (wr64 0x87FFE000 0x87FFF000 (\<lambda>_. 0)) 0x87FFE000"
    by (intro rd64_cong) (simp add: wr64_def)
  then show ?thesis
    by (simp add: free_pages_def kmem0_def page_ok_def PHYSTOP_def KERNBASE_def PGSIZE_def)
qed

theorem kalloc_hands_out_distinct_pages_witness:
  "(\<exists>ps t. alloc_many kalloc 2 kmem0 = Done ps t \<and> length ps = 2 \<and> distinct ps) \<and>
   (\<exists>ps t. alloc_many kalloc 3 kmem0 = Done ps t \<and> 0 \<in> set ps)"
proof -
  have r: "kmem_ready kmem0" using kmem_ready_boot by (simp add: kmem0_def)
  show ?thesis
    using kalloc_hands_out_distinct_pages [OF r free_pages_kmem0, of 2]
      kalloc_hands_out_distinct_pages [OF r free_pages_kmem0, of 3]
    by auto
qed

theorem kinit_frees_all_memory_witness:
  "\<exists>t xs. kinit kmem_boot = Done () t \<and> free_pages t xs \<and> distinct xs \<and> 0x87FFE000 \<in> set xs"
proof -
  have "page_ok 0x87FFD000 0x87FFE000"
    by (simp add: page_ok_def PHYSTOP_def KERNBASE_def PGSIZE_def)
  then show ?thesis
    using kinit_frees_all_memory [of kmem_boot] kmem_ready_boot
    by (auto simp: kmem_ready_def PHYSTOP_def KERNBASE_def)
qed

end
