(* ===== verification/Vm.thy ===== *)
theory Vm
  imports Kalloc
begin

text \<open>
  Virtual memory: the Sv39 page tables of \<open>kernel/vm.c\<close>, with the macros of \<open>kernel/riscv.h\<close> and
  the layout of \<open>kernel/memlayout.h\<close>. Page tables live in the byte memory of the allocator; a
  page-table pointer is the physical address of its page, and the kernel's direct map makes every
  physical address a usable pointer.

  The kernel side of \<open>copyout\<close>, \<open>copyin\<close> and \<open>copyinstr\<close> is a buffer outside paged memory (a local
  variable or a field of a kernel structure), so it is a list of bytes here: \<open>copyout\<close> takes the
  bytes, \<open>copyin\<close> returns them with its status, as many as were copied before a failure, and
  \<open>copyinstr\<close> returns the string or nothing. \<open>etext\<close> and \<open>trampoline\<close> are linker symbols; like \<open>kend\<close> they are constant fields.
\<close>

section \<open>Page-table entries and addresses\<close>

definition PTE_V :: uint64 where "PTE_V = 1"
definition PTE_R :: uint64 where "PTE_R = 2"
definition PTE_W :: uint64 where "PTE_W = 4"
definition PTE_X :: uint64 where "PTE_X = 8"
definition PTE_U :: uint64 where "PTE_U = 16"

lemmas pte_flag_defs = PTE_V_def PTE_R_def PTE_W_def PTE_X_def PTE_U_def

definition PA2PTE :: "uint64 \<Rightarrow> uint64" where "PA2PTE pa = push_bit 10 (drop_bit 12 pa)"
definition PTE2PA :: "uint64 \<Rightarrow> uint64" where "PTE2PA pte = push_bit 12 (drop_bit 10 pte)"
definition PTE_FLAGS :: "uint64 \<Rightarrow> uint64" where "PTE_FLAGS pte = pte AND 0x3FF"

definition PXSHIFT :: "nat \<Rightarrow> nat" where "PXSHIFT level = PGSHIFT + 9 * level"
definition PX :: "nat \<Rightarrow> uint64 \<Rightarrow> uint64" where "PX level va = drop_bit (PXSHIFT level) va AND 0x1FF"

definition MAXVA :: uint64 where "MAXVA = push_bit (9 + 9 + 9 + 12 - 1) 1"
definition TRAMPOLINE :: uint64 where "TRAMPOLINE = MAXVA - of_nat PGSIZE"
definition TRAPFRAME :: uint64 where "TRAPFRAME = TRAMPOLINE - of_nat PGSIZE"
definition KSTACK :: "nat \<Rightarrow> uint64" where "KSTACK p = TRAMPOLINE - of_nat ((p + 1) * 2 * PGSIZE)"

definition UART0 :: uint64 where "UART0 = 0x10000000"
definition VIRTIO0 :: uint64 where "VIRTIO0 = 0x10001000"
definition PLIC :: uint64 where "PLIC = 0x0c000000"

text \<open>\<open>satp\<close> holds the mode (Sv39) and the page number of the root table.\<close>

definition MAKE_SATP :: "uint64 \<Rightarrow> uint64" where
  "MAKE_SATP pt = push_bit 60 8 OR drop_bit 12 pt"

record kvm = kmem +
  kernel_pagetable :: uint64
  etext :: uint64
  trampoline :: uint64

section \<open>Walking and mapping\<close>

definition pte_addr :: "uint64 \<Rightarrow> nat \<Rightarrow> uint64 \<Rightarrow> uint64" where
  "pte_addr pt level va = pt + 8 * PX level va"

primrec walk_from :: "nat \<Rightarrow> uint64 \<Rightarrow> uint64 \<Rightarrow> bool \<Rightarrow> ('z kmem_scheme, uint64) kern" where
  "walk_from 0 pt va alloc = return (pte_addr pt 0 va)"
| "walk_from (Suc level) pt va alloc =
     (let pte = pte_addr pt (Suc level) va in
      Do (gets (\<lambda>s. rd64 (mem s) pte)) (\<lambda>e.
      if e AND PTE_V \<noteq> 0 then walk_from level (PTE2PA e) va alloc
      else if \<not> alloc then return 0
      else Do kalloc (\<lambda>p.
        if p = 0 then return 0 else
        Seq (upd_mem (\<lambda>m. memset m p 0 PGSIZE)) (
        Seq (upd_mem (wr64 pte (PA2PTE p OR PTE_V)))
        (walk_from level p va alloc)))))"

definition walk :: "uint64 \<Rightarrow> uint64 \<Rightarrow> bool \<Rightarrow> ('z kmem_scheme, uint64) kern" where
  "walk pt va alloc =
     (if va \<ge> MAXVA then panic ''walk'' else walk_from 2 pt va alloc)"

definition walkaddr :: "uint64 \<Rightarrow> uint64 \<Rightarrow> ('z kmem_scheme, uint64) kern" where
  "walkaddr pt va =
     (if va \<ge> MAXVA then return 0 else
      Do (walk pt va False) (\<lambda>pte.
      if pte = 0 then return 0 else
      Do (gets (\<lambda>s. rd64 (mem s) pte)) (\<lambda>e.
      if e AND PTE_V = 0 then return 0
      else if e AND PTE_U = 0 then return 0
      else return (PTE2PA e))))"

text \<open>The loop of \<open>mappages\<close> ends when \<open>a\<close> is \<open>last\<close>. It runs \<open>size / PGSIZE\<close> times, which is the
  bound given to the recursion.\<close>

primrec mappages_loop ::
  "nat \<Rightarrow> uint64 \<Rightarrow> uint64 \<Rightarrow> uint64 \<Rightarrow> uint64 \<Rightarrow> uint64 \<Rightarrow> ('z kmem_scheme, int) kern" where
  "mappages_loop 0 pt a lst pa perm = stop Hang"
| "mappages_loop (Suc k) pt a lst pa perm =
     Do (walk pt a True) (\<lambda>pte.
     if pte = 0 then return (- 1) else
     Do (gets (\<lambda>s. rd64 (mem s) pte)) (\<lambda>e.
     if e AND PTE_V \<noteq> 0 then panic ''mappages: remap'' else
     Seq (upd_mem (wr64 pte (PA2PTE pa OR perm OR PTE_V))) (
     if a = lst then return 0
     else mappages_loop k pt (a + of_nat PGSIZE) lst (pa + of_nat PGSIZE) perm)))"

definition mappages :: "uint64 \<Rightarrow> uint64 \<Rightarrow> uint64 \<Rightarrow> uint64 \<Rightarrow> uint64 \<Rightarrow> ('z kmem_scheme, int) kern" where
  "mappages pt va len pa perm =
     (if unat va mod PGSIZE \<noteq> 0 then panic ''mappages: va not aligned''
      else if unat len mod PGSIZE \<noteq> 0 then panic ''mappages: len not aligned''
      else if len = 0 then panic ''mappages: len''
      else mappages_loop (unat len div PGSIZE) pt va (va + len - of_nat PGSIZE) pa perm)"

definition kvmmap :: "uint64 \<Rightarrow> uint64 \<Rightarrow> uint64 \<Rightarrow> uint64 \<Rightarrow> uint64 \<Rightarrow> ('z kmem_scheme, unit) kern" where
  "kvmmap kpgtbl va pa len perm =
     Do (mappages kpgtbl va len pa perm) (\<lambda>r. if r \<noteq> 0 then panic ''kvmmap'' else skip)"

section \<open>The kernel page table\<close>

definition proc_mapstacks :: "uint64 \<Rightarrow> ('z kmem_scheme, unit) kern" where
  "proc_mapstacks kpgtbl =
     for_each [0..<NPROC] (\<lambda>p.
       Do kalloc (\<lambda>pa.
       if pa = 0 then panic ''kalloc'' else
       kvmmap kpgtbl (KSTACK p) pa (of_nat PGSIZE) (PTE_R OR PTE_W)))"

definition kvmmake :: "('z kvm_scheme, uint64) kern" where
  "kvmmake =
     Do kalloc (\<lambda>kpgtbl.
     Seq (upd_mem (\<lambda>m. memset m kpgtbl 0 PGSIZE)) (
     Seq (kvmmap kpgtbl UART0 UART0 (of_nat PGSIZE) (PTE_R OR PTE_W)) (
     Seq (kvmmap kpgtbl VIRTIO0 VIRTIO0 (of_nat PGSIZE) (PTE_R OR PTE_W)) (
     Seq (kvmmap kpgtbl PLIC PLIC 0x4000000 (PTE_R OR PTE_W)) (
     Do (gets etext) (\<lambda>et.
     Seq (kvmmap kpgtbl KERNBASE KERNBASE (et - KERNBASE) (PTE_R OR PTE_X)) (
     Seq (kvmmap kpgtbl et et (PHYSTOP - et) (PTE_R OR PTE_W)) (
     Do (gets trampoline) (\<lambda>tr.
     Seq (kvmmap kpgtbl TRAMPOLINE tr (of_nat PGSIZE) (PTE_R OR PTE_X)) (
     Seq (proc_mapstacks kpgtbl) (
     return kpgtbl)))))))))))"

definition kvminit :: "('z kvm_scheme, unit) kern" where
  "kvminit = Do kvmmake (\<lambda>t. modify (\<lambda>s. s\<lparr>kernel_pagetable := t\<rparr>))"

text \<open>\<open>sfence_vma\<close> orders the hardware's translation caches, which the model does not have.\<close>

definition kvminithart :: "('z kvm_scheme, unit) kern" where
  "kvminithart = Do (gets kernel_pagetable) (\<lambda>t. w_csr Satp (MAKE_SATP t))"

section \<open>User memory\<close>

text \<open>The addresses visited by \<open>for(a = from; a < limit; a += PGSIZE)\<close>. The limits are sizes of user
  memory, far below the last page of the address space, where the increment would wrap.\<close>

definition page_steps :: "uint64 \<Rightarrow> uint64 \<Rightarrow> uint64 list" where
  "page_steps a limit =
     map (\<lambda>i. a + of_nat (i * PGSIZE)) [0..<(unat limit - unat a + (PGSIZE - 1)) div PGSIZE]"

definition uvmcreate :: "('z kmem_scheme, uint64) kern" where
  "uvmcreate =
     Do kalloc (\<lambda>pt.
     if pt = 0 then return 0 else
     Seq (upd_mem (\<lambda>m. memset m pt 0 PGSIZE)) (
     return pt))"

definition uvmunmap :: "uint64 \<Rightarrow> uint64 \<Rightarrow> uint64 \<Rightarrow> bool \<Rightarrow> ('z kmem_scheme, unit) kern" where
  "uvmunmap pt va npages do_free =
     (if unat va mod PGSIZE \<noteq> 0 then panic ''uvmunmap: not aligned'' else
      for_each (page_steps va (va + npages * of_nat PGSIZE)) (\<lambda>a.
        Do (walk pt a False) (\<lambda>pte.
        if pte = 0 then skip else
        Do (gets (\<lambda>s. rd64 (mem s) pte)) (\<lambda>e.
        if e AND PTE_V = 0 then skip else
        Seq (kwhen do_free (kfree (PTE2PA e)))
        (upd_mem (wr64 pte 0))))))"

text \<open>The page count goes through an \<open>int\<close>.\<close>

definition uvmdealloc :: "uint64 \<Rightarrow> uint64 \<Rightarrow> uint64 \<Rightarrow> ('z kmem_scheme, uint64) kern" where
  "uvmdealloc pt oldsz newsz =
     (if newsz \<ge> oldsz then return oldsz else
      Seq (kwhen (PGROUNDUP newsz < PGROUNDUP oldsz)
        (let npages = (ucast ((PGROUNDUP oldsz - PGROUNDUP newsz) div of_nat PGSIZE) :: 32 word) in
         uvmunmap pt (PGROUNDUP newsz) (scast npages) True)) (
      return newsz))"

definition uvmalloc :: "uint64 \<Rightarrow> uint64 \<Rightarrow> uint64 \<Rightarrow> uint64 \<Rightarrow> ('z kmem_scheme, uint64) kern" where
  "uvmalloc pt oldsz newsz xperm =
     (if newsz < oldsz then return oldsz else
      let oldsz = PGROUNDUP oldsz in
      Do (for_find (page_steps oldsz newsz) (\<lambda>a.
        Do kalloc (\<lambda>p.
        if p = 0 then Seq (uvmdealloc pt a oldsz) (return (Some 0)) else
        Seq (upd_mem (\<lambda>m. memset m p 0 PGSIZE)) (
        Do (mappages pt a (of_nat PGSIZE) p (PTE_R OR PTE_U OR xperm)) (\<lambda>r.
        if r \<noteq> 0 then Seq (kfree p) (Seq (uvmdealloc pt a oldsz) (return (Some 0)))
        else return None)))))
      (\<lambda>r. return (case r of Some v \<Rightarrow> v | None \<Rightarrow> newsz)))"

text \<open>\<open>freewalk\<close> descends one level per call; a page table has three levels, which is the bound its
  caller gives.\<close>

primrec freewalk :: "nat \<Rightarrow> uint64 \<Rightarrow> ('z kmem_scheme, unit) kern" where
  "freewalk 0 pt = stop Hang"
| "freewalk (Suc depth) pt =
     Seq (for_each [0..<512] (\<lambda>i.
       let pte_at = pt + 8 * of_nat i in
       Do (gets (\<lambda>s. rd64 (mem s) pte_at)) (\<lambda>pte.
       if pte AND PTE_V \<noteq> 0 \<and> pte AND (PTE_R OR PTE_W OR PTE_X) = 0 then
         Seq (freewalk depth (PTE2PA pte))
         (upd_mem (wr64 pte_at 0))
       else if pte AND PTE_V \<noteq> 0 then panic ''freewalk: leaf''
       else skip)))
     (kfree pt)"

definition uvmfree :: "uint64 \<Rightarrow> uint64 \<Rightarrow> ('z kmem_scheme, unit) kern" where
  "uvmfree pt len =
     Seq (kwhen (len > 0) (uvmunmap pt 0 (PGROUNDUP len div of_nat PGSIZE) True))
     (freewalk 3 pt)"

definition uvmcopy :: "uint64 \<Rightarrow> uint64 \<Rightarrow> uint64 \<Rightarrow> ('z kmem_scheme, int) kern" where
  "uvmcopy old new len =
     Do (for_find (page_steps 0 len) (\<lambda>i.
       Do (walk old i False) (\<lambda>pte.
       if pte = 0 then return None else
       Do (gets (\<lambda>s. rd64 (mem s) pte)) (\<lambda>e.
       if e AND PTE_V = 0 then return None else
       Do kalloc (\<lambda>p.
       if p = 0 then return (Some i) else
       Seq (upd_mem (\<lambda>m. memmove m p (PTE2PA e) PGSIZE)) (
       Do (mappages new i (of_nat PGSIZE) p (PTE_FLAGS e)) (\<lambda>r.
       if r \<noteq> 0 then Seq (kfree p) (return (Some i))
       else return None)))))))
     (\<lambda>r. case r of
        None \<Rightarrow> return 0
      | Some i \<Rightarrow> Seq (uvmunmap new 0 (i div of_nat PGSIZE) True) (return (- 1)))"

definition uvmclear :: "uint64 \<Rightarrow> uint64 \<Rightarrow> ('z kmem_scheme, unit) kern" where
  "uvmclear pt va =
     Do (walk pt va False) (\<lambda>pte.
     if pte = 0 then panic ''uvmclear'' else
     upd_mem (\<lambda>m. wr64 pte (rd64 m pte AND NOT PTE_U) m))"

definition ismapped :: "uint64 \<Rightarrow> uint64 \<Rightarrow> ('z kmem_scheme, bool) kern" where
  "ismapped pt va =
     Do (walk pt va False) (\<lambda>pte.
     if pte = 0 then return False else
     gets (\<lambda>s. rd64 (mem s) pte AND PTE_V \<noteq> 0))"

definition vmfault :: "uint64 \<Rightarrow> uint64 \<Rightarrow> ('z kmem_scheme, uint64) kern" where
  "vmfault pt va =
     Do cur (\<lambda>p.
     Do (gets (\<lambda>s. procs s p)) (\<lambda>pr.
     if va \<ge> sz pr then return 0 else
     let va = PGROUNDDOWN va in
     Do (ismapped pt va) (\<lambda>mapped.
     if mapped then return 0 else
     Do kalloc (\<lambda>p.
     if p = 0 then return 0 else
     Seq (upd_mem (\<lambda>m. memset m p 0 PGSIZE)) (
     Do (mappages (pagetable pr) va (of_nat PGSIZE) p (PTE_W OR PTE_U OR PTE_R)) (\<lambda>r.
     if r \<noteq> 0 then Seq (kfree p) (return 0) else return p))))))"

section \<open>Copying between the kernel and user memory\<close>

text \<open>The bytes left in the page from \<open>va\<close> on, but no more than are wanted.\<close>

definition chunk :: "uint64 \<Rightarrow> nat \<Rightarrow> nat" where
  "chunk va len = (let n = PGSIZE - unat (va - PGROUNDDOWN va) in if n > len then len else n)"

lemma page_offset: "unat (va - PGROUNDDOWN va) < PGSIZE"
proof -
  have "PGROUNDDOWN va \<le> va" by (simp add: word_le_nat_alt unat_PGROUNDDOWN)
  then have "unat (va - PGROUNDDOWN va) = unat va mod PGSIZE"
    by (simp add: unat_sub unat_PGROUNDDOWN)
  then show ?thesis by simp
qed

lemma chunk_pos: "0 < len \<Longrightarrow> 0 < chunk va len"
  using page_offset [of va] by (simp add: chunk_def Let_def)

function copyout :: "uint64 \<Rightarrow> uint64 \<Rightarrow> byte list \<Rightarrow> ('z kmem_scheme, int) kern" where
  "copyout pt dstva src =
     (if src = [] then return 0 else
      let va0 = PGROUNDDOWN dstva in
      if va0 \<ge> MAXVA then return (- 1) else
      Do (walkaddr pt va0) (\<lambda>pa.
      Do (if pa = 0 then vmfault pt va0 else return pa) (\<lambda>pa0.
      if pa0 = 0 then return (- 1) else
      Do (walk pt va0 False) (\<lambda>pte.
      Do (gets (\<lambda>s. rd64 (mem s) pte)) (\<lambda>e.
      if e AND PTE_W = 0 then return (- 1) else
      Seq (upd_mem (mem_fill (pa0 + (dstva - va0)) (take (chunk dstva (length src)) src)))
      (copyout pt (va0 + of_nat PGSIZE) (drop (chunk dstva (length src)) src)))))))"
  by auto

termination copyout
  by (relation "measure (\<lambda>(_, _, src). length src)") (auto simp: chunk_pos)

declare copyout.simps [simp del]

function copyin :: "uint64 \<Rightarrow> uint64 \<Rightarrow> nat \<Rightarrow> ('z kmem_scheme, int \<times> byte list) kern" where
  "copyin pt srcva len =
     (if len = 0 then return (0, []) else
      let va0 = PGROUNDDOWN srcva; n = chunk srcva len in
      Do (walkaddr pt va0) (\<lambda>pa.
      Do (if pa = 0 then vmfault pt va0 else return pa) (\<lambda>pa0.
      if pa0 = 0 then return (- 1, []) else
      Do (gets (\<lambda>s. mem_read (mem s) (pa0 + (srcva - va0)) n)) (\<lambda>bs.
      Do (copyin pt (va0 + of_nat PGSIZE) (len - n)) (\<lambda>(r, rest).
      return (r, bs @ rest))))))"
  by auto

termination copyin
  by (relation "measure (\<lambda>(_, _, len). len)") (auto simp: chunk_pos)

declare copyin.simps [simp del]

text \<open>The inner loop of \<open>copyinstr\<close>: the bytes before a NUL among the next \<open>n\<close>, and whether there
  was one.\<close>

primrec copyinstr_page :: "mem \<Rightarrow> uint64 \<Rightarrow> nat \<Rightarrow> byte list \<times> bool" where
  "copyinstr_page m p 0 = ([], False)"
| "copyinstr_page m p (Suc n) =
     (if m p = 0 then ([], True)
      else (case copyinstr_page m (p + 1) n of (bs, got_null) \<Rightarrow> (m p # bs, got_null)))"

function copyinstr :: "uint64 \<Rightarrow> uint64 \<Rightarrow> nat \<Rightarrow> ('z kmem_scheme, byte list option) kern" where
  "copyinstr pt srcva maxlen =
     (if maxlen = 0 then return None else
      let va0 = PGROUNDDOWN srcva; n = chunk srcva maxlen in
      Do (walkaddr pt va0) (\<lambda>pa0.
      if pa0 = 0 then return None else
      Do (gets (\<lambda>s. copyinstr_page (mem s) (pa0 + (srcva - va0)) n)) (\<lambda>r.
      if snd r then return (Some (fst r))
      else Do (copyinstr pt (va0 + of_nat PGSIZE) (maxlen - n)) (\<lambda>q.
        return (case q of None \<Rightarrow> None | Some rest \<Rightarrow> Some (fst r @ rest))))))"
  by auto

termination copyinstr
  by (relation "measure (\<lambda>(_, _, maxlen). maxlen)") (auto simp: chunk_pos)

declare copyinstr.simps [simp del]

end
