(* ===== verification/Ring.thy ===== *)
theory Ring
  imports Prelude
begin

text \<open>
  Ring buffers addressed by free-running 32-bit counters, the scheme of the console input buffer
  and of pipes: the slot of counter \<open>c\<close> is \<open>c % N\<close>, and the buffer holds \<open>w - r\<close> bytes, both
  modulo \<open>2 ^ 32\<close>. That this works when the counters wrap needs \<open>N\<close> to divide \<open>2 ^ 32\<close>, which is
  the assumption of the locale. Its two lemmas are all that the clients use: a push appends at the
  end of the contents, a pop removes the head.
\<close>

locale ring =
  fixes N :: nat
  assumes size_pos: "0 < N" and size_dvd: "N dvd 2 ^ 32"

definition ring_contents :: "nat \<Rightarrow> (nat \<Rightarrow> byte) \<Rightarrow> uint \<Rightarrow> uint \<Rightarrow> byte list" where
  "ring_contents N buf r w = map (\<lambda>i. buf (unat (r + of_nat i) mod N)) [0..<unat (w - r)]"

lemma length_ring_contents [simp]: "length (ring_contents N buf r w) = unat (w - r)"
  by (simp add: ring_contents_def)

lemma ring_empty [simp]: "ring_contents N buf r r = []"
  by (simp add: ring_contents_def)

lemma unat_uint_less: "unat (x :: uint) < 2 ^ 32"
  using unsigned_less [of x, where ?'a = nat] by simp

lemma ring_pop:
  assumes "r \<noteq> w"
  shows "ring_contents N buf r w = buf (unat r mod N) # ring_contents N buf (r + 1) w"
proof -
  have "unat (w - r) = Suc (unat (w - (r + 1)))"
    using assms unat_minus_one [of "w - r"] by (simp add: diff_diff_eq unat_gt_0)
  then have "[0..<unat (w - r)] = 0 # map Suc [0..<unat (w - (r + 1))]"
    by (simp add: map_Suc_upt upt_conv_Cons del: upt_Suc)
  then show ?thesis by (simp add: ring_contents_def add.assoc)
qed

lemma ring_unpush:
  assumes "r \<noteq> w"
  shows "ring_contents N buf r (w - 1) = butlast (ring_contents N buf r w)"
proof -
  have "unat (w - 1 - r) = unat (w - r) - 1"
    using assms unat_minus_one [of "w - r"] by (simp add: diff_right_commute)
  then show ?thesis by (simp add: ring_contents_def butlast_conv_take take_map)
qed

lemma ring_split:
  assumes "unat (w - r) + unat (e - w) < 2 ^ 32"
  shows "unat (e - r) = unat (w - r) + unat (e - w)"
    and "ring_contents N buf r e = ring_contents N buf r w @ ring_contents N buf w e"
proof -
  have len: "unat (e - r) = unat (w - r) + unat (e - w)"
    using assms unat_add_small [of "w - r" "e - w"] by simp
  then show "unat (e - r) = unat (w - r) + unat (e - w)" .
  have "[0..<unat (e - r)] = [0..<unat (w - r)] @ map (\<lambda>i. i + unat (w - r)) [0..<unat (e - w)]"
    unfolding len map_add_upt by (subst upt_add_eq_append) (simp_all add: add.commute)
  moreover have "r + of_nat (i + unat (w - r)) = w + of_nat i" for i by (simp add: algebra_simps)
  ultimately show "ring_contents N buf r e = ring_contents N buf r w @ ring_contents N buf w e"
    by (simp add: ring_contents_def del: of_nat_add)
qed

context ring
begin

lemma slot_shift: "unat (r + of_nat i :: uint) mod N = (unat r + i) mod N"
proof -
  have "unat (r + of_nat i :: uint) = (unat r + i) mod 2 ^ 32"
    by (simp add: unat_word_ariths unat_of_nat mod_simps)
  then show ?thesis using mod_mod_cancel [OF size_dvd, of "unat r + i"] by simp
qed

lemma slots_distinct:
  assumes "i < j" and "j < i + N"
  shows "unat (r + of_nat i :: uint) mod N \<noteq> unat (r + of_nat j) mod N"
proof
  assume "unat (r + of_nat i) mod N = unat (r + of_nat j) mod N"
  then have "(unat r + j) mod N = (unat r + i) mod N" by (simp add: slot_shift)
  then have "N dvd (unat r + j) - (unat r + i)"
    using assms(1) by (simp add: mod_eq_dvd_iff_nat)
  then have "N \<le> j - i" using assms(1) by (auto dest: dvd_imp_le)
  with assms show False by simp
qed

lemma push:
  assumes "unat (w - r) < N" and "unat (w - r) + 1 < 2 ^ 32"
  shows "ring_contents N (buf(unat w mod N := x)) r (w + 1) = ring_contents N buf r w @ [x]"
proof -
  let ?n = "unat (w - r)"
  have w: "w = r + of_nat ?n" by simp
  have "unat (w + 1 - r) = Suc ?n"
    using assms(2) unat_add_small [of "w - r" 1] by (simp add: add_diff_eq diff_add_eq)
  moreover have "unat (r + of_nat i) mod N \<noteq> unat w mod N" if "i < ?n" for i
    using slots_distinct [of i ?n r] that assms(1) w by simp
  ultimately show ?thesis
    using w by (simp add: ring_contents_def)
qed

end

end
