(* ===== verification/Printf.thy ===== *)
theory Printf
  imports Vm Ring
begin

text \<open>
  The serial port (\<open>kernel/uart.c\<close>) and formatted kernel output (\<open>kernel/printf.c\<close>).

  The 16550 chip is modelled by what software sees of it: its control registers, whether the
  transmitter is idle, the bytes that wait to be read, and the sequence of bytes handed to the
  transmitter so far. Characters are bytes; \<open>consputc\<close> and \<open>uartputc_sync\<close> take the \<open>int\<close> of the
  source and the chip keeps its low eight bits. A wait for the transmitter that finds it busy is
  the outcome \<open>Hang\<close>: no step of this CPU ends it.
\<close>

section \<open>State\<close>

record uart = kvm +
  uart_regs :: "nat \<Rightarrow> byte"
  uart_idle :: bool
  uart_in :: "byte list"
  uart_out :: "byte list"
  tx_busy :: bool
  panicking :: bool
  panicked :: bool

definition THR :: nat where "THR = 0"
definition IER :: nat where "IER = 1"
definition FCR :: nat where "FCR = 2"
definition LCR :: nat where "LCR = 3"

definition IER_RX_ENABLE :: byte where "IER_RX_ENABLE = 1"
definition IER_TX_ENABLE :: byte where "IER_TX_ENABLE = 2"
definition FCR_FIFO_ENABLE :: byte where "FCR_FIFO_ENABLE = 1"
definition FCR_FIFO_CLEAR :: byte where "FCR_FIFO_CLEAR = 6"
definition LCR_EIGHT_BITS :: byte where "LCR_EIGHT_BITS = 3"
definition LCR_BAUD_LATCH :: byte where "LCR_BAUD_LATCH = 0x80"

text \<open>A write to register 0 transmits a byte unless the baud-rate latch is selected.\<close>

definition WriteReg :: "nat \<Rightarrow> byte \<Rightarrow> ('z uart_scheme, unit) kern" where
  "WriteReg reg v =
     modify (\<lambda>s. if reg = THR \<and> uart_regs s LCR AND LCR_BAUD_LATCH = 0
       then s\<lparr>uart_out := uart_out s @ [v]\<rparr>
       else s\<lparr>uart_regs := (uart_regs s)(reg := v)\<rparr>)"

definition uartinit :: "('z uart_scheme, unit) kern" where
  "uartinit =
     Seq (WriteReg IER 0) (
     Seq (WriteReg LCR LCR_BAUD_LATCH) (
     Seq (WriteReg 0 3) (
     Seq (WriteReg 1 0) (
     Seq (WriteReg LCR LCR_EIGHT_BITS) (
     Seq (WriteReg FCR (FCR_FIFO_ENABLE OR FCR_FIFO_CLEAR)) (
     Seq (WriteReg IER (IER_TX_ENABLE OR IER_RX_ENABLE))
     (initlock TxLock ''uart'')))))))"

section \<open>Output\<close>

text \<open>\<open>uartwrite_loop\<close> is entered with \<open>tx_lock\<close> held; a thread that slept in it runs \<open>sleep_resume\<close>
  and enters it again with the bytes not yet sent.\<close>

primrec uartwrite_loop :: "byte list \<Rightarrow> ('z uart_scheme, unit) kern" where
  "uartwrite_loop [] = release TxLock"
| "uartwrite_loop (c # cs) =
     Do (gets tx_busy) (\<lambda>busy.
     if busy then sleep TxChan TxLock else
     Seq (WriteReg THR c) (
     Seq (modify (\<lambda>s. s\<lparr>tx_busy := True\<rparr>))
     (uartwrite_loop cs)))"

definition uartwrite :: "byte list \<Rightarrow> ('z uart_scheme, unit) kern" where
  "uartwrite buf = Seq (acquire TxLock) (uartwrite_loop buf)"

definition uartputc_sync :: "uint \<Rightarrow> ('z uart_scheme, unit) kern" where
  "uartputc_sync c =
     Do (gets panicking) (\<lambda>pk.
     Seq (kwhen (\<not> pk) push_off) (
     Do (gets panicked) (\<lambda>pd.
     if pd then stop Hang else
     Do (gets uart_idle) (\<lambda>idle.
     if \<not> idle then stop Hang else
     Seq (WriteReg THR (ucast c)) (
     Do (gets panicking) (\<lambda>pk.
     kwhen (\<not> pk) pop_off))))))"

definition uartgetc :: "('z uart_scheme, byte option) kern" where
  "uartgetc =
     Do (gets uart_in) (\<lambda>q. case q of
       [] \<Rightarrow> return None
     | c # cs \<Rightarrow> Seq (modify (\<lambda>s. s\<lparr>uart_in := cs\<rparr>)) (return (Some c)))"

definition BACKSPACE :: uint where "BACKSPACE = 0x100"

definition consputc :: "uint \<Rightarrow> ('z uart_scheme, unit) kern" where
  "consputc c =
     (if c = BACKSPACE
      then Seq (uartputc_sync 8) (Seq (uartputc_sync 32) (uartputc_sync 8))
      else uartputc_sync c)"

section \<open>Numbers\<close>

definition digits :: "nat \<Rightarrow> byte" where
  "digits i = of_char (''0123456789abcdef'' ! i)"

text \<open>The digits of \<open>x\<close>, least significant first: the do-while loop of \<open>printint\<close>, which fills
  \<open>buf\<close> from index 0. The callers pass base 10 or 16; with a base below 2 the loop of the source
  would not end.\<close>

function digit_loop :: "nat \<Rightarrow> nat \<Rightarrow> byte list" where
  "digit_loop base x =
     digits (x mod base) # (if x div base = 0 \<or> base < 2 then [] else digit_loop base (x div base))"
  by auto

termination digit_loop
  by (relation "measure snd") (auto simp: div_greater_zero_iff)

declare digit_loop.simps [simp del]

definition printint_buf :: "uint64 \<Rightarrow> nat \<Rightarrow> bool \<Rightarrow> byte list" where
  "printint_buf xx base sign =
     (let neg = (sign \<and> sint xx < 0);
          x = (if neg then - xx else xx)
      in digit_loop base (unat x) @ (if neg then [of_char (CHR ''-'')] else []))"

definition printint :: "uint64 \<Rightarrow> nat \<Rightarrow> bool \<Rightarrow> ('z uart_scheme, unit) kern" where
  "printint xx base sign = for_each (rev (printint_buf xx base sign)) (\<lambda>c. consputc (ucast c))"

primrec printptr_loop :: "nat \<Rightarrow> uint64 \<Rightarrow> ('z uart_scheme, unit) kern" where
  "printptr_loop 0 x = skip"
| "printptr_loop (Suc n) x =
     Seq (consputc (ucast (digits (unat (drop_bit (8 * 8 - 4) x)))))
     (printptr_loop n (push_bit 4 x))"

definition printptr :: "uint64 \<Rightarrow> ('z uart_scheme, unit) kern" where
  "printptr x =
     Seq (consputc (of_char (CHR ''0''))) (
     Seq (consputc (of_char (CHR ''x'')))
     (printptr_loop (8 * 2) x))"

section \<open>printf\<close>

text \<open>The arguments after the format: integers as the 64-bit register that carries them, strings as
  their bytes, or nothing for a null pointer.\<close>

datatype varg = VInt uint64 | VStr "byte list option"

fun va_int :: "varg list \<Rightarrow> (uint64 \<Rightarrow> ('s, unit) kern) \<Rightarrow> ('s, unit) kern" where
  "va_int (VInt x # ap) k = k x"
| "va_int ap k = stop (Fault ''va_arg'')"

fun va_str :: "varg list \<Rightarrow> (byte list \<Rightarrow> ('s, unit) kern) \<Rightarrow> ('s, unit) kern" where
  "va_str (VStr None # ap) k = k (map of_char ''(null)'')"
| "va_str (VStr (Some bs) # ap) k = k bs"
| "va_str ap k = stop (Fault ''va_arg'')"

definition char_at :: "byte list \<Rightarrow> nat \<Rightarrow> byte" where
  "char_at xs i = (if i < length xs then xs ! i else 0)"

abbreviation ch :: "char \<Rightarrow> byte" where
  "ch c \<equiv> of_char c"

text \<open>The loop over the format, which stands for its remaining characters: after a conversion it
  continues behind the characters the conversion used.\<close>

function printf_loop :: "byte list \<Rightarrow> varg list \<Rightarrow> ('z uart_scheme, unit) kern" where
  "printf_loop [] ap = skip"
| "printf_loop (cx # fmt) ap =
     (if cx \<noteq> ch CHR ''%'' then Seq (consputc (ucast cx)) (printf_loop fmt ap) else
      let c0 = char_at fmt 0;
          c1 = (if c0 \<noteq> 0 then char_at fmt 1 else 0);
          c2 = (if c1 \<noteq> 0 then char_at fmt 2 else 0)
      in
      if c0 = ch CHR ''d'' then
        Seq (va_int ap (\<lambda>x. printint (scast (ucast x :: 32 word)) 10 True)) (printf_loop (drop 1 fmt) (tl ap))
      else if c0 = ch CHR ''l'' \<and> c1 = ch CHR ''d'' then
        Seq (va_int ap (\<lambda>x. printint x 10 True)) (printf_loop (drop 2 fmt) (tl ap))
      else if c0 = ch CHR ''l'' \<and> c1 = ch CHR ''l'' \<and> c2 = ch CHR ''d'' then
        Seq (va_int ap (\<lambda>x. printint x 10 True)) (printf_loop (drop 3 fmt) (tl ap))
      else if c0 = ch CHR ''u'' then
        Seq (va_int ap (\<lambda>x. printint (ucast (ucast x :: 32 word)) 10 False)) (printf_loop (drop 1 fmt) (tl ap))
      else if c0 = ch CHR ''l'' \<and> c1 = ch CHR ''u'' then
        Seq (va_int ap (\<lambda>x. printint x 10 False)) (printf_loop (drop 2 fmt) (tl ap))
      else if c0 = ch CHR ''l'' \<and> c1 = ch CHR ''l'' \<and> c2 = ch CHR ''u'' then
        Seq (va_int ap (\<lambda>x. printint x 10 False)) (printf_loop (drop 3 fmt) (tl ap))
      else if c0 = ch CHR ''x'' then
        Seq (va_int ap (\<lambda>x. printint (ucast (ucast x :: 32 word)) 16 False)) (printf_loop (drop 1 fmt) (tl ap))
      else if c0 = ch CHR ''l'' \<and> c1 = ch CHR ''x'' then
        Seq (va_int ap (\<lambda>x. printint x 16 False)) (printf_loop (drop 2 fmt) (tl ap))
      else if c0 = ch CHR ''l'' \<and> c1 = ch CHR ''l'' \<and> c2 = ch CHR ''x'' then
        Seq (va_int ap (\<lambda>x. printint x 16 False)) (printf_loop (drop 3 fmt) (tl ap))
      else if c0 = ch CHR ''p'' then
        Seq (va_int ap printptr) (printf_loop (drop 1 fmt) (tl ap))
      else if c0 = ch CHR ''c'' then
        Seq (va_int ap (\<lambda>x. consputc (ucast x))) (printf_loop (drop 1 fmt) (tl ap))
      else if c0 = ch CHR ''s'' then
        Seq (va_str ap (\<lambda>str. for_each str (\<lambda>c. consputc (ucast c)))) (printf_loop (drop 1 fmt) (tl ap))
      else if c0 = ch CHR ''%'' then
        Seq (consputc (of_char (CHR ''%''))) (printf_loop (drop 1 fmt) ap)
      else if c0 = 0 then skip
      else
        Seq (consputc (of_char (CHR ''%''))) (
        Seq (consputc (ucast c0)) (printf_loop (drop 1 fmt) ap)))"
  by pat_completeness auto

termination printf_loop
  by (relation "measure (\<lambda>(fmt, _). length fmt)") auto

declare printf_loop.simps [simp del]

definition printf :: "string \<Rightarrow> varg list \<Rightarrow> ('z uart_scheme, int) kern" where
  "printf fmt ap =
     Do (gets panicking) (\<lambda>pk.
     Seq (kwhen (\<not> pk) (acquire PrLock)) (
     Seq (printf_loop (map of_char fmt) ap) (
     Do (gets panicking) (\<lambda>pk.
     Seq (kwhen (\<not> pk) (release PrLock)) (
     return 0)))))"

definition printfinit :: "('z mach_scheme, unit) kern" where
  "printfinit = initlock PrLock ''pr''"

text \<open>\<open>panic\<close> itself. Elsewhere in the development a call of \<open>panic\<close> is the outcome \<open>Panic\<close>, which
  leaves out the message on the console; \<open>panic_halts\<close> below shows that it never returns.\<close>

definition panic_call :: "string \<Rightarrow> ('z uart_scheme, unit) kern" where
  "panic_call msg =
     Seq (modify (\<lambda>s. s\<lparr>panicking := True\<rparr>)) (
     Seq (printf ''panic: '' []) (
     Seq (printf ''%s\<newline>'' [VStr (Some (map of_char msg))]) (
     Seq (modify (\<lambda>s. s\<lparr>panicked := True\<rparr>))
     (stop Hang))))"

section \<open>Numbers are printed correctly\<close>

text \<open>The value of a digit and of a digit string, least significant first.\<close>

definition digit_val :: "byte \<Rightarrow> nat" where
  "digit_val d = (if d \<le> of_char (CHR ''9'') then unat d - 48 else unat d - 97 + 10)"

definition digits_val :: "nat \<Rightarrow> byte list \<Rightarrow> nat" where
  "digits_val base ds = foldr (\<lambda>d v. digit_val d + base * v) ds 0"

lemma digit_val_digits: "i < 16 \<Longrightarrow> digit_val (digits i) = i"
proof -
  assume "i < 16"
  then have "i \<in> set [0..<16]" by simp
  moreover have "list_all (\<lambda>i. digit_val (digits i) = i) [0..<16]" by code_simp
  ultimately show ?thesis unfolding list_all_iff by blast
qed

lemma digits_val_loop:
  "2 \<le> base \<Longrightarrow> base \<le> 16 \<Longrightarrow> digits_val base (digit_loop base x) = x"
proof (induction base x rule: digit_loop.induct)
  case (1 base x)
  have "digit_val (digits (x mod base)) = x mod base"
    using 1(2,3) mod_less_divisor [of base x] by (intro digit_val_digits) linarith
  with 1 show ?case
    by (subst digit_loop.simps) (auto simp: digits_val_def div_eq_0_iff)
qed

lemma length_digit_loop:
  "2 \<le> base \<Longrightarrow> x < base ^ Suc n \<Longrightarrow> length (digit_loop base x) \<le> Suc n"
proof (induction n arbitrary: x)
  case 0
  then show ?case by (subst digit_loop.simps) (simp add: div_eq_0_iff)
next
  case (Suc n)
  then have "x div base < base ^ Suc n" by (simp add: less_mult_imp_div_less mult.commute)
  with Suc show ?case by (subst digit_loop.simps) auto
qed

lemma sint_cases: "sint (x :: uint64) = (if uint x < 2 ^ 63 then uint x else uint x - 2 ^ 64)"
proof -
  have u: "0 \<le> uint x" "uint x < 2 ^ 64" using uint_lt2p [of x] by simp_all
  have "sint x = (uint x + 2 ^ 63) mod 2 ^ 64 - 2 ^ 63"
    by (simp add: sint_uint signed_take_bit_eq_take_bit_shift take_bit_eq_mod)
  moreover have "(uint x + 2 ^ 63) mod 2 ^ 64 = (if uint x < 2 ^ 63 then uint x + 2 ^ 63 else uint x - 2 ^ 63)"
  proof (cases "uint x < 2 ^ 63")
    case False
    have "(uint x + 2 ^ 63) mod 2 ^ 64 = (uint x - 2 ^ 63 + 2 ^ 64) mod 2 ^ 64" by (simp add: add.commute)
    also have "\<dots> = (uint x - 2 ^ 63) mod 2 ^ 64" by (rule mod_add_self2)
    also have "\<dots> = uint x - 2 ^ 63" using u False by (intro mod_pos_pos_trivial) auto
    finally show ?thesis using False by simp
  qed (use u in simp)
  ultimately show ?thesis by simp
qed

lemma printint_magnitude:
  assumes neg: "sint (xx :: uint64) < 0"
  shows "unat (- xx) \<le> 2 ^ 63 \<and> int (unat (- xx)) = - sint xx"
proof -
  have u: "2 ^ 63 \<le> uint xx" "uint xx < 2 ^ 64" "sint xx = uint xx - 2 ^ 64"
    using neg uint_lt2p [of xx] by (auto simp: sint_cases split: if_splits)
  have "uint (- xx) = (- uint xx) mod 2 ^ 64" by (simp add: uint_word_ariths)
  also have "\<dots> = 2 ^ 64 - uint xx" using u by (simp add: zmod_zminus1_eq_if)
  finally show ?thesis using u by (simp add: unat_eq_nat_uint)
qed



section \<open>Output\<close>

text \<open>The conditions under which polled output succeeds: the chip is idle and set up, and no CPU has
  finished a panic.\<close>

definition uart_ready :: "'z uart_scheme \<Rightarrow> bool" where
  "uart_ready s \<longleftrightarrow> uart_idle s \<and> \<not> panicked s \<and> uart_regs s LCR AND LCR_BAUD_LATCH = 0 \<and>
     (panicking s \<or> settled (mycpu s))"

definition out :: "byte list \<Rightarrow> 'z uart_scheme \<Rightarrow> 'z uart_scheme" where
  "out bs s = s\<lparr>uart_out := uart_out s @ bs\<rparr>"

lemma out_simps [simp]:
  "out [] s = s" "out bs (out cs s) = out (cs @ bs) s" "uart_ready (out bs s) = uart_ready s"
  "panicking (out bs s) = panicking s" "mycpu (out bs s) = mycpu s" "lk_free (out bs s) lk = lk_free s lk"
  by (simp_all add: out_def uart_ready_def mycpu_def lk_free_def)

lemma push_pop_out:
  assumes "settled (mycpu s)"
  shows "pop_off (out bs (upd_mycpu pushed s)) = Done () (out bs s)"
proof -
  have "\<not> ints_on (mycpu (out bs (upd_mycpu pushed s)))" "0 < noff (mycpu (out bs (upd_mycpu pushed s)))"
    using assms by (auto simp: mycpu_def upd_mycpu_def out_def dest: settled_nonneg)
  then show ?thesis
    using assms by (simp add: pop_off_eq upd_mycpu_def out_def mycpu_def popped_pushed)
qed

lemma uartputc_eq:
  assumes "uart_ready s"
  shows "uartputc_sync c s = Done () (out [ucast c] s)"
proof (cases "panicking s")
  case True
  with assms show ?thesis
    by (simp add: uartputc_sync_def Do_def gets_def return_def uart_ready_def WriteReg_def modify_def out_def)
next
  case False
  with assms push_pop_out [of s "[ucast c]"] show ?thesis
    by (simp add: uartputc_sync_def Do_def gets_def return_def uart_ready_def WriteReg_def modify_def
        push_off_eq out_def upd_mycpu_def)
qed

definition echo :: "uint \<Rightarrow> byte list" where
  "echo c = (if c = BACKSPACE then [8, 32, 8] else [ucast c])"

lemma consputc_eq: "uart_ready s \<Longrightarrow> consputc c s = Done () (out (echo c) s)"
  by (simp add: consputc_def echo_def Do_def uartputc_eq)

lemma puts_eq:
  "uart_ready s \<Longrightarrow> for_each str (\<lambda>c. consputc (ucast c)) s = Done () (out str s)"
proof (induction str arbitrary: s)
  case Nil
  then show ?case by (simp add: return_def)
next
  case (Cons c str)
  have "ucast c \<noteq> BACKSPACE"
  proof
    have c: "unat c < 256" using unsigned_less [of c, where ?'a = nat] by simp
    assume "ucast c = BACKSPACE"
    then have "unat (ucast c :: uint) = 256" by (simp add: BACKSPACE_def)
    moreover have "unat (ucast c :: uint) = unat c" 
      using c take_bit_nat_eq_self [of "unat c" 32] by (simp add: unsigned_ucast_eq)
    ultimately show False using c by simp
  qed
  moreover have "ucast (ucast c :: uint) = c" by (rule bit_word_eqI) (auto simp: bit_simps)
  ultimately show ?case using Cons by (simp add: Do_def consputc_eq echo_def)
qed

lemma printf_plain:
  "uart_ready s \<Longrightarrow> ch CHR ''%'' \<notin> set fmt \<Longrightarrow> printf_loop (fmt @ rest) ap s = printf_loop rest ap (out fmt s)"
proof (induction fmt arbitrary: s)
  case Nil
  then show ?case by simp
next
  case (Cons c fmt)
  have "consputc (ucast c) s = Done () (out [c] s)"
    using puts_eq [of s "[c]"] Cons.prems(1) by (simp add: Do_def return_def split: res.splits)
  with Cons show ?case by (simp add: printf_loop.simps Do_def)
qed

lemma printf_string:
  assumes "uart_ready s"
  shows "printf_loop (ch CHR ''%'' # ch CHR ''s'' # rest) (VStr (Some str) # ap) s = printf_loop rest ap (out str s)"
  using assms by (subst printf_loop.simps) (simp add: char_at_def Let_def Do_def puts_eq)


section \<open>A machine with a working console\<close>

definition kvm0 :: kvm where
  "kvm0 = kmem.extend kmem_boot (kvm.fields 0 0x80008000 0x80007000)"

definition uart0 :: uart where
  "uart0 = kvm.extend kvm0 (uart.fields (\<lambda>_. 0) True [] [] False False False)"

lemma uart0_proj [simp]:
  "tp uart0 = tp sched0" "cpus uart0 = cpus sched0" "locks uart0 = locks sched0" "procs uart0 = procs sched0"
  "uart_out uart0 = []" "uart_in uart0 = []" "uart_idle uart0" "\<not> panicked uart0" "\<not> panicking uart0"
  "uart_regs uart0 r = 0" "\<not> tx_busy uart0"
  by (simp_all add: uart0_def kvm0_def kmem_boot_def kmem.defs kvm.defs uart.defs sched.defs)

lemma quiet_uart0: "quiet uart0"
  using quiet_sched0 by (simp add: quiet_def mycpu_def lk_free_def)

lemma uart_ready_uart0: "uart_ready uart0"
  using quiet_uart0 by (simp add: uart_ready_def quiet_def)


end
