(* ===== verification/Console.thy ===== *)
theory Console
  imports Printf
begin

text \<open>
  The console (\<open>kernel/console.c\<close>), the interrupt handler of the serial port and the process
  listing of \<open>kernel/proc.c\<close> that control-P prints. The input buffer is a ring with three counters:
  bytes from \<open>r\<close> to \<open>w\<close> are complete lines waiting for a reader, bytes from \<open>w\<close> to \<open>e\<close> are the
  line being edited. The refinement at the end states line editing on two plain lists.
\<close>

section \<open>Copying to and from kernel or user memory\<close>

definition either_copyout :: "bool \<Rightarrow> uint64 \<Rightarrow> byte list \<Rightarrow> ('z kmem_scheme, int) kern" where
  "either_copyout user_dst dst src =
     Do myproc (\<lambda>p.
     if user_dst then
       (case p of None \<Rightarrow> stop (Fault ''either_copyout'')
        | Some i \<Rightarrow> Do (gets (\<lambda>s. pagetable (procs s i))) (\<lambda>pt. copyout pt dst src))
     else Seq (upd_mem (mem_fill dst src)) (return 0))"

definition either_copyin :: "bool \<Rightarrow> uint64 \<Rightarrow> nat \<Rightarrow> ('z kmem_scheme, int \<times> byte list) kern" where
  "either_copyin user_src src len =
     Do myproc (\<lambda>p.
     if user_src then
       (case p of None \<Rightarrow> stop (Fault ''either_copyin'')
        | Some i \<Rightarrow> Do (gets (\<lambda>s. pagetable (procs s i))) (\<lambda>pt. copyin pt src len))
     else gets (\<lambda>s. (0, mem_read (mem s) src len)))"

section \<open>Process listing\<close>

definition state_name :: "procstate \<Rightarrow> string" where
  "state_name st = (case st of UNUSED \<Rightarrow> ''unused'' | USED \<Rightarrow> ''used'' | SLEEPING \<Rightarrow> ''sleep ''
     | RUNNABLE \<Rightarrow> ''runble'' | RUNNING \<Rightarrow> ''run   '' | ZOMBIE \<Rightarrow> ''zombie'')"

definition procdump :: "('z uart_scheme, unit) kern" where
  "procdump =
     Seq (printf ''\<newline>'' []) (
     for_each [0..<NPROC] (\<lambda>p.
       Do (gets (\<lambda>s. procs s p)) (\<lambda>q.
       if pstate q = UNUSED then skip else
       Seq (printf ''%d %s %s'' [VInt (ucast (pid q)), VStr (Some (map of_char (state_name (pstate q)))),
              VStr (Some (pname q))]) (
       Seq (printf ''\<newline>'' []) skip))))"

section \<open>State\<close>

definition INPUT_BUF_SIZE :: nat where "INPUT_BUF_SIZE = 128"

definition ctrl :: "char \<Rightarrow> uint" where
  "ctrl x = of_char x - of_char (CHR ''@'')"

record cons = uart +
  cons_buf :: "nat \<Rightarrow> byte"
  cons_r :: uint
  cons_w :: uint
  cons_e :: uint

section \<open>Writing\<close>

text \<open>\<open>consolewrite\<close> sends at most 32 bytes at a time. A thread that sleeps in \<open>uartwrite\<close> continues
  there and then with \<open>consolewrite_loop\<close> behind the bytes sent.\<close>

function consolewrite_loop :: "bool \<Rightarrow> uint64 \<Rightarrow> nat \<Rightarrow> nat \<Rightarrow> ('z uart_scheme, int) kern" where
  "consolewrite_loop user_src src i n =
     (if i < n then
        let nn = (if 32 > n - i then n - i else 32) in
        Do (either_copyin user_src (src + of_nat i) nn) (\<lambda>(r, buf).
        if r = - 1 then return (int i)
        else Seq (uartwrite buf) (consolewrite_loop user_src src (i + nn) n))
      else return (int i))"
  by auto

termination consolewrite_loop
  by (relation "measure (\<lambda>(_, _, i, n). n - i)") auto

declare consolewrite_loop.simps [simp del]

definition consolewrite :: "bool \<Rightarrow> uint64 \<Rightarrow> int \<Rightarrow> ('z uart_scheme, int) kern" where
  "consolewrite user_src src n = consolewrite_loop user_src src 0 (nat n)"

section \<open>Reading\<close>

text \<open>The loop of \<open>consoleread\<close> with \<open>cons.lock\<close> held. A reader that slept runs \<open>sleep_resume\<close> and
  enters the loop again.\<close>

primrec consoleread_loop :: "bool \<Rightarrow> uint64 \<Rightarrow> nat \<Rightarrow> nat \<Rightarrow> ('z cons_scheme, int) kern" where
  "consoleread_loop user_dst dst 0 target = Seq (release ConsLock) (return (int target))"
| "consoleread_loop user_dst dst (Suc n) target =
     Do (gets (\<lambda>s. cons_r s = cons_w s)) (\<lambda>empty.
     if empty then
       Do cur (\<lambda>p.
       Do (killed p) (\<lambda>k.
       if k then Seq (release ConsLock) (return (- 1))
       else sleep ConsChan ConsLock))
     else
     Do (gets (\<lambda>s. cons_buf s (unat (cons_r s) mod INPUT_BUF_SIZE))) (\<lambda>c.
     Seq (modify (\<lambda>s. s\<lparr>cons_r := cons_r s + 1\<rparr>)) (
     if ucast c = ctrl CHR ''D'' then
       Seq (kwhen (Suc n < target) (modify (\<lambda>s. s\<lparr>cons_r := cons_r s - 1\<rparr>))) (
       Seq (release ConsLock) (
       return (int (target - Suc n))))
     else
     Do (either_copyout user_dst dst [c]) (\<lambda>r.
     if r = - 1 then Seq (release ConsLock) (return (int (target - Suc n)))
     else if c = 10 then Seq (release ConsLock) (return (int (target - n)))
     else consoleread_loop user_dst (dst + 1) n target))))"

definition consoleread :: "bool \<Rightarrow> uint64 \<Rightarrow> int \<Rightarrow> ('z cons_scheme, int) kern" where
  "consoleread user_dst dst n = Seq (acquire ConsLock) (consoleread_loop user_dst dst (nat n) (nat n))"

section \<open>The interrupt handler\<close>

text \<open>Control-U deletes back to the start of the line. The loop runs at most \<open>e - w\<close> times, the bound
  it is given.\<close>

primrec kill_line :: "nat \<Rightarrow> ('z cons_scheme, unit) kern" where
  "kill_line 0 = skip"
| "kill_line (Suc k) =
     Do (gets (\<lambda>s. cons_e s \<noteq> cons_w s \<and> cons_buf s (unat (cons_e s - 1) mod INPUT_BUF_SIZE) \<noteq> 10)) (\<lambda>go.
     if go then
       Seq (modify (\<lambda>s. s\<lparr>cons_e := cons_e s - 1\<rparr>)) (
       Seq (consputc BACKSPACE)
       (kill_line k))
     else skip)"

definition console_key :: "uint \<Rightarrow> ('z cons_scheme, unit) kern" where
  "console_key c =
     (if c = ctrl CHR ''P'' then procdump
      else if c = ctrl CHR ''U'' then
        Do (gets (\<lambda>s. unat (cons_e s - cons_w s))) kill_line
      else if c = ctrl CHR ''H'' \<or> c = 0x7f then
        Do (gets (\<lambda>s. cons_e s \<noteq> cons_w s)) (\<lambda>b.
        kwhen b (
          Seq (modify (\<lambda>s. s\<lparr>cons_e := cons_e s - 1\<rparr>))
          (consputc BACKSPACE)))
      else
        Do (gets (\<lambda>s. unat (cons_e s - cons_r s))) (\<lambda>used.
        kwhen (c \<noteq> 0 \<and> used < INPUT_BUF_SIZE) (
          let c = (if c = 13 then 10 else c) in
          Seq (consputc c) (
          Seq (modify (\<lambda>s. s\<lparr>cons_buf := (cons_buf s)(unat (cons_e s) mod INPUT_BUF_SIZE := ucast c),
                              cons_e := cons_e s + 1\<rparr>)) (
          Do (gets (\<lambda>s. unat (cons_e s - cons_r s) = INPUT_BUF_SIZE)) (\<lambda>full.
          kwhen (c = 10 \<or> c = ctrl CHR ''D'' \<or> full) (
            Seq (modify (\<lambda>s. s\<lparr>cons_w := cons_e s\<rparr>))
            (wakeup ConsChan))))))))"

definition consoleintr :: "uint \<Rightarrow> ('z cons_scheme, unit) kern" where
  "consoleintr c =
     Seq (acquire ConsLock) (
     Seq (console_key c)
     (release ConsLock))"

text \<open>The handler drains the chip's receive queue: one round per waiting byte.\<close>

primrec uartintr_input :: "byte list \<Rightarrow> ('z cons_scheme, unit) kern" where
  "uartintr_input [] = Do uartgetc (\<lambda>_. skip)"
| "uartintr_input (_ # waiting) =
     Do uartgetc (\<lambda>c. case c of
       None \<Rightarrow> skip
     | Some c \<Rightarrow> Seq (consoleintr (ucast c)) (uartintr_input waiting))"

definition uartintr :: "('z cons_scheme, unit) kern" where
  "uartintr =
     Seq (acquire TxLock) (
     Do (gets uart_idle) (\<lambda>idle.
     Seq (kwhen idle (
       Seq (modify (\<lambda>s. s\<lparr>tx_busy := False\<rparr>))
       (wakeup TxChan))) (
     Seq (release TxLock) (
     Do (gets uart_in) uartintr_input))))"

text \<open>\<open>consoleinit\<close>; the two entries of \<open>devsw\<close> it sets are fixed in the model of \<open>kernel/file.c\<close>.\<close>

definition consoleinit :: "('z uart_scheme, unit) kern" where
  "consoleinit = Seq (initlock ConsLock ''cons'') uartinit"

section \<open>Line editing\<close>

text \<open>
  Specification: the console holds the input that readers may take and the line being edited. A key
  changes the two and is answered by an echo.
\<close>

definition edit_step :: "byte \<Rightarrow> byte list \<Rightarrow> byte list \<Rightarrow> byte list \<times> byte list \<times> byte list" where
  "edit_step c ready line =
     (if c = 0x15 then (ready, [], concat (replicate (length line) [8, 32, 8]))
      else if c = 8 \<or> c = 0x7f then
        (if line = [] then (ready, [], []) else (ready, butlast line, [8, 32, 8]))
      else if c \<noteq> 0 \<and> length ready + length line < 128 then
        let x = (if c = 13 then 10 else c) in
        if x = 10 \<or> x = 4 \<or> length ready + length line = 127
        then (ready @ line @ [x], [], [x]) else (ready, line @ [x], [x])
      else (ready, line, []))"

definition ready_input :: "'z cons_scheme \<Rightarrow> byte list" where
  "ready_input s = ring_contents INPUT_BUF_SIZE (cons_buf s) (cons_r s) (cons_w s)"

definition edit_line :: "'z cons_scheme \<Rightarrow> byte list" where
  "edit_line s = ring_contents INPUT_BUF_SIZE (cons_buf s) (cons_w s) (cons_e s)"

text \<open>The counters span at most the buffer, and a newline is never part of the line being edited.\<close>

definition cons_inv :: "'z cons_scheme \<Rightarrow> bool" where
  "cons_inv s \<longleftrightarrow> unat (cons_w s - cons_r s) + unat (cons_e s - cons_w s) \<le> INPUT_BUF_SIZE \<and>
     10 \<notin> set (edit_line s)"

interpretation input: ring INPUT_BUF_SIZE
  by unfold_locales (simp_all add: INPUT_BUF_SIZE_def)

lemma cons_whole:
  assumes "cons_inv s"
  shows "unat (cons_e s - cons_r s) = length (ready_input s) + length (edit_line s)"
    and "ring_contents INPUT_BUF_SIZE (cons_buf s) (cons_r s) (cons_e s) = ready_input s @ edit_line s"
  using assms ring_split [of "cons_w s" "cons_r s" "cons_e s"]
  by (simp_all add: cons_inv_def INPUT_BUF_SIZE_def ready_input_def edit_line_def)

lemma out_cons [simp]:
  "cons_r (out bs s) = cons_r s" "cons_w (out bs s) = cons_w s" "cons_e (out bs s) = cons_e s"
  "cons_buf (out bs s) = cons_buf s" "cons_inv (out bs s) = cons_inv s"
  "ready_input (out bs s) = ready_input s" "edit_line (out bs s) = edit_line s"
  by (simp_all add: out_def cons_inv_def ready_input_def edit_line_def)

lemma uart_ready_cons [simp]:
  "uart_ready (s\<lparr>cons_e := e\<rparr>) = uart_ready s"
  "uart_ready (s\<lparr>cons_buf := b, cons_e := e\<rparr>) = uart_ready s"
  by (simp_all add: uart_ready_def mycpu_def)

lemma ring_last:
  assumes "w \<noteq> e"
  shows "last (ring_contents N buf w e) = buf (unat (e - 1) mod N)"
proof -
  have "0 < unat (e - w)" using assms by (simp add: unat_gt_0)
  moreover from this have "w + of_nat (unat (e - w) - 1) = e - 1" by (simp add: of_nat_diff)
  ultimately show ?thesis by (simp add: ring_contents_def last_map del: of_nat_diff)
qed

lemma kill_line_eq:
  assumes "uart_ready s" and "length (edit_line s) \<le> k" and "10 \<notin> set (edit_line s)"
  shows "kill_line k s =
    Done () (out (concat (replicate (length (edit_line s)) [8, 32, 8])) (s\<lparr>cons_e := cons_w s\<rparr>))"
  using assms
proof (induction k arbitrary: s)
  case 0
  then show ?case using unat_gt_0 [of "cons_e s - cons_w s"]
    by (cases "cons_e s = cons_w s") (auto simp: edit_line_def kern_simps)
next
  case (Suc k)
  show ?case
  proof (cases "cons_e s = cons_w s")
    case True
    then show ?thesis by (simp add: kern_simps edit_line_def)
  next
    case False
    let ?s = "out [8, 32, 8] (s\<lparr>cons_e := cons_e s - 1\<rparr>)"
    have l: "edit_line ?s = butlast (edit_line s)"
      using False ring_unpush [of "cons_w s" "cons_e s"] by (simp add: edit_line_def)
    have ne: "edit_line s \<noteq> []" using False by (simp add: edit_line_def unat_gt_0 flip: length_0_conv)
    have "cons_buf s (unat (cons_e s - 1) mod INPUT_BUF_SIZE) \<in> set (edit_line s)"
      using False ne ring_last [of "cons_w s" "cons_e s" INPUT_BUF_SIZE "cons_buf s"]
        last_in_set [OF ne] by (simp add: edit_line_def)
    then have "kill_line (Suc k) s = kill_line k ?s"
      using Suc.prems False by (auto simp: Do_def gets_def modify_def consputc_eq echo_def)
    also have "\<dots> = Done () (out (concat (replicate (length (edit_line ?s)) [8, 32, 8])) (?s\<lparr>cons_e := cons_w ?s\<rparr>))"
      using Suc.prems l by (intro Suc.IH) (auto dest: in_set_butlastD)
    also have "\<dots> = Done () (out (concat (replicate (length (edit_line s)) [8, 32, 8])) (s\<lparr>cons_e := cons_w s\<rparr>))"
      using ne l [THEN arg_cong, of length] by (cases "length (edit_line s)") (simp_all add: out_def)
    finally show ?thesis .
  qed
qed

lemma byte_uint_eq: "ucast (c :: byte) = (x :: uint) \<longleftrightarrow> c = ucast x \<and> x = ucast (ucast x :: byte)"
proof -
  have "ucast (ucast c :: uint) = c" by (rule bit_word_eqI) (auto simp: bit_simps)
  then show ?thesis by auto
qed

lemma ctrl_keys [simp]:
  "ctrl CHR ''P'' = 16" "ctrl CHR ''U'' = 21" "ctrl CHR ''H'' = 8" "ctrl CHR ''D'' = 4"
  by (simp_all add: ctrl_def of_char_def)

lemma key_eq:
  "ucast (c :: byte) = (16 :: uint) \<longleftrightarrow> c = 16" "ucast c = (21 :: uint) \<longleftrightarrow> c = 21"
  "ucast c = (8 :: uint) \<longleftrightarrow> c = 8" "ucast c = (4 :: uint) \<longleftrightarrow> c = 4"
  "ucast c = (127 :: uint) \<longleftrightarrow> c = 127" "ucast c = (0 :: uint) \<longleftrightarrow> c = 0"
  "ucast c = (13 :: uint) \<longleftrightarrow> c = 13" "ucast c = (10 :: uint) \<longleftrightarrow> c = 10" "ucast c \<noteq> BACKSPACE"
  by (subst byte_uint_eq, simp add: BACKSPACE_def)+

lemma store_key:
  assumes inv: "cons_inv s" and room: "length (ready_input s) + length (edit_line s) < INPUT_BUF_SIZE"
    and v: "v = s\<lparr>cons_buf := (cons_buf s)(unat (cons_e s) mod INPUT_BUF_SIZE := x), cons_e := cons_e s + 1\<rparr>"
  shows "ready_input v = ready_input s" "edit_line v = edit_line s @ [x]"
    "ready_input (v\<lparr>cons_w := cons_e v\<rparr>) = ready_input s @ edit_line s @ [x]"
    "edit_line (v\<lparr>cons_w := cons_e v\<rparr>) = []"
    "unat (cons_e v - cons_r v) = Suc (length (ready_input s) + length (edit_line s))"
proof -
  let ?b = "cons_buf v"
  have n: "unat (cons_e s - cons_r s) = length (ready_input s) + length (edit_line s)"
    using cons_whole(1) [OF inv] .
  have "unat (cons_e s - cons_r s) < INPUT_BUF_SIZE" "unat (cons_e s - cons_r s) + 1 < 2 ^ 32"
    using n room by (simp_all add: INPUT_BUF_SIZE_def)
  from input.push [OF this, of "cons_buf s" x]
  have whole: "ring_contents INPUT_BUF_SIZE ?b (cons_r v) (cons_e v) = ready_input s @ edit_line s @ [x]"
    by (simp add: v cons_whole(2) [OF inv])
  then show "ready_input (v\<lparr>cons_w := cons_e v\<rparr>) = ready_input s @ edit_line s @ [x]"
    "edit_line (v\<lparr>cons_w := cons_e v\<rparr>) = []" by (simp_all add: ready_input_def edit_line_def)
  show e: "unat (cons_e v - cons_r v) = Suc (length (ready_input s) + length (edit_line s))"
    using whole [THEN arg_cong, of length] by simp
  have l: "unat (cons_e v - cons_w v) = Suc (unat (cons_e s - cons_w s))"
    using room unat_add_small [of "cons_e s - cons_w s" 1]
    by (simp add: v edit_line_def INPUT_BUF_SIZE_def add_diff_eq diff_add_eq)
  have "ring_contents INPUT_BUF_SIZE ?b (cons_r v) (cons_e v) =
      ring_contents INPUT_BUF_SIZE ?b (cons_r v) (cons_w v) @ ring_contents INPUT_BUF_SIZE ?b (cons_w v) (cons_e v)"
    using room l by (intro ring_split(2)) (simp add: v ready_input_def edit_line_def INPUT_BUF_SIZE_def)
  with whole have "ready_input v @ edit_line v = ready_input s @ edit_line s @ [x]"
    by (simp add: ready_input_def edit_line_def)
  moreover have "length (ready_input v) = length (ready_input s)" by (simp add: ready_input_def v)
  ultimately show "ready_input v = ready_input s" "edit_line v = edit_line s @ [x]" by auto
qed

lemma erase_key:
  assumes "cons_e s \<noteq> cons_w s" and "v = s\<lparr>cons_e := cons_e s - 1\<rparr>"
  shows "ready_input v = ready_input s" "edit_line v = butlast (edit_line s)"
  using assms ring_unpush [of "cons_w s" "cons_e s"] by (simp_all add: ready_input_def edit_line_def)

text \<open>The effect of a key on the state, given the outcome of \<open>edit_step\<close>.\<close>

definition key_done :: "byte list \<times> byte list \<times> byte list \<Rightarrow> 'z cons_scheme \<Rightarrow> 'z cons_scheme \<Rightarrow> bool" where
  "key_done r u v \<longleftrightarrow> tp v = tp u \<and> cpus v = cpus u \<and> locks v = locks u \<and>
     (uart_regs v, uart_idle v, uart_in v, panicking v, panicked v) =
       (uart_regs u, uart_idle u, uart_in u, panicking u, panicked u) \<and>
     (ready_input v, edit_line v, uart_out v) = (fst r, fst (snd r), uart_out u @ snd (snd r)) \<and>
     procs v = (if fst r = ready_input u then procs u else woken ConsChan (cproc (mycpu u)) (procs u))"

lemma cons_inv_lengths:
  "cons_inv s \<longleftrightarrow> length (ready_input s) + length (edit_line s) \<le> 128 \<and> 10 \<notin> set (edit_line s)"
  by (simp add: cons_inv_def ready_input_def edit_line_def INPUT_BUF_SIZE_def)

lemma edit_step_inv:
  assumes "length ready + length line \<le> 128" and "10 \<notin> set line"
  shows "length (fst (edit_step c ready line)) + length (fst (snd (edit_step c ready line))) \<le> 128 \<and>
    10 \<notin> set (fst (snd (edit_step c ready line)))"
  using assms by (auto simp: edit_step_def Let_def dest: in_set_butlastD)

lemma console_erase:
  assumes "uart_ready u" and "cons_inv u" and "c = 0x15 \<or> c = 8 \<or> c = 0x7f"
  shows "wp (console_key (ucast (c :: byte))) (\<lambda>_. key_done (edit_step c (ready_input u) (edit_line u)) u) u"
proof (cases "c = 0x15")
  case True
  then show ?thesis
    using assms kill_line_eq [of u "length (edit_line u)"]
    by (simp add: wp_def console_key_def key_eq Do_def gets_def cons_inv_def edit_line_def
        key_done_def edit_step_def out_def ready_input_def)
next
  case False
  have l: "edit_line u = [] \<longleftrightarrow> cons_e u = cons_w u"
    using unat_gt_0 [of "cons_e u - cons_w u"] by (auto simp: edit_line_def simp flip: length_0_conv)
  show ?thesis
    using False assms l erase_key [of u "u\<lparr>cons_e := cons_e u - 1\<rparr>"]
    by (auto simp: wp_def console_key_def key_eq Do_def gets_def modify_def return_def consputc_eq echo_def
        key_done_def edit_step_def)
      (simp_all add: out_def ready_input_def edit_line_def)
qed

lemma console_store:
  assumes "uart_ready u" and inv: "cons_inv u" and "settled (mycpu u)" and "\<forall>p<NPROC. lk_free u (ProcLock p)"
    and keys: "c \<notin> {0, 8, 16, 21, 127}" and room: "length (ready_input u) + length (edit_line u) < 128"
  shows "wp (console_key (ucast (c :: byte))) (\<lambda>_. key_done (edit_step c (ready_input u) (edit_line u)) u) u"
proof -
  define x where "x = (if c = 13 then 10 else c)"
  have k: "(if c = 13 then 10 else ucast c :: uint) = ucast x" by (simp add: x_def)
  let ?o = "out [x] u"
  let ?v = "?o\<lparr>cons_buf := (cons_buf ?o)(unat (cons_e ?o) mod INPUT_BUF_SIZE := x), cons_e := cons_e ?o + 1\<rparr>"
  have c: "ucast (ucast x :: uint) = x" by (rule bit_word_eqI) (auto simp: bit_simps)
  have put: "consputc (ucast x) u = Done () ?o"
    using assms(1) by (simp only: consputc_eq echo_def key_eq if_False c)
  have st: "ready_input ?v = ready_input u" "edit_line ?v = edit_line u @ [x]"
    "ready_input (?v\<lparr>cons_w := cons_e ?v\<rparr>) = ready_input u @ edit_line u @ [x]"
    "edit_line (?v\<lparr>cons_w := cons_e ?v\<rparr>) = []"
    "unat (cons_e ?v - cons_r ?v) = Suc (length (ready_input u) + length (edit_line u))"
    using store_key [of ?o ?v x] inv room by (simp_all add: INPUT_BUF_SIZE_def)
  let ?commit = "x = 10 \<or> x = 4 \<or> length (ready_input u) + length (edit_line u) = 127"
  let ?w = "?v\<lparr>cons_w := cons_e ?v\<rparr>"
  have wk: "wakeup ConsChan ?w = Done () (?w\<lparr>procs := woken ConsChan (cproc (mycpu u)) (procs u)\<rparr>)"
  proof -
    have "mycpu ?w = mycpu u" "procs ?w = procs u" "\<And>l. lk_free ?w l = lk_free u l"
      by (simp_all add: mycpu_def out_def lk_free_def)
    with assms(3,4) show ?thesis by (subst wakeup_eq) simp_all
  qed
  have "console_key (ucast c) u = (if ?commit then wakeup ConsChan ?w else Done () ?v)"
    using keys room st(5) cons_whole(1) [OF inv] put c
    by (simp add: console_key_def key_eq k Let_def Do_def gets_def modify_def return_def INPUT_BUF_SIZE_def)
  moreover have "edit_step c (ready_input u) (edit_line u) =
      (if ?commit then (ready_input u @ edit_line u @ [x], [], [x])
       else (ready_input u, edit_line u @ [x], [x]))"
    using keys room by (simp add: edit_step_def x_def)
  moreover have "key_done (ready_input u @ edit_line u @ [x], [], [x]) u
      (?w\<lparr>procs := woken ConsChan (cproc (mycpu u)) (procs u)\<rparr>)"
    using st by (simp add: key_done_def ready_input_def edit_line_def out_def)
  moreover have "key_done (ready_input u, edit_line u @ [x], [x]) u ?v"
    using st by (simp add: key_done_def ready_input_def edit_line_def out_def)
  ultimately show ?thesis using wk by (simp add: wp_def del: if_split)
qed

lemma console_key_refines:
  assumes "uart_ready u" and "cons_inv u" and "settled (mycpu u)" and "\<forall>p<NPROC. lk_free u (ProcLock p)" and "c \<noteq> 16"
  shows "wp (console_key (ucast (c :: byte))) (\<lambda>_. key_done (edit_step c (ready_input u) (edit_line u)) u) u"
proof -
  consider "c = 21 \<or> c = 8 \<or> c = 127"
    | "c \<notin> {0, 8, 16, 21, 127}" "length (ready_input u) + length (edit_line u) < 128"
    | "c \<notin> {8, 16, 21, 127}" "c = 0 \<or> 128 \<le> length (ready_input u) + length (edit_line u)"
    using assms(5) by force
  then show ?thesis
  proof cases
    case 1
    with assms show ?thesis by (intro console_erase) simp_all
  next
    case 2
    with assms show ?thesis by (intro console_store)
  next
    case 3
    then show ?thesis
      using cons_whole(1) [OF assms(2)]
      by (auto simp: wp_def console_key_def key_eq Do_def gets_def return_def INPUT_BUF_SIZE_def key_done_def edit_step_def)
  qed
qed

lemma consoleintr_refines:
  assumes "calm s" and "uart_ready s" and "cons_inv s" and "c \<noteq> 16"
  shows "wp (consoleintr (ucast (c :: byte))) (\<lambda>_. key_done (edit_step c (ready_input s) (edit_line s)) s) s"
proof -
  let ?u = "enter ConsLock s"
  have cpu: "mycpu ?u = pushed (mycpu s)" and lks: "\<And>p. lk_free ?u (ProcLock p)"
    using assms(1) by (auto simp: mycpu_enter calm_def lk_free_def)
  have "uart_ready ?u" "cons_inv ?u" "ready_input ?u = ready_input s" "edit_line ?u = edit_line s"
    using assms cpu by (auto simp: uart_ready_def calm_def settled_pushed cons_inv_def ready_input_def edit_line_def
        enter_def upd_mycpu_def)
  then obtain v where v: "console_key (ucast c) ?u = Done () v"
      and k: "key_done (edit_step c (ready_input s) (edit_line s)) ?u v"
    using console_key_refines [of ?u c] assms cpu lks by (auto simp: wp_iff_Done calm_def settled_pushed)
  have "consoleintr (ucast c) s = Done () (v\<lparr>cpus := cpus s, locks := locks s\<rparr>)"
    unfolding consoleintr_def using assms(1) v k by (intro critical_section(2)) (auto simp: key_done_def calm_def)
  with k show ?thesis
    unfolding key_done_def by (simp add: wp_def ready_input_def edit_line_def enter_def upd_mycpu_def mycpu_def)
qed

lemma key_done_keeps:
  assumes "key_done (edit_step c (ready_input s) (edit_line s)) s t" and "calm s" and "uart_ready s" and "cons_inv s"
  shows "calm t \<and> uart_ready t \<and> cons_inv t"
  using assms edit_step_inv [of "ready_input s" "edit_line s" c]
  by (auto simp: key_done_def calm_def uart_ready_def cons_inv_lengths mycpu_def lk_free_def)

text \<open>The abstract console under a sequence of keys, with all that is echoed.\<close>

primrec edit_run :: "byte list \<Rightarrow> byte list \<Rightarrow> byte list \<Rightarrow> byte list \<times> byte list \<times> byte list" where
  "edit_run [] ready line = (ready, line, [])"
| "edit_run (c # cs) ready line =
     (let (r, l, e) = edit_step c ready line; (r', l', e') = edit_run cs r l in (r', l', e @ e'))"

lemma uartintr_input_refines:
  assumes "calm s" and "uart_ready s" and "cons_inv s" and "uart_in s = cs" and "16 \<notin> set cs"
  shows "wp (uartintr_input cs) (\<lambda>_ t. calm t \<and> cons_inv t \<and> uart_in t = [] \<and>
    (ready_input t, edit_line t, uart_out t) =
      (let (r, l, e) = edit_run cs (ready_input s) (edit_line s) in (r, l, uart_out s @ e))) s"
  using assms
proof (induction cs arbitrary: s)
  case Nil
  then show ?case by (simp add: wp_simps uartgetc_def)
next
  case (Cons c cs)
  let ?s = "s\<lparr>uart_in := cs\<rparr>"
  have s: "calm ?s" "uart_ready ?s" "cons_inv ?s" "ready_input ?s = ready_input s" "edit_line ?s = edit_line s"
    using Cons.prems by (simp_all add: calm_def uart_ready_def mycpu_def lk_free_def cons_inv_def ready_input_def edit_line_def)
  obtain t where t: "consoleintr (ucast c) ?s = Done () t"
      and k: "key_done (edit_step c (ready_input s) (edit_line s)) ?s t"
    using consoleintr_refines [OF s(1-3), of c] s(4,5) Cons.prems(5) by (auto simp: wp_iff_Done)
  have kt: "calm t \<and> uart_ready t \<and> cons_inv t" using key_done_keeps [of c ?s t] k s by simp
  have "uart_in t = cs" using k by (simp add: key_done_def)
  with Cons.IH [of t] kt Cons.prems(5)
  have "wp (uartintr_input cs) (\<lambda>_ v. calm v \<and> cons_inv v \<and> uart_in v = [] \<and>
    (ready_input v, edit_line v, uart_out v) =
      (let (r, l, e) = edit_run cs (ready_input t) (edit_line t) in (r, l, uart_out t @ e))) t" by simp
  moreover have "uartintr_input (c # cs) s = uartintr_input cs t"
    using Cons.prems(4) t by (simp add: Do_def uartgetc_def gets_def modify_def return_def)
  ultimately show ?case
    using k by (auto simp: wp_def key_done_def Let_def split: res.splits prod.splits)
qed

text \<open>C19: line editing on the console. An interrupt of the serial port processes all bytes the chip
  has received exactly as the line editor \<open>edit_run\<close> prescribes on two plain lists: a key is
  appended to the line, control-U and backspace delete, a newline, an end-of-file or a full buffer
  hands the line to the readers. The bytes echoed are those of the editor, in order, and the ring
  buffer of 128 bytes with its wrapping counters never overflows and never loses input.\<close>

theorem uartintr_edits_lines:
  assumes "calm s" and "uart_ready s" and "cons_inv s" and "16 \<notin> set (uart_in s)"
  shows "\<exists>t. uartintr s = Done () t \<and> cons_inv t \<and> uart_in t = [] \<and>
    (ready_input t, edit_line t, uart_out t) =
      (let (r, l, e) = edit_run (uart_in s) (ready_input s) (edit_line s) in (r, l, uart_out s @ e))"
proof -
  let ?m = "kwhen (uart_idle s) (Seq (modify (\<lambda>s. s\<lparr>tx_busy := False\<rparr>)) (wakeup TxChan))"
  let ?u = "enter TxLock s"
  let ?u1 = "?u\<lparr>tx_busy := False\<rparr>"
  let ?v = "?u1\<lparr>procs := woken TxChan (cproc (mycpu ?u1)) (procs ?u1)\<rparr>"
  have cpu: "mycpu ?u1 = pushed (mycpu s)" by (simp add: mycpu_def enter_def upd_mycpu_def)
  have "wakeup TxChan ?u1 = Done () ?v"
    using assms(1) cpu by (intro wakeup_eq) (auto simp: calm_def settled_pushed lk_free_def)
  then have m: "?m ?u = Done () ?v" using assms(2) by (simp add: Do_def modify_def uart_ready_def)
  let ?t = "?v\<lparr>cpus := cpus s, locks := locks s\<rparr>"
  have "acquire TxLock s = Done () ?u" using assms(1) by (simp add: calm_def lk_free_def acquire_free)
  moreover have "release TxLock ?v = Done () ?t"
    using assms(1) by (intro release_from) (simp_all add: calm_def)
  moreover have "uart_idle ?u" "uart_in ?t = uart_in s"
    using assms(2) by (simp_all add: uart_ready_def enter_def upd_mycpu_def)
  ultimately have step: "uartintr s = uartintr_input (uart_in s) ?t"
    using m assms(2) by (simp add: uartintr_def Do_def gets_def modify_def uart_ready_def)
  have "calm ?t" "uart_ready ?t" "cons_inv ?t" "ready_input ?t = ready_input s" "edit_line ?t = edit_line s"
    "uart_in ?t = uart_in s" "uart_out ?t = uart_out s"
    using assms by (simp_all add: calm_def uart_ready_def mycpu_def lk_free_def cons_inv_def ready_input_def
        edit_line_def enter_def upd_mycpu_def)
  with uartintr_input_refines [of ?t "uart_in s"] assms(4) step show ?thesis
    by (auto simp: wp_iff_Done)
qed

definition cons0 :: "byte list \<Rightarrow> cons" where
  "cons0 keys = uart.extend (uart0\<lparr>uart_in := keys\<rparr>) (cons.fields (\<lambda>_. 0) 0 0 0)"

theorem uartintr_edits_lines_witness:
  "\<exists>t. uartintr (cons0 [108, 109, 8, 115, 13]) = Done () t \<and>
     (ready_input t, edit_line t, uart_out t) = ([108, 115, 10], [], [108, 109, 8, 32, 8, 115, 10])"
proof -
  let ?s = "cons0 [108, 109, 8, 115, 13]"
  have p: "tp ?s = tp uart0" "cpus ?s = cpus uart0" "locks ?s = locks uart0" "uart_in ?s = [108, 109, 8, 115, 13]"
    "uart_out ?s = []" "uart_regs ?s = uart_regs uart0" "uart_idle ?s" "\<not> panicked ?s" "ready_input ?s = []"
    "edit_line ?s = []" "cons_w ?s = 0" "cons_r ?s = 0" "cons_e ?s = 0"
    by (simp_all add: cons0_def uart.defs cons.defs ready_input_def edit_line_def)
  have "calm ?s" "uart_ready ?s"
    using quiet_uart0 uart_ready_uart0 p
    by (simp_all add: calm_def quiet_def uart_ready_def mycpu_def lk_free_def)
  moreover have "cons_inv ?s" using p by (simp add: cons_inv_def)
  ultimately show ?thesis
    using uartintr_edits_lines [of ?s] p by (auto simp: edit_step_def)
qed

end
