(* ===== verification/Block.thy ===== *)
theory Block
  imports Kstring
begin

text \<open>
  The on-disk format of \<open>kernel/fs.h\<close>: blocks of 1024 bytes, and the structures the file system lays
  over them. A structure is a record; \<open>rd_\<close> and \<open>wr_\<close> functions access it inside a block the way
  the casts of the source do, field by field in little-endian order.
\<close>

section \<open>Parts of a byte list\<close>

definition sub :: "byte list \<Rightarrow> nat \<Rightarrow> nat \<Rightarrow> byte list" where
  "sub xs off n = take n (drop off xs)"

definition splice :: "byte list \<Rightarrow> nat \<Rightarrow> byte list \<Rightarrow> byte list" where
  "splice xs off ys = take off xs @ ys @ drop (off + length ys) xs"

lemma length_splice [simp]: "off + length ys \<le> length xs \<Longrightarrow> length (splice xs off ys) = length xs"
  by (simp add: splice_def)

lemma length_sub: "off + n \<le> length xs \<Longrightarrow> length (sub xs off n) = n"
  by (simp add: sub_def)

lemma nth_splice:
  "off + length ys \<le> length xs \<Longrightarrow> i < length xs \<Longrightarrow>
   splice xs off ys ! i = (if off \<le> i \<and> i < off + length ys then ys ! (i - off) else xs ! i)"
  by (auto simp: splice_def nth_append)

lemma sub_splice_same: "off + length ys \<le> length xs \<Longrightarrow> n = length ys \<Longrightarrow> sub (splice xs off ys) off n = ys"
  by (simp add: sub_def splice_def)

lemma sub_splice_other:
  assumes "off + length ys \<le> length xs" and "o' + n \<le> off \<or> off + length ys \<le> o'" and "o' + n \<le> length xs"
  shows "sub (splice xs off ys) o' n = sub xs o' n"
  using assms by (auto simp: sub_def nth_splice intro!: nth_equalityI)

lemma splice_sub: "off + n \<le> length xs \<Longrightarrow> splice xs off (sub xs off n) = xs"
  by (auto simp: sub_def nth_splice intro!: nth_equalityI)

section \<open>Words in a block\<close>

definition rd16 :: "byte list \<Rightarrow> nat \<Rightarrow> ushort" where
  "rd16 d off = bytes_word (sub d off 2)"

definition rd32 :: "byte list \<Rightarrow> nat \<Rightarrow> uint" where
  "rd32 d off = bytes_word (sub d off 4)"

definition wr16 :: "byte list \<Rightarrow> nat \<Rightarrow> ushort \<Rightarrow> byte list" where
  "wr16 d off v = splice d off (word_bytes 2 v)"

definition wr32 :: "byte list \<Rightarrow> nat \<Rightarrow> uint \<Rightarrow> byte list" where
  "wr32 d off v = splice d off (word_bytes 4 v)"

lemma length_wr [simp]:
  "off + 2 \<le> length d \<Longrightarrow> length (wr16 d off v) = length d"
  "off + 4 \<le> length d \<Longrightarrow> length (wr32 d off w) = length d"
  by (simp_all add: wr16_def wr32_def)

lemma rd_wr_same [simp]:
  "off + 2 \<le> length d \<Longrightarrow> rd16 (wr16 d off v) off = v"
  "off + 4 \<le> length d \<Longrightarrow> rd32 (wr32 d off w) off = w"
  by (simp_all add: rd16_def wr16_def rd32_def wr32_def sub_splice_same bytes_word_bytes)

lemma rd16_wr_other [simp]:
  "off + 2 \<le> length d \<Longrightarrow> o' + 2 \<le> length d \<Longrightarrow> o' + 2 \<le> off \<or> off + 2 \<le> o' \<Longrightarrow>
   rd16 (wr16 d off v) o' = rd16 d o'"
  "off + 4 \<le> length d \<Longrightarrow> o' + 2 \<le> length d \<Longrightarrow> o' + 2 \<le> off \<or> off + 4 \<le> o' \<Longrightarrow>
   rd16 (wr32 d off w) o' = rd16 d o'"
  by (simp_all add: rd16_def wr16_def wr32_def sub_splice_other)

lemma rd32_wr_other [simp]:
  "off + 2 \<le> length d \<Longrightarrow> o' + 4 \<le> length d \<Longrightarrow> o' + 4 \<le> off \<or> off + 2 \<le> o' \<Longrightarrow>
   rd32 (wr16 d off v) o' = rd32 d o'"
  "off + 4 \<le> length d \<Longrightarrow> o' + 4 \<le> length d \<Longrightarrow> o' + 4 \<le> off \<or> off + 4 \<le> o' \<Longrightarrow>
   rd32 (wr32 d off w) o' = rd32 d o'"
  by (simp_all add: rd32_def wr16_def wr32_def sub_splice_other)

section \<open>Constants and structures\<close>

definition ROOTINO :: uint where "ROOTINO = 1"
definition BSIZE :: nat where "BSIZE = 1024"
definition FSMAGIC :: uint where "FSMAGIC = 0x10203040"
definition NDIRECT :: nat where "NDIRECT = 12"
definition NINDIRECT :: nat where "NINDIRECT = BSIZE div 4"
definition MAXFILE :: nat where "MAXFILE = NDIRECT + NINDIRECT"
definition DIRSIZ :: nat where "DIRSIZ = 14"

lemmas fs_sizes = BSIZE_def NDIRECT_def NINDIRECT_def MAXFILE_def DIRSIZ_def

record superblock =
  sb_magic :: uint
  sb_size :: uint
  sb_nblocks :: uint
  sb_ninodes :: uint
  sb_nlog :: uint
  sb_logstart :: uint
  sb_inodestart :: uint
  sb_bmapstart :: uint

definition superblock_of :: "byte list \<Rightarrow> superblock" where
  "superblock_of d = \<lparr>sb_magic = rd32 d 0, sb_size = rd32 d 4, sb_nblocks = rd32 d 8, sb_ninodes = rd32 d 12,
     sb_nlog = rd32 d 16, sb_logstart = rd32 d 20, sb_inodestart = rd32 d 24, sb_bmapstart = rd32 d 28\<rparr>"

record dinode =
  di_type :: ushort
  di_major :: ushort
  di_minor :: ushort
  di_nlink :: ushort
  di_size :: uint
  di_addrs :: "uint list"

definition sizeof_dinode :: nat where "sizeof_dinode = 64"
definition IPB :: nat where "IPB = BSIZE div sizeof_dinode"
definition BPB :: nat where "BPB = BSIZE * 8"

definition IBLOCK :: "uint \<Rightarrow> superblock \<Rightarrow> uint" where
  "IBLOCK i sb = i div of_nat IPB + sb_inodestart sb"

definition BBLOCK :: "uint \<Rightarrow> superblock \<Rightarrow> uint" where
  "BBLOCK b sb = b div of_nat BPB + sb_bmapstart sb"

definition rd_addrs :: "byte list \<Rightarrow> nat \<Rightarrow> nat \<Rightarrow> uint list" where
  "rd_addrs d off n = map (\<lambda>i. rd32 d (off + 4 * i)) [0..<n]"

primrec wr_addrs :: "byte list \<Rightarrow> nat \<Rightarrow> uint list \<Rightarrow> byte list" where
  "wr_addrs d off [] = d"
| "wr_addrs d off (a # as) = wr_addrs (wr32 d off a) (off + 4) as"

text \<open>\<open>(struct dinode* )bp->data + i\<close>: the \<open>i\<close>th inode of a block.\<close>

definition rd_dinode :: "byte list \<Rightarrow> nat \<Rightarrow> dinode" where
  "rd_dinode d i = (let o' = i * sizeof_dinode in
     \<lparr>di_type = rd16 d o', di_major = rd16 d (o' + 2), di_minor = rd16 d (o' + 4), di_nlink = rd16 d (o' + 6),
      di_size = rd32 d (o' + 8), di_addrs = rd_addrs d (o' + 12) (NDIRECT + 1)\<rparr>)"

definition wr_dinode :: "byte list \<Rightarrow> nat \<Rightarrow> dinode \<Rightarrow> byte list" where
  "wr_dinode d i di = (let o' = i * sizeof_dinode in
     wr_addrs (wr32 (wr16 (wr16 (wr16 (wr16 d o' (di_type di)) (o' + 2) (di_major di)) (o' + 4) (di_minor di))
       (o' + 6) (di_nlink di)) (o' + 8) (di_size di)) (o' + 12) (di_addrs di))"

record dirent =
  de_inum :: ushort
  de_name :: "byte list"

definition sizeof_dirent :: nat where "sizeof_dirent = 16"

definition rd_dirent :: "byte list \<Rightarrow> dirent" where
  "rd_dirent bs = \<lparr>de_inum = rd16 bs 0, de_name = sub bs 2 DIRSIZ\<rparr>"

definition dirent_bytes :: "dirent \<Rightarrow> byte list" where
  "dirent_bytes de = word_bytes 2 (de_inum de) @ de_name de"

definition T_DIR :: ushort where "T_DIR = 1"
definition T_FILE :: ushort where "T_FILE = 2"
definition T_DEVICE :: ushort where "T_DEVICE = 3"
definition T_SYMLINK :: ushort where "T_SYMLINK = 4"

lemmas file_types = T_DIR_def T_FILE_def T_DEVICE_def T_SYMLINK_def

section \<open>Round trips\<close>

lemma length_wr_addrs [simp]:
  "off + 4 * length as \<le> length d \<Longrightarrow> length (wr_addrs d off as) = length d"
  by (induction as arbitrary: d off) auto

lemma rd16_wr_addrs:
  "off + 4 * length as \<le> length d \<Longrightarrow> o' + 2 \<le> off \<or> off + 4 * length as \<le> o' \<Longrightarrow> o' + 2 \<le> length d \<Longrightarrow>
   rd16 (wr_addrs d off as) o' = rd16 d o'"
  by (induction as arbitrary: d off) (auto simp: algebra_simps)

lemma rd32_wr_addrs:
  "off + 4 * length as \<le> length d \<Longrightarrow> o' + 4 \<le> off \<or> off + 4 * length as \<le> o' \<Longrightarrow> o' + 4 \<le> length d \<Longrightarrow>
   rd32 (wr_addrs d off as) o' = rd32 d o'"
  by (induction as arbitrary: d off) (auto simp: algebra_simps)

lemma rd_wr_addrs:
  "off + 4 * length as \<le> length d \<Longrightarrow> rd_addrs (wr_addrs d off as) off (length as) = as"
proof (induction as arbitrary: d off)
  case Nil
  then show ?case by (simp add: rd_addrs_def)
next
  case (Cons a as)
  have "rd_addrs (wr_addrs d off (a # as)) off (length (a # as)) =
      rd32 (wr_addrs (wr32 d off a) (off + 4) as) off # rd_addrs (wr_addrs (wr32 d off a) (off + 4) as) (off + 4) (length as)"
    by (simp add: rd_addrs_def upt_conv_Cons map_Suc_upt [symmetric] o_def add.assoc del: upt_Suc)
  with Cons show ?case by (simp add: rd32_wr_addrs)
qed

lemma rd_addrs_cong:
  "(\<And>i. i < n \<Longrightarrow> rd32 d (off + 4 * i) = rd32 d' (off + 4 * i)) \<Longrightarrow> rd_addrs d off n = rd_addrs d' off n"
  by (simp add: rd_addrs_def)

lemma length_wr_dinode [simp]:
  "length d = BSIZE \<Longrightarrow> i < IPB \<Longrightarrow> length (di_addrs di) = NDIRECT + 1 \<Longrightarrow> length (wr_dinode d i di) = BSIZE"
  by (simp add: wr_dinode_def Let_def fs_sizes IPB_def sizeof_dinode_def)

lemma rd_wr_dinode_outside:
  assumes "length d = 1024" and "length (di_addrs di) = 13" and "i * sizeof_dinode + 64 \<le> 1024"
    and "p + k \<le> i * sizeof_dinode \<or> i * sizeof_dinode + 64 \<le> p" and "p + k \<le> 1024"
  shows "k = 2 \<Longrightarrow> rd16 (wr_dinode d i di) p = rd16 d p" and "k = 4 \<Longrightarrow> rd32 (wr_dinode d i di) p = rd32 d p"
  using assms(4)
  by (elim disjE; insert assms; simp add: wr_dinode_def Let_def rd16_wr_addrs rd32_wr_addrs)+



lemma dirent_round_trip:
  "length (de_name de) = DIRSIZ \<Longrightarrow> rd_dirent (dirent_bytes de) = de"
  by (simp add: rd_dirent_def dirent_bytes_def rd16_def sub_def bytes_word_bytes DIRSIZ_def)

lemma length_dirent_bytes: "length (de_name de) = DIRSIZ \<Longrightarrow> length (dirent_bytes de) = sizeof_dirent"
  by (simp add: dirent_bytes_def DIRSIZ_def sizeof_dirent_def)

end
