(* ===== verification/Bio.thy ===== *)
theory Bio
  imports Console Block
begin

text \<open>
  The buffer cache (\<open>kernel/bio.c\<close>, \<open>kernel/buf.h\<close>). The doubly linked list of buffers is the list
  of their indices from \<open>head.next\<close>, most recently used first. The disk is a function from block
  numbers to block contents, with the sequence of completed writes beside it, from which every
  state the disk can be in after a crash is read off. \<open>disk_rw\<close> is a call of \<open>virtio_disk_rw\<close> that
  has returned: the request has been carried out by the device, the buffer is the caller's again.
\<close>

section \<open>State and operations\<close>

record buf =
  bvalid :: bool
  bdisk :: bool
  bdev :: uint
  bblockno :: uint
  brefcnt :: uint
  bdata :: "byte list"

record bio = cons +
  bufs :: "nat \<Rightarrow> buf"
  lru :: "nat list"
  disk :: "uint \<Rightarrow> byte list"
  dwrites :: "(uint \<times> byte list) list"

definition upd_buf :: "nat \<Rightarrow> (buf \<Rightarrow> buf) \<Rightarrow> ('z bio_scheme, unit) kern" where
  "upd_buf b f = modify (\<lambda>s. s\<lparr>bufs := (bufs s)(b := f (bufs s b))\<rparr>)"

definition disk_rw :: "nat \<Rightarrow> bool \<Rightarrow> ('z bio_scheme, unit) kern" where
  "disk_rw b write =
     modify (\<lambda>s. let x = bufs s b in
       if write
       then s\<lparr>disk := (disk s)(bblockno x := bdata x), dwrites := dwrites s @ [(bblockno x, bdata x)]\<rparr>
       else s\<lparr>bufs := (bufs s)(b := x\<lparr>bdata := disk s (bblockno x)\<rparr>)\<rparr>)"

definition binit :: "('z bio_scheme, unit) kern" where
  "binit =
     Seq (initlock BcacheLock ''bcache'') (
     Seq (modify (\<lambda>s. s\<lparr>lru := []\<rparr>)) (
     for_each [0..<NBUF] (\<lambda>b.
       Seq (initsleeplock (BufSleep b) ''buffer'')
       (modify (\<lambda>s. s\<lparr>lru := b # lru s\<rparr>)))))"

text \<open>The bodies of the two loops of \<open>bget\<close>: a buffer that caches the block, and the least recently
  used buffer that is not in use.\<close>

definition bget_cached :: "uint \<Rightarrow> uint \<Rightarrow> nat \<Rightarrow> ('z bio_scheme, nat option) kern" where
  "bget_cached dev blockno b =
     Do (gets (\<lambda>s. bdev (bufs s b) = dev \<and> bblockno (bufs s b) = blockno)) (\<lambda>found.
     if found then
       Seq (upd_buf b (\<lambda>x. x\<lparr>brefcnt := brefcnt x + 1\<rparr>)) (
       Seq (release BcacheLock) (
       Seq (acquiresleep (BufSleep b))
       (return (Some b))))
     else return None)"

definition bget_recycle :: "uint \<Rightarrow> uint \<Rightarrow> nat \<Rightarrow> ('z bio_scheme, nat option) kern" where
  "bget_recycle dev blockno b =
     Do (gets (\<lambda>s. brefcnt (bufs s b) = 0)) (\<lambda>unused.
     if unused then
       Seq (upd_buf b (\<lambda>x. x\<lparr>bdev := dev, bblockno := blockno, bvalid := False, brefcnt := 1\<rparr>)) (
       Seq (release BcacheLock) (
       Seq (acquiresleep (BufSleep b))
       (return (Some b))))
     else return None)"

definition bget :: "uint \<Rightarrow> uint \<Rightarrow> ('z bio_scheme, nat) kern" where
  "bget dev blockno =
     Seq (acquire BcacheLock) (
     Do (gets lru) (\<lambda>l.
     Do (for_find l (bget_cached dev blockno)) (\<lambda>r. case r of Some b \<Rightarrow> return b | None \<Rightarrow>
     Do (for_find (rev l) (bget_recycle dev blockno)) (\<lambda>r. case r of Some b \<Rightarrow> return b | None \<Rightarrow>
     panic ''bget: no buffers''))))"

definition bread :: "uint \<Rightarrow> uint \<Rightarrow> ('z bio_scheme, nat) kern" where
  "bread dev blockno =
     Do (bget dev blockno) (\<lambda>b.
     Do (gets (\<lambda>s. bvalid (bufs s b))) (\<lambda>v.
     Seq (kwhen (\<not> v) (
       Seq (disk_rw b False)
       (upd_buf b (\<lambda>x. x\<lparr>bvalid := True\<rparr>))))
     (return b)))"

definition bwrite :: "nat \<Rightarrow> ('z bio_scheme, unit) kern" where
  "bwrite b =
     Do (holdingsleep (BufSleep b)) (\<lambda>h.
     if \<not> h then panic ''bwrite'' else
     disk_rw b True)"

definition brelse :: "nat \<Rightarrow> ('z bio_scheme, unit) kern" where
  "brelse b =
     Do (holdingsleep (BufSleep b)) (\<lambda>h.
     if \<not> h then panic ''brelse'' else
     Seq (releasesleep (BufSleep b)) (
     Seq (acquire BcacheLock) (
     Seq (upd_buf b (\<lambda>x. x\<lparr>brefcnt := brefcnt x - 1\<rparr>)) (
     Do (gets (\<lambda>s. brefcnt (bufs s b))) (\<lambda>n.
     Seq (kwhen (n = 0) (modify (\<lambda>s. s\<lparr>lru := b # remove1 b (lru s)\<rparr>)))
     (release BcacheLock))))))"

definition bpin :: "nat \<Rightarrow> ('z bio_scheme, unit) kern" where
  "bpin b =
     Seq (acquire BcacheLock) (
     Seq (upd_buf b (\<lambda>x. x\<lparr>brefcnt := brefcnt x + 1\<rparr>))
     (release BcacheLock))"

definition bunpin :: "nat \<Rightarrow> ('z bio_scheme, unit) kern" where
  "bunpin b =
     Seq (acquire BcacheLock) (
     Seq (upd_buf b (\<lambda>x. x\<lparr>brefcnt := brefcnt x - 1\<rparr>))
     (release BcacheLock))"

section \<open>The cache as a store of blocks\<close>

text \<open>
  Abstraction: \<open>blk s n\<close> is the contents of block \<open>n\<close> of the root device as the kernel sees it, in the
  cache or, when no valid buffer holds it, on the disk. \<open>held s\<close> are the buffers this thread has
  locked. The invariant is relative to the set \<open>P\<close> of buffers that the log has pinned: it says that
  the list is a permutation of the buffers, that a block is in at most one buffer, that references
  are exactly those of the holder of the lock and of the log, and that a buffer nobody refers to
  agrees with the disk, so that it can be recycled.
\<close>

definition hits :: "'z bio_scheme \<Rightarrow> uint \<Rightarrow> nat \<Rightarrow> bool" where
  "hits s n b \<longleftrightarrow> bdev (bufs s b) = ROOTDEV \<and> bblockno (bufs s b) = n"

definition blk :: "'z bio_scheme \<Rightarrow> uint \<Rightarrow> byte list" where
  "blk s n = (case find (\<lambda>b. bvalid (bufs s b) \<and> hits s n b) [0..<NBUF] of
     Some b \<Rightarrow> bdata (bufs s b) | None \<Rightarrow> disk s n)"

definition held :: "'z bio_scheme \<Rightarrow> nat set" where
  "held s = {b. b < NBUF \<and> slocked (slocks s (BufSleep b))}"

definition buf_ok :: "nat set \<Rightarrow> 'z bio_scheme \<Rightarrow> nat \<Rightarrow> bool" where
  "buf_ok P s b \<longleftrightarrow>
     (bdev (bufs s b) = ROOTDEV \<or> \<not> bvalid (bufs s b)) \<and>
     brefcnt (bufs s b) = of_bool (b \<in> held s) + of_bool (b \<in> P) \<and>
     (b \<in> held s \<longrightarrow> spid (slocks s (BufSleep b)) = mypid s) \<and>
     (b \<in> held s \<union> P \<longrightarrow> bvalid (bufs s b)) \<and>
     (bvalid (bufs s b) \<longrightarrow> length (bdata (bufs s b)) = BSIZE) \<and>
     (bvalid (bufs s b) \<and> b \<notin> held s \<union> P \<longrightarrow> bdata (bufs s b) = disk s (bblockno (bufs s b)))"

definition bio_inv :: "nat set \<Rightarrow> 'z bio_scheme \<Rightarrow> bool" where
  "bio_inv P s \<longleftrightarrow> P \<subseteq> {..<NBUF} \<and> distinct (lru s) \<and> set (lru s) = {..<NBUF} \<and>
     (\<forall>n. length (disk s n) = BSIZE) \<and> (\<forall>b<NBUF. buf_ok P s b) \<and>
     (\<forall>n. \<forall>b<NBUF. \<forall>c<NBUF. hits s n b \<and> hits s n c \<longrightarrow> b = c)"

lemma bio_invD:
  assumes "bio_inv P s"
  shows "P \<subseteq> {..<NBUF}" "distinct (lru s)" "set (lru s) = {..<NBUF}" "length (disk s n) = BSIZE"
    "b < NBUF \<Longrightarrow> buf_ok P s b" "b < NBUF \<Longrightarrow> c < NBUF \<Longrightarrow> hits s n b \<Longrightarrow> hits s n c \<Longrightarrow> b = c"
  using assms by (auto simp: bio_inv_def)

lemma blk_eqI:
  assumes "\<And>b. b < NBUF \<Longrightarrow> bvalid (bufs s b) \<Longrightarrow> hits s n b \<Longrightarrow> bdata (bufs s b) = x"
    and "(\<And>b. b < NBUF \<Longrightarrow> hits s n b \<Longrightarrow> \<not> bvalid (bufs s b)) \<Longrightarrow> disk s n = x"
  shows "blk s n = x"
  using assms by (auto simp: blk_def find_upt_Some find_upt_None split: option.split)

lemma blk_cached:
  assumes "bio_inv P s" and "b < NBUF" and "bvalid (bufs s b)" and "hits s n b"
  shows "blk s n = bdata (bufs s b)"
  using assms bio_invD(6) [OF assms(1)] by (intro blk_eqI) blast+

lemma blk_uncached:
  assumes "\<And>b. b < NBUF \<Longrightarrow> hits s n b \<Longrightarrow> \<not> bvalid (bufs s b)"
  shows "blk s n = disk s n"
  using assms by (intro blk_eqI) blast+

lemma blk_cong:
  assumes "\<And>c. bvalid (bufs t c) = bvalid (bufs s c)" and "\<And>c. bdata (bufs t c) = bdata (bufs s c)"
    and "hits t = hits s" and "disk t = disk s"
  shows "blk t = blk s"
  using assms by (simp add: blk_def fun_eq_iff split: option.split)

lemma length_blk: "bio_inv P s \<Longrightarrow> length (blk s n) = BSIZE"
  using bio_invD(4,5) [of P s] by (auto simp: blk_def buf_ok_def find_upt_Some split: option.split)

text \<open>What a cache operation leaves alone: all but the cache itself, and of the process table all but
  the states of processes other than the current one.\<close>

definition awake :: "'z sched_scheme \<Rightarrow> 'z sched_scheme \<Rightarrow> bool" where
  "awake s t \<longleftrightarrow> procs t (me s) = procs s (me s) \<and> (\<forall>p. \<exists>st. procs t p = (procs s p)\<lparr>pstate := st\<rparr>)"

definition bio_rest :: "'z bio_scheme \<Rightarrow> 'z bio_scheme" where
  "bio_rest s = s\<lparr>procs := undefined, slocks := undefined, bufs := undefined, lru := [], disk := undefined, dwrites := []\<rparr>"

definition bio_frame :: "'z bio_scheme \<Rightarrow> 'z bio_scheme \<Rightarrow> bool" where
  "bio_frame s t \<longleftrightarrow> awake s t \<and> bio_rest t = bio_rest s"

lemma awake_refl: "awake s s"
  using exI [of "\<lambda>st. procs s p = (procs s p)\<lparr>pstate := st\<rparr>" "pstate (procs s p)" for p] by (simp add: awake_def)

lemma bio_frame_refl [simp]: "bio_frame s s"
  by (simp add: bio_frame_def awake_refl)

lemma bio_rest_proj: "tp (bio_rest s) = tp s" "cpus (bio_rest s) = cpus s" "locks (bio_rest s) = locks s"
  by (simp_all add: bio_rest_def)

lemma bio_frame_proj:
  assumes "bio_frame s t"
  shows "tp t = tp s" "cpus t = cpus s" "locks t = locks s" "quiet t = quiet s" "me t = me s" "mypid t = mypid s"
proof -
  show 1: "tp t = tp s" "cpus t = cpus s" "locks t = locks s"
    using assms bio_rest_proj [of s] bio_rest_proj [of t] by (simp_all add: bio_frame_def)
  then show "quiet t = quiet s" by (rule quiet_cong)
  from 1 show "me t = me s" by (simp add: me_def mycpu_def)
  then show "mypid t = mypid s" using assms by (simp add: mypid_def bio_frame_def awake_def)
qed

lemma awake_trans:
  assumes "awake s t" and "awake t u" and "me t = me s"
  shows "awake s u"
proof -
  have "\<exists>st. procs u p = (procs s p)\<lparr>pstate := st\<rparr>" for p
  proof -
    obtain x y where "procs t p = (procs s p)\<lparr>pstate := x\<rparr>" "procs u p = (procs t p)\<lparr>pstate := y\<rparr>"
      using assms(1,2) unfolding awake_def by blast
    then have "procs u p = (procs s p)\<lparr>pstate := y\<rparr>" by simp
    then show ?thesis by blast
  qed
  with assms show ?thesis by (simp add: awake_def)
qed

lemma bio_frame_trans: "bio_frame s t \<Longrightarrow> bio_frame t u \<Longrightarrow> bio_frame s u"
  using awake_trans [of s t u] bio_frame_proj(5) [of s t] by (simp add: bio_frame_def)

lemma woken_awake: "awake s (s\<lparr>procs := woken c (Some (me s)) (procs s)\<rparr>)"
proof -
  have "\<exists>st. woken c (Some (me s)) (procs s) p = (procs s p)\<lparr>pstate := st\<rparr>" for p
  proof (cases "woken c (Some (me s)) (procs s) p = procs s p")
    case True
    then show ?thesis by (intro exI [of _ "pstate (procs s p)"]) simp
  next
    case False
    then show ?thesis by (intro exI [of _ RUNNABLE]) (simp add: woken_def split: if_splits)
  qed
  then show ?thesis by (simp add: awake_def woken_def)
qed

lemma bio_frame_updates:
  "bio_frame s (s\<lparr>bufs := b\<rparr>)" "bio_frame s (s\<lparr>slocks := l\<rparr>)" "bio_frame s (s\<lparr>lru := r\<rparr>)"
  "bio_frame s (s\<lparr>disk := d\<rparr>)" "bio_frame s (s\<lparr>dwrites := w\<rparr>)"
  "bio_frame s (s\<lparr>procs := woken c (Some (me s)) (procs s)\<rparr>)"
  using awake_refl [of s] woken_awake [of s c] by (simp_all add: bio_frame_def bio_rest_def awake_def)

section \<open>Taking a buffer\<close>

definition locked_by :: "'z bio_scheme \<Rightarrow> nat \<Rightarrow> (buf \<Rightarrow> buf) \<Rightarrow> 'z bio_scheme" where
  "locked_by s b f = s\<lparr>bufs := (bufs s)(b := f (bufs s b)),
     slocks := (slocks s)(BufSleep b := (slocks s (BufSleep b))\<lparr>slocked := True, spid := mypid s\<rparr>)\<rparr>"

lemma take_buffer:
  assumes "quiet s" and "b \<notin> held s" and "b < NBUF"
  shows "Seq (upd_buf b f) (Seq (release BcacheLock) (Seq (acquiresleep (BufSleep b)) (return (Some b)))) (enter BcacheLock s)
    = Done (Some b) (locked_by s b f)"
proof -
  let ?u = "(enter BcacheLock s)\<lparr>bufs := (bufs s)(b := f (bufs s b))\<rparr>"
  let ?t = "s\<lparr>bufs := (bufs s)(b := f (bufs s b))\<rparr>"
  have "upd_buf b f (enter BcacheLock s) = Done () ?u"
    by (simp add: upd_buf_def modify_def enter_def upd_mycpu_def)
  moreover have "release BcacheLock ?u = Done () ?t"
    using quiet_release [OF assms(1), of ?u BcacheLock] by (simp add: enter_def upd_mycpu_def)
  moreover have "quiet ?t" "mypid ?t = mypid s"
    using assms(1) quiet_cong [of ?t s] by (simp_all add: mypid_def me_def mycpu_def)
  moreover have "acquiresleep (BufSleep b) ?t = Done () (locked_by s b f)"
    using acquiresleep_eq [of ?t "BufSleep b"] calculation(3,4) assms(2,3)
    by (simp add: held_def locked_by_def)
  ultimately show ?thesis by (simp add: Do_def return_def)
qed

lemma bget_eq:
  assumes q: "quiet s" and inv: "bio_inv P s" and nh: "\<And>b. b \<in> held s \<Longrightarrow> \<not> hits s n b"
    and room: "held s \<union> P \<noteq> {..<NBUF} \<or> (\<exists>b<NBUF. hits s n b)"
  obtains (hit) b where "b < NBUF" "b \<notin> held s" "hits s n b"
      "bget ROOTDEV n s = Done b (locked_by s b (\<lambda>x. x\<lparr>brefcnt := brefcnt x + 1\<rparr>))"
  | (miss) b where "b < NBUF" "b \<notin> held s \<union> P" "\<And>c. c < NBUF \<Longrightarrow> \<not> hits s n c"
      "bget ROOTDEV n s = Done b (locked_by s b (\<lambda>x. x\<lparr>bdev := ROOTDEV, bblockno := n, bvalid := False, brefcnt := 1\<rparr>))"
proof -
  let ?u = "enter BcacheLock s"
  have bu: "bufs ?u = bufs s" "lru ?u = lru s" by (simp_all add: enter_def upd_mycpu_def)
  note lr = bio_invD(2,3) [OF inv]
  have 1: "for_find (lru s) (bget_cached ROOTDEV n) ?u =
     (case find (hits s n) (lru s) of None \<Rightarrow> Done None ?u
      | Some b \<Rightarrow> Done (Some b) (locked_by s b (\<lambda>x. x\<lparr>brefcnt := brefcnt x + 1\<rparr>)))"
  proof (rule for_find_pure)
    fix b assume "b \<in> set (lru s)"
    then have "b < NBUF" "hits s n b \<Longrightarrow> b \<notin> held s" using lr nh by auto
    then show "bget_cached ROOTDEV n b ?u = (if hits s n b
        then Done (Some b) (locked_by s b (\<lambda>x. x\<lparr>brefcnt := brefcnt x + 1\<rparr>)) else Done None ?u)"
      by (simp add: bget_cached_def Do_gets return_app bu take_buffer [OF q] hits_def)
  qed
  have free: "brefcnt (bufs s b) = 0 \<longleftrightarrow> b \<notin> held s \<union> P" if "b < NBUF" for b
    using bio_invD(5) [OF inv that] by (auto simp: buf_ok_def of_bool_def split: if_splits)
  have 2: "for_find (rev (lru s)) (bget_recycle ROOTDEV n) ?u =
     (case find (\<lambda>b. brefcnt (bufs s b) = 0) (rev (lru s)) of None \<Rightarrow> Done None ?u
      | Some b \<Rightarrow> Done (Some b) (locked_by s b (\<lambda>x. x\<lparr>bdev := ROOTDEV, bblockno := n, bvalid := False, brefcnt := 1\<rparr>)))"
  proof (rule for_find_pure)
    fix b assume "b \<in> set (rev (lru s))"
    then have b: "b < NBUF" using lr by auto
    then show "bget_recycle ROOTDEV n b ?u = (if brefcnt (bufs s b) = 0
        then Done (Some b) (locked_by s b (\<lambda>x. x\<lparr>bdev := ROOTDEV, bblockno := n, bvalid := False, brefcnt := 1\<rparr>))
        else Done None ?u)"
      using free [OF b] by (simp add: bget_recycle_def Do_gets return_app bu take_buffer [OF q])
  qed
  have bg: "bget ROOTDEV n s = Do (for_find (lru s) (bget_cached ROOTDEV n)) (\<lambda>r. case r of Some b \<Rightarrow> return b | None \<Rightarrow>
     Do (for_find (rev (lru s)) (bget_recycle ROOTDEV n)) (\<lambda>r. case r of Some b \<Rightarrow> return b | None \<Rightarrow>
     panic ''bget: no buffers'')) ?u"
    unfolding bget_def
    by (subst Do_Done [of "acquire BcacheLock", OF quiet_acquire [OF q, of BcacheLock]]) (simp add: Do_gets bu)
  show ?thesis
  proof (cases "find (hits s n) (lru s)")
    case (Some b)
    then have "b < NBUF" "hits s n b" using lr by (auto dest: find_SomeD)
    with Some 1 bg nh show ?thesis by (intro hit [of b]) (auto simp: Do_def return_def)
  next
    case None
    then have nohit: "\<not> hits s n c" if "c < NBUF" for c using lr that by (auto simp: find_None_iff)
    have "held s \<union> P \<subseteq> {..<NBUF}" using bio_invD(1) [OF inv] by (auto simp: held_def)
    with room nohit obtain c where "c < NBUF" "c \<notin> held s \<union> P" by blast
    then have "find (\<lambda>b. brefcnt (bufs s b) = 0) (rev (lru s)) \<noteq> None"
      using lr free by (auto simp: find_None_iff)
    then obtain b where b: "find (\<lambda>b. brefcnt (bufs s b) = 0) (rev (lru s)) = Some b" by blast
    then have "b \<in> set (rev (lru s))" "brefcnt (bufs s b) = 0" by (auto dest: find_SomeD)
    with lr free have "b < NBUF" "b \<notin> held s \<union> P" by auto
    with nohit None 1 2 b bg show ?thesis
      by (intro miss [of b]) (auto simp: Do_def return_def)
  qed
qed

lemma for_find_none: "(\<And>b. b \<in> set l \<Longrightarrow> body b s = Done None s) \<Longrightarrow> for_find l body s = Done None s"
  by (induction l) (simp_all add: Do_def return_def)

lemma bget_exhausted:
  assumes q: "quiet s" and inv: "bio_inv P s" and full: "held s \<union> P = {..<NBUF}" and nohit: "\<And>c. c < NBUF \<Longrightarrow> \<not> hits s n c"
  shows "bget ROOTDEV n s = Stop (Panic ''bget: no buffers'') (enter BcacheLock s)"
proof -
  let ?u = "enter BcacheLock s"
  have bu: "bufs ?u = bufs s" "lru ?u = lru s" by (simp_all add: enter_def upd_mycpu_def)
  have used: "brefcnt (bufs s b) \<noteq> 0" if "b < NBUF" for b
    using bio_invD(5) [OF inv that] full that by (auto simp: buf_ok_def of_bool_def split: if_splits)
  have "for_find (lru s) (bget_cached ROOTDEV n) ?u = Done None ?u"
  proof (rule for_find_none)
    fix b assume "b \<in> set (lru s)"
    then have "\<not> hits s n b" using nohit bio_invD(3) [OF inv] by simp
    then show "bget_cached ROOTDEV n b ?u = Done None ?u" by (auto simp: bget_cached_def Do_gets return_app bu hits_def)
  qed
  moreover have "for_find (rev (lru s)) (bget_recycle ROOTDEV n) ?u = Done None ?u"
  proof (rule for_find_none)
    fix b assume "b \<in> set (rev (lru s))"
    then have "brefcnt (bufs s b) \<noteq> 0" using used bio_invD(3) [OF inv] by simp
    then show "bget_recycle ROOTDEV n b ?u = Done None ?u" by (simp add: bget_recycle_def Do_gets return_app bu)
  qed
  ultimately show ?thesis using q bu by (simp add: bget_def Do_def quiet_acquire gets_def stop_def)
qed

lemma held_locked_by: "b < NBUF \<Longrightarrow> held (locked_by s b f) = insert b (held s)"
  by (auto simp: held_def locked_by_def)

lemma locked_by_proj [simp]:
  "bufs (locked_by s b f) = (bufs s)(b := f (bufs s b))" "lru (locked_by s b f) = lru s"
  "disk (locked_by s b f) = disk s" "dwrites (locked_by s b f) = dwrites s" "procs (locked_by s b f) = procs s"
  "slocks (locked_by s b f) = (slocks s)(BufSleep b := (slocks s (BufSleep b))\<lparr>slocked := True, spid := mypid s\<rparr>)"
  by (simp_all add: locked_by_def)

lemma bio_frame_locked_by: "bio_frame s (locked_by s b f)"
  using awake_refl [of s] by (simp add: bio_frame_def bio_rest_def locked_by_def awake_def)

text \<open>The state after \<open>bread\<close>, whichever way the buffer was found.\<close>

definition loaded :: "nat set \<Rightarrow> uint \<Rightarrow> byte list \<Rightarrow> nat \<Rightarrow> buf \<Rightarrow> buf" where
  "loaded P n d b x = x\<lparr>bvalid := True, bdev := ROOTDEV, bblockno := n, brefcnt := 1 + of_bool (b \<in> P), bdata := d\<rparr>"

lemma hits_loaded:
  "hits (locked_by s b (loaded P n d b)) m c \<longleftrightarrow> (if c = b then m = n else hits s m c)"
  by (auto simp: hits_def loaded_def)

lemma blk_loaded:
  assumes inv: "bio_inv P s" and b: "b < NBUF" "b \<notin> held s"
    and uniq: "\<And>c. c < NBUF \<Longrightarrow> c \<noteq> b \<Longrightarrow> \<not> hits s n c" and pin: "b \<in> P \<Longrightarrow> hits s n b"
  shows "blk (locked_by s b (loaded P n (blk s n) b)) m = blk s m"
proof (cases "m = n")
  case True
  show ?thesis
  proof (rule blk_eqI, goal_cases)
    case (1 c)
    then show ?case using uniq True by (auto simp: hits_loaded loaded_def split: if_splits)
  next
    case 2
    then show ?case using 2 [OF b(1)] True by (simp add: hits_loaded loaded_def)
  qed
next
  case False
  show ?thesis
  proof (rule blk_eqI, goal_cases)
    case (1 c)
    then have "c \<noteq> b" "hits s m c" "bvalid (bufs s c)" using False by (auto simp: hits_loaded split: if_splits)
    then show ?case using blk_cached [OF inv 1(1)] by simp
  next
    case 2
    then have other: "\<not> bvalid (bufs s c)" if "c < NBUF" "c \<noteq> b" "hits s m c" for c
      using that by (force simp: hits_loaded)
    have "blk s m = disk s m"
    proof (cases "hits s m b \<and> bvalid (bufs s b)")
      case True
      then have "b \<notin> P" using pin False by (auto simp: hits_def)
      then have "bdata (bufs s b) = disk s m"
        using bio_invD(5) [OF inv b(1)] b True by (auto simp: buf_ok_def hits_def)
      with True show ?thesis using blk_cached [OF inv b(1)] by simp
    next
      case False
      then show ?thesis using other by (intro blk_uncached) blast
    qed
    then show ?case by simp
  qed
qed

lemma bio_inv_loaded:
  assumes inv: "bio_inv P s" and b: "b < NBUF" "b \<notin> held s"
    and uniq: "\<And>c. c < NBUF \<Longrightarrow> c \<noteq> b \<Longrightarrow> \<not> hits s n c" and d: "length d = BSIZE"
  shows "bio_inv P (locked_by s b (loaded P n d b))"
proof -
  let ?t = "locked_by s b (loaded P n d b)"
  have pid: "mypid ?t = mypid s" using bio_frame_proj(6) [OF bio_frame_locked_by] .
  have ok: "buf_ok P ?t c" if "c < NBUF" for c
    using bio_invD(5) [OF inv that] d b
    by (cases "c = b") (auto simp: buf_ok_def held_locked_by pid loaded_def)
  have un: "c = e" if "c < NBUF" "e < NBUF" "hits ?t m c" "hits ?t m e" for m c e
    using that uniq bio_invD(6) [OF inv] by (auto simp: hits_loaded split: if_splits)
  show ?thesis
    unfolding bio_inv_def
  proof (intro conjI allI impI)
    fix m c e assume "c < NBUF" "e < NBUF" "hits ?t m c \<and> hits ?t m e"
    then show "c = e" using un by blast
  qed (use bio_invD(1-4) [OF inv] ok in simp_all)
qed

lemma bread_spec:
  assumes q: "quiet s" and inv: "bio_inv P s" and nh: "\<And>b. b \<in> held s \<Longrightarrow> \<not> hits s n b"
    and room: "held s \<union> P \<noteq> {..<NBUF} \<or> (\<exists>b<NBUF. hits s n b)"
  obtains b where "b < NBUF" "b \<notin> held s" "b \<in> P \<Longrightarrow> hits s n b" "\<And>c. c < NBUF \<Longrightarrow> c \<noteq> b \<Longrightarrow> \<not> hits s n c"
    "bread ROOTDEV n s = Done b (locked_by s b (loaded P n (blk s n) b))"
proof (rule bget_eq [OF q inv nh room])
  fix b assume b: "b < NBUF" "b \<notin> held s" "hits s n b"
    and g: "bget ROOTDEV n s = Done b (locked_by s b (\<lambda>x. x\<lparr>brefcnt := brefcnt x + 1\<rparr>))"
  have u: "\<not> hits s n c" if "c < NBUF" "c \<noteq> b" for c using bio_invD(6) [OF inv that(1) b(1)] that b(3) by blast
  have ok: "buf_ok P s b" using bio_invD(5) [OF inv b(1)] .
  have "bread ROOTDEV n s = Done b (locked_by s b (loaded P n (blk s n) b))"
  proof (cases "bvalid (bufs s b)")
    case True
    then have "loaded P n (blk s n) b (bufs s b) = (bufs s b)\<lparr>brefcnt := brefcnt (bufs s b) + 1\<rparr>"
      using blk_cached [OF inv b(1) True b(3)] ok b
      by (auto simp: loaded_def buf_ok_def hits_def intro!: buf.equality)
    with True g show ?thesis by (simp add: bread_def Do_def gets_def return_def locked_by_def)
  next
    case False
    then have "blk s n = disk s n" using u by (intro blk_uncached) blast
    then have "loaded P n (blk s n) b (bufs s b) =
        (bufs s b)\<lparr>brefcnt := brefcnt (bufs s b) + 1, bdata := disk s n, bvalid := True\<rparr>"
      using ok b by (auto simp: loaded_def buf_ok_def hits_def intro!: buf.equality)
    with False g b(3) show ?thesis
      by (simp add: bread_def Do_def gets_def return_def disk_rw_def modify_def upd_buf_def Let_def locked_by_def hits_def)
  qed
  then show thesis using b u by (intro that [of b])
next
  fix b assume b: "b < NBUF" "b \<notin> held s \<union> P" and u: "\<And>c. c < NBUF \<Longrightarrow> \<not> hits s n c"
    and g: "bget ROOTDEV n s = Done b (locked_by s b (\<lambda>x. x\<lparr>bdev := ROOTDEV, bblockno := n, bvalid := False, brefcnt := 1\<rparr>))"
  have "blk s n = disk s n" using u by (intro blk_uncached) blast
  then have "loaded P n (blk s n) b (bufs s b) = (bufs s b)\<lparr>bdev := ROOTDEV, bblockno := n, brefcnt := 1,
      bdata := disk s n, bvalid := True\<rparr>"
    using b by (auto simp: loaded_def intro!: buf.equality)
  with g b have "bread ROOTDEV n s = Done b (locked_by s b (loaded P n (blk s n) b))"
    by (simp add: bread_def Do_def gets_def return_def disk_rw_def modify_def upd_buf_def Let_def locked_by_def)
  then show thesis using b u by (intro that [of b]) auto
qed

section \<open>Specifications in terms of blocks\<close>

definition holds :: "'z bio_scheme \<Rightarrow> nat \<Rightarrow> uint \<Rightarrow> bool" where
  "holds s b n \<longleftrightarrow> b \<in> held s \<and> hits s n b"

lemma holds_data:
  assumes "bio_inv P s" and "holds s b n"
  shows "b < NBUF" "bvalid (bufs s b)" "bdata (bufs s b) = blk s n" "length (blk s n) = BSIZE"
    "spid (slocks s (BufSleep b)) = mypid s" "slocked (slocks s (BufSleep b))"
    "bdev (bufs s b) = ROOTDEV" "bblockno (bufs s b) = n"
proof -
  show b: "b < NBUF" "slocked (slocks s (BufSleep b))" using assms(2) by (auto simp: holds_def held_def)
  then show v: "bvalid (bufs s b)" "spid (slocks s (BufSleep b)) = mypid s"
    using bio_invD(5) [OF assms(1) b(1)] assms(2) by (auto simp: buf_ok_def holds_def)
  then show "bdata (bufs s b) = blk s n" using blk_cached [OF assms(1) b(1), of n] assms(2) by (simp add: holds_def)
  show "length (blk s n) = BSIZE" by (rule length_blk [OF assms(1)])
  show "bdev (bufs s b) = ROOTDEV" "bblockno (bufs s b) = n" using assms(2) by (simp_all add: holds_def hits_def)
qed

lemma bread_holds:
  assumes "quiet s" and "bio_inv P s" and "\<And>b. \<not> holds s b n" and "held s \<union> P \<noteq> {..<NBUF} \<or> (\<exists>b<NBUF. hits s n b)"
  shows "wp (bread ROOTDEV n) (\<lambda>b t. b \<notin> held s \<and> held t = insert b (held s) \<and> holds t b n \<and> bio_inv P t \<and>
    blk t = blk s \<and> bio_frame s t \<and> disk t = disk s \<and> dwrites t = dwrites s \<and> (b \<in> P \<longrightarrow> hits s n b) \<and>
    (\<forall>c\<in>held s \<union> P. \<forall>m. hits t m c = hits s m c)) s"
proof (rule bread_spec [OF assms(1,2) _ assms(4)])
  show "\<not> hits s n b" if "b \<in> held s" for b using assms(3) [of b] that by (simp add: holds_def)
next
  fix b assume b: "b < NBUF" "b \<notin> held s" "b \<in> P \<Longrightarrow> hits s n b" "\<And>c. c < NBUF \<Longrightarrow> c \<noteq> b \<Longrightarrow> \<not> hits s n c"
    and e: "bread ROOTDEV n s = Done b (locked_by s b (loaded P n (blk s n) b))"
  let ?t = "locked_by s b (loaded P n (blk s n) b)"
  have "held ?t = insert b (held s)" by (rule held_locked_by [OF b(1)])
  moreover have "bio_inv P ?t" using b length_blk [OF assms(2)] by (intro bio_inv_loaded [OF assms(2)]) auto
  moreover have "blk ?t = blk s" using b by (intro ext blk_loaded [OF assms(2)]) auto
  moreover have "\<forall>c\<in>held s \<union> P. \<forall>m. hits ?t m c = hits s m c"
    using b(2,3) by (auto simp: hits_loaded) (auto simp: hits_def)
  ultimately show ?thesis
    using e b bio_frame_locked_by [of s b] by (simp add: wp_def holds_def hits_loaded)
qed

text \<open>A store into the data of a held buffer.\<close>

definition set_data :: "nat \<Rightarrow> byte list \<Rightarrow> 'z bio_scheme \<Rightarrow> 'z bio_scheme" where
  "set_data b d s = s\<lparr>bufs := (bufs s)(b := (bufs s b)\<lparr>bdata := d\<rparr>)\<rparr>"

lemma set_data_simps [simp]:
  "held (set_data b d s) = held s" "hits (set_data b d s) = hits s" "holds (set_data b d s) = holds s"
  "disk (set_data b d s) = disk s" "dwrites (set_data b d s) = dwrites s" "mypid (set_data b d s) = mypid s"
  "slocks (set_data b d s) = slocks s" "bio_frame s (set_data b d s)" "quiet (set_data b d s) = quiet s"
  using awake_refl [of s] quiet_cong [of "set_data b d s" s]
  by (auto simp: held_def hits_def holds_def set_data_def fun_eq_iff mypid_def me_def mycpu_def bio_frame_def
      bio_rest_def awake_def)

lemma set_data_spec:
  assumes inv: "bio_inv P s" and h: "holds s b n" and d: "length d = BSIZE"
  shows "bio_inv P (set_data b d s)" and "blk (set_data b d s) = (blk s)(n := d)"
proof -
  note b = holds_data [OF inv h]
  have bu: "bufs (set_data b d s) = (bufs s)(b := (bufs s b)\<lparr>bdata := d\<rparr>)" by (simp add: set_data_def)
  have "buf_ok P (set_data b d s) c" if "c < NBUF" for c
    using bio_invD(5) [OF inv that] h d by (cases "c = b") (auto simp: buf_ok_def bu holds_def)
  moreover have "lru (set_data b d s) = lru s" by (simp add: set_data_def)
  ultimately show inv': "bio_inv P (set_data b d s)" using inv by (auto simp: bio_inv_def)
  show "blk (set_data b d s) = (blk s)(n := d)"
  proof (rule ext, goal_cases)
    case (1 m)
    show ?case
    proof (cases "m = n")
      case True
      then show ?thesis using blk_cached [OF inv' b(1), of n] b h by (simp add: bu holds_def)
    next
      case False
      have other: "c \<noteq> b" if "hits s m c" for c using that False h by (auto simp: holds_def hits_def)
      show ?thesis
      proof (rule blk_eqI, goal_cases)
        case (1 c)
        then show ?case using other [of c] blk_cached [OF inv 1(1), of m] False by (simp add: bu)
      next
        case 2
        then have "blk s m = disk s m" using other by (intro blk_uncached) (auto simp: bu)
        then show ?case using False by simp
      qed
    qed
  qed
qed

lemma bwrite_spec:
  assumes q: "quiet s" and inv: "bio_inv P s" and h: "holds s b n"
  shows "wp (bwrite b) (\<lambda>_ t. t = s\<lparr>disk := (disk s)(n := blk s n), dwrites := dwrites s @ [(n, blk s n)]\<rparr> \<and>
    bio_inv P t \<and> blk t = blk s \<and> held t = held s \<and> hits t = hits s \<and> bio_frame s t) s"
proof -
  note b = holds_data [OF inv h]
  let ?t = "s\<lparr>disk := (disk s)(n := blk s n), dwrites := dwrites s @ [(n, blk s n)]\<rparr>"
  have e: "bwrite b s = Done () ?t"
    using q b by (simp add: bwrite_def Do_def holdingsleep_eq disk_rw_def modify_def)
  have hh: "held ?t = held s" "hits ?t = hits s" "mypid ?t = mypid s"
    by (auto simp: held_def hits_def fun_eq_iff mypid_def me_def mycpu_def)
  have "buf_ok P ?t c" if c: "c < NBUF" for c
  proof -
    have "bdata (bufs s c) = blk s n" if "bvalid (bufs s c)" "bblockno (bufs s c) = n" "bdev (bufs s c) = ROOTDEV"
      using blk_cached [OF inv c that(1), of n] that by (simp add: hits_def)
    then show ?thesis
      using bio_invD(5) [OF inv c]
      by (cases "bblockno (bufs s c) = n") (auto simp: buf_ok_def hh simp del: of_bool_eq_iff)
  qed
  then have "bio_inv P ?t" using inv hh b(4) by (auto simp: bio_inv_def)
  moreover have "blk ?t = blk s"
  proof (rule ext, rule blk_eqI, goal_cases)
    case (1 m c)
    then show ?case using blk_cached [OF inv 1(1), of m] hh by simp
  next
    case (2 m)
    then have none: "\<not> bvalid (bufs s c)" if "c < NBUF" "hits s m c" for c using that hh by simp
    have "m \<noteq> n" using none [OF b(1)] b(2) h by (auto simp: holds_def)
    then show ?case using blk_uncached [OF none] by simp
  qed
  moreover have "bio_frame s ?t" using awake_refl [of s] by (simp add: bio_frame_def bio_rest_def awake_def)
  ultimately show ?thesis using e hh by (simp add: wp_def)
qed

definition released :: "nat \<Rightarrow> 'z bio_scheme \<Rightarrow> 'z bio_scheme" where
  "released b s = s\<lparr>slocks := (slocks s)(BufSleep b := (slocks s (BufSleep b))\<lparr>slocked := False, spid := 0\<rparr>),
     procs := woken (SlockChan (BufSleep b)) (Some (me s)) (procs s),
     bufs := (bufs s)(b := (bufs s b)\<lparr>brefcnt := brefcnt (bufs s b) - 1\<rparr>),
     lru := (if brefcnt (bufs s b) = 1 then b # remove1 b (lru s) else lru s)\<rparr>"

lemma released_proj [simp]:
  "disk (released b s) = disk s" "dwrites (released b s) = dwrites s"
  "bufs (released b s) = (bufs s)(b := (bufs s b)\<lparr>brefcnt := brefcnt (bufs s b) - 1\<rparr>)"
  "lru (released b s) = (if brefcnt (bufs s b) = 1 then b # remove1 b (lru s) else lru s)"
  "slocks (released b s) = (slocks s)(BufSleep b := (slocks s (BufSleep b))\<lparr>slocked := False, spid := 0\<rparr>)"
  "hits (released b s) = hits s" "held (released b s) = held s - {b}"
  by (auto simp: released_def hits_def held_def fun_eq_iff)

lemma bio_frame_released: "bio_frame s (released b s)"
  using woken_awake [of s "SlockChan (BufSleep b)"]
  by (simp add: bio_frame_def bio_rest_def released_def awake_def)

lemma brelse_eq:
  assumes q: "quiet s" and inv: "bio_inv P s" and h: "holds s b n"
  shows "brelse b s = Done () (released b s)"
proof -
  note b = holds_data [OF inv h]
  let ?s1 = "s\<lparr>slocks := (slocks s)(BufSleep b := (slocks s (BufSleep b))\<lparr>slocked := False, spid := 0\<rparr>),
    procs := woken (SlockChan (BufSleep b)) (Some (me s)) (procs s)\<rparr>"
  have q1: "quiet ?s1" using q by simp
  let ?x = "(bufs s b)\<lparr>brefcnt := brefcnt (bufs s b) - 1\<rparr>"
  let ?v = "(enter BcacheLock ?s1)\<lparr>bufs := (bufs s)(b := ?x),
    lru := (if brefcnt (bufs s b) = 1 then b # remove1 b (lru s) else lru s)\<rparr>"
  have bl: "bufs (enter BcacheLock ?s1) = bufs s" "lru (enter BcacheLock ?s1) = lru s"
    by (simp_all add: enter_def upd_mycpu_def)
  have "brelse b s = release BcacheLock ?v"
    using b bl by (simp add: brelse_def Do_def holdingsleep_eq [OF q] releasesleep_eq [OF q] quiet_acquire [OF q1]
        upd_buf_def modify_def gets_def return_def)
      (simp add: enter_def upd_mycpu_def)
  moreover have "release BcacheLock ?v = Done () (?v\<lparr>cpus := cpus ?s1, locks := locks ?s1\<rparr>)"
    by (rule quiet_release [OF q1]) simp_all
  moreover have "?v\<lparr>cpus := cpus ?s1, locks := locks ?s1\<rparr> = released b s"
    by (simp add: released_def enter_def upd_mycpu_def)
  ultimately show ?thesis by simp
qed

lemma brelse_spec:
  assumes q: "quiet s" and inv: "bio_inv P s" and h: "holds s b n" and clean: "b \<in> P \<or> blk s n = disk s n"
  shows "wp (brelse b) (\<lambda>_ t. bio_inv P t \<and> blk t = blk s \<and> held t = held s - {b} \<and> hits t = hits s \<and>
    disk t = disk s \<and> dwrites t = dwrites s \<and> bio_frame s t) s"
proof -
  note b = holds_data [OF inv h]
  let ?t = "released b s"
  have pid: "mypid ?t = mypid s" using bio_frame_proj(6) [OF bio_frame_released] .
  have "buf_ok P ?t c" if c: "c < NBUF" for c
    using bio_invD(5) [OF inv c] h clean b
    by (cases "c = b") (auto simp: buf_ok_def pid holds_def)
  moreover have "distinct (lru ?t) \<and> set (lru ?t) = {..<NBUF}"
    using bio_invD(2,3) [OF inv] b(1) by (auto simp: distinct_remove1)
  ultimately have "bio_inv P ?t" using inv by (auto simp: bio_inv_def)
  moreover have "blk ?t = blk s"
    by (rule blk_cong) simp_all
  ultimately show ?thesis
    using brelse_eq [OF q inv h] bio_frame_released by (simp add: wp_def)
qed

text \<open>Pinning works inside the critical section of the log.\<close>

lemma bpin_eq:
  assumes "lk_free s BcacheLock" and "settled (mycpu s)"
  shows "bpin b s = Done () (s\<lparr>bufs := (bufs s)(b := (bufs s b)\<lparr>brefcnt := brefcnt (bufs s b) + 1\<rparr>)\<rparr>)"
    and "bunpin b s = Done () (s\<lparr>bufs := (bufs s)(b := (bufs s b)\<lparr>brefcnt := brefcnt (bufs s b) - 1\<rparr>)\<rparr>)"
proof -
  have *: "Seq (acquire BcacheLock) (Seq (upd_buf b f) (release BcacheLock)) s =
      Done () (s\<lparr>bufs := (bufs s)(b := f (bufs s b))\<rparr>)" for f
  proof -
    let ?v = "(enter BcacheLock s)\<lparr>bufs := (bufs s)(b := f (bufs s b))\<rparr>"
    have "upd_buf b f (enter BcacheLock s) = Done () ?v"
      by (simp add: upd_buf_def modify_def enter_def upd_mycpu_def)
    then have "Seq (acquire BcacheLock) (Seq (upd_buf b f) (release BcacheLock)) s =
        Done () (?v\<lparr>cpus := cpus s, locks := locks s\<rparr>)"
      using assms by (intro critical_section(2)) simp_all
    then show ?thesis by (simp add: enter_def upd_mycpu_def)
  qed
  show "bpin b s = Done () (s\<lparr>bufs := (bufs s)(b := (bufs s b)\<lparr>brefcnt := brefcnt (bufs s b) + 1\<rparr>)\<rparr>)"
    "bunpin b s = Done () (s\<lparr>bufs := (bufs s)(b := (bufs s b)\<lparr>brefcnt := brefcnt (bufs s b) - 1\<rparr>)\<rparr>)"
    by (simp_all add: bpin_def bunpin_def *)
qed

lemma refcnt_update:
  fixes s :: "'z bio_scheme"
  defines "t \<equiv> \<lambda>b k. s\<lparr>bufs := (bufs s)(b := (bufs s b)\<lparr>brefcnt := k\<rparr>)\<rparr>"
  shows "held (t b k) = held s" "hits (t b k) = hits s" "blk (t b k) = blk s" "bio_frame s (t b k)"
    "holds (t b k) = holds s" "mypid (t b k) = mypid s"
proof -
  show h: "held (t b k) = held s" "hits (t b k) = hits s" by (auto simp: t_def held_def hits_def fun_eq_iff)
  then show "holds (t b k) = holds s" by (auto simp: holds_def fun_eq_iff)
  show "blk (t b k) = blk s" by (rule blk_cong) (simp_all add: h, simp_all add: t_def)
  show f: "bio_frame s (t b k)" unfolding t_def by (rule bio_frame_updates)
  show "mypid (t b k) = mypid s" using f by (rule bio_frame_proj(6))
qed

lemma pin_inv:
  assumes inv: "bio_inv P s" and h: "holds s b n" and "b \<notin> P"
  shows "bio_inv (insert b P) (s\<lparr>bufs := (bufs s)(b := (bufs s b)\<lparr>brefcnt := brefcnt (bufs s b) + 1\<rparr>)\<rparr>)"
proof -
  note b = holds_data [OF inv h]
  let ?t = "s\<lparr>bufs := (bufs s)(b := (bufs s b)\<lparr>brefcnt := brefcnt (bufs s b) + 1\<rparr>)\<rparr>"
  note r = refcnt_update [of s b]
  have "buf_ok (insert b P) ?t c" if c: "c < NBUF" for c
    using bio_invD(5) [OF inv c] h assms(3) b by (cases "c = b") (auto simp: buf_ok_def r holds_def)
  then show ?thesis using inv b(1) r(2) by (auto simp: bio_inv_def)
qed

lemma unpin_inv:
  assumes inv: "bio_inv P s" and h: "holds s b n" and "b \<in> P"
  shows "bio_inv (P - {b}) (s\<lparr>bufs := (bufs s)(b := (bufs s b)\<lparr>brefcnt := brefcnt (bufs s b) - 1\<rparr>)\<rparr>)"
proof -
  note b = holds_data [OF inv h]
  let ?t = "s\<lparr>bufs := (bufs s)(b := (bufs s b)\<lparr>brefcnt := brefcnt (bufs s b) - 1\<rparr>)\<rparr>"
  note r = refcnt_update [of s b]
  have "buf_ok (P - {b}) ?t c" if c: "c < NBUF" for c
    using bio_invD(5) [OF inv c] h assms(3) b by (cases "c = b") (auto simp: buf_ok_def r holds_def)
  then show ?thesis using inv r(2) by (auto simp: bio_inv_def)
qed

section \<open>The cache is transparent\<close>

lemma bread_transparent:
  assumes "quiet s" and "bio_inv P s" and "\<And>b. \<not> holds s b n" and "held s \<union> P \<noteq> {..<NBUF} \<or> (\<exists>b<NBUF. hits s n b)"
  obtains b t where "bread ROOTDEV n s = Done b t" "b \<notin> held s" "held t = insert b (held s)" "holds t b n"
    "bio_inv P t" "blk t = blk s" "bio_frame s t" "disk t = disk s" "dwrites t = dwrites s" "b \<in> P \<longrightarrow> hits s n b"
    "\<forall>c\<in>held s \<union> P. \<forall>m. hits t m c = hits s m c" "quiet t" "bdata (bufs t b) = blk s n"
  using bread_holds [OF assms] assms(1)
  by (auto simp: wp_iff_Done holds_data(3) bio_frame_proj(4))

text \<open>C24: the buffer cache is transparent. \<open>bread\<close> of a block that the thread does not hold yet returns,
  as long as the block is cached or some buffer is neither held nor pinned, a locked buffer with the current contents of the
  block, whether it was cached or read; no block changes its contents as the kernel sees it, held and
  pinned buffers keep their blocks, nothing is written to the disk, and the invariant of the cache (a
  block in one buffer at most, exact reference counts, only clean buffers recycled) is kept.\<close>

theorem buffer_cache_transparent:
  assumes "quiet s" and "bio_inv P s" and "\<And>b. \<not> holds s b n" and "held s \<union> P \<noteq> {..<NBUF} \<or> (\<exists>b<NBUF. hits s n b)"
  shows "\<exists>b t. bread ROOTDEV n s = Done b t \<and> holds t b n \<and> bdata (bufs t b) = blk s n \<and> blk t = blk s \<and>
    bio_inv P t \<and> held t = insert b (held s) \<and> (\<forall>c\<in>held s \<union> P. \<forall>m. hits t m c = hits s m c) \<and>
    disk t = disk s \<and> dwrites t = dwrites s"
  using bread_transparent [OF assms] by metis

text \<open>\<open>binit\<close> establishes the invariant.\<close>

lemma binit_inv:
  assumes "\<And>b. bufs s b = \<lparr>bvalid = False, bdisk = False, bdev = 0, bblockno = 0, brefcnt = 0, bdata = []\<rparr>"
    and "\<And>n. length (disk s n) = BSIZE"
  shows "wp binit (\<lambda>_ t. bio_inv {} t \<and> held t = {} \<and> tp t = tp s \<and> cpus t = cpus s \<and> procs t = procs s \<and>
    (\<forall>lk. lk_free s lk \<longrightarrow> lk_free t lk) \<and> disk t = disk s \<and> blk t = disk s) s"
proof -
  let ?I = "\<lambda>ds t. lru t = rev ds \<and> (\<forall>b\<in>set ds. \<not> slocked (slocks t (BufSleep b))) \<and> bufs t = bufs s \<and> disk t = disk s \<and>
    tp t = tp s \<and> cpus t = cpus s \<and> procs t = procs s \<and> (\<forall>lk. lk_free s lk \<longrightarrow> lk_free t lk)"
  let ?s = "s\<lparr>locks := (locks s)(BcacheLock := \<lparr>locked = False, lname = ''bcache'', lcpu = None\<rparr>), lru := []\<rparr>"
  have "wp (for_each [0..<NBUF] (\<lambda>b. Seq (initsleeplock (BufSleep b) ''buffer'')
       (modify (\<lambda>s. s\<lparr>lru := b # lru s\<rparr>)))) (\<lambda>_. ?I [0..<NBUF]) ?s"
  proof (rule wp_for_each)
    show "?I [] ?s" by (auto simp: lk_free_def)
    fix ds i todo t assume "[0..<NBUF] = ds @ i # todo" and "?I ds t"
    then show "wp (Seq (initsleeplock (BufSleep i) ''buffer'') (modify (\<lambda>s. s\<lparr>lru := i # lru s\<rparr>))) (\<lambda>_. ?I (ds @ [i])) t"
      by (auto simp: wp_simps initsleeplock_def initlock_def upd_slock_def lk_free_def)
  qed
  then have "wp binit (\<lambda>_. ?I [0..<NBUF]) s"
    by (simp add: binit_def wp_simps initlock_def)
  then show ?thesis
  proof (rule wp_mono)
    fix t assume I: "?I [0..<NBUF] t"
    then have h: "held t = {}" by (auto simp: held_def)
    have nohit: "\<not> hits t n b" for n b using I assms(1) by (simp add: hits_def ROOTDEV_def)
    have "buf_ok {} t b" for b using I assms(1) h by (simp add: buf_ok_def)
    then have "bio_inv {} t" using I assms(2) nohit by (auto simp: bio_inv_def)
    moreover have "blk t = disk s" using nohit I blk_uncached [of t] by (intro ext) auto
    ultimately show "bio_inv {} t \<and> held t = {} \<and> tp t = tp s \<and> cpus t = cpus s \<and> procs t = procs s \<and>
      (\<forall>lk. lk_free s lk \<longrightarrow> lk_free t lk) \<and> disk t = disk s \<and> blk t = disk s" using h I by simp
  qed
qed

text \<open>A machine before \<open>binit\<close>.\<close>

definition buf_zero :: buf where
  "buf_zero = \<lparr>bvalid = False, bdisk = False, bdev = 0, bblockno = 0, brefcnt = 0, bdata = []\<rparr>"

definition bio0 :: "(uint \<Rightarrow> byte list) \<Rightarrow> bio" where
  "bio0 d = cons.extend (cons0 []) (bio.fields (\<lambda>_. buf_zero) [] d [])"

lemma bio0_proj [simp]:
  "tp (bio0 d) = tp uart0" "cpus (bio0 d) = cpus uart0" "locks (bio0 d) = locks uart0" "procs (bio0 d) = procs uart0"
  "bufs (bio0 d) = (\<lambda>_. buf_zero)" "disk (bio0 d) = d"
  by (simp_all add: bio0_def cons0_def cons.defs bio.defs uart.defs)

lemma quiet_bio0: "quiet (bio0 d)"
  using quiet_uart0 by (simp add: quiet_def mycpu_def lk_free_def)

theorem buffer_cache_transparent_witness:
  "\<exists>s b t. binit (bio0 (\<lambda>n. replicate 1024 (ucast n))) = Done () s \<and> bread ROOTDEV 46 s = Done b t \<and>
     bdata (bufs t b) = replicate 1024 46"
proof -
  let ?d = "\<lambda>n :: uint. replicate 1024 (ucast n :: byte)"
  obtain s where s: "binit (bio0 ?d) = Done () s" "bio_inv {} s" "held s = {}" "blk s = ?d" "quiet s"
    using binit_inv [of "bio0 ?d"] quiet_bio0 [of ?d] by (auto simp: wp_iff_Done buf_zero_def BSIZE_def quiet_def mycpu_def)
  have "0 \<in> {..<NBUF}" by (simp add: NBUF_def MAXOPBLOCKS_def)
  then have "held s \<union> {} \<noteq> {..<NBUF}" using s(3) by blast
  with buffer_cache_transparent [of s "{}" 46] s show ?thesis by (auto simp: holds_def)
qed

end
