(* ===== verification/Log.thy ===== *)
theory Log
  imports Bio
begin

text \<open>
  The write-ahead log (\<open>kernel/log.c\<close>). System calls that change the file system run between
  \<open>begin_op\<close> and \<open>end_op\<close>; the blocks they change stay pinned in the cache until the last of the
  concurrent calls commits them: copies to the log area, then the header, which is the commit point,
  then the blocks at their home locations, then an empty header. The theorem is crash atomicity:
  from every state the disk passes through, recovery restores either all changes or none.
\<close>

section \<open>State and operations\<close>

record logst = bio +
  log_start :: uint
  log_outstanding :: int
  log_committing :: bool
  log_dev :: uint
  lh_n :: int
  lh_block :: "nat \<Rightarrow> uint"

text \<open>\<open>memmove(to->data, from->data, BSIZE)\<close>\<close>

definition copy_data :: "nat \<Rightarrow> nat \<Rightarrow> ('z bio_scheme, unit) kern" where
  "copy_data to from = Do (gets (\<lambda>s. bdata (bufs s from))) (\<lambda>d. upd_buf to (\<lambda>x. x\<lparr>bdata := d\<rparr>))"

definition log_blocks :: "'z logst_scheme \<Rightarrow> uint list" where
  "log_blocks s = map (lh_block s) [0..<nat (lh_n s)]"

definition install_block :: "bool \<Rightarrow> nat \<Rightarrow> ('z logst_scheme, unit) kern" where
  "install_block recovering tail =
     Do (gets (\<lambda>s. (log_dev s, log_start s, lh_block s tail))) (\<lambda>(dev, start, dst).
     Seq (if recovering then
            Seq (printf ''recovering tail %d dst %d\<newline>'' [VInt (of_nat tail), VInt (ucast dst)]) skip
          else skip) (
     Do (bread dev (start + of_nat tail + 1)) (\<lambda>lbuf.
     Do (bread dev dst) (\<lambda>dbuf.
     Seq (copy_data dbuf lbuf) (
     Seq (bwrite dbuf) (
     Seq (kwhen (\<not> recovering) (bunpin dbuf)) (
     Seq (brelse lbuf)
     (brelse dbuf))))))))"

definition install_trans :: "bool \<Rightarrow> ('z logst_scheme, unit) kern" where
  "install_trans recovering =
     Do (gets lh_n) (\<lambda>n. for_each [0..<nat n] (install_block recovering))"

definition read_head :: "('z logst_scheme, unit) kern" where
  "read_head =
     Do (gets (\<lambda>s. (log_dev s, log_start s))) (\<lambda>(dev, start).
     Do (bread dev start) (\<lambda>b.
     Do (gets (\<lambda>s. bdata (bufs s b))) (\<lambda>d.
     Seq (modify (\<lambda>s. s\<lparr>lh_n := sint (rd32 d 0)\<rparr>)) (
     Do (gets lh_n) (\<lambda>n.
     Seq (for_each [0..<nat n] (\<lambda>i.
       modify (\<lambda>s. s\<lparr>lh_block := (lh_block s)(i := rd32 d (4 + 4 * i))\<rparr>)))
     (brelse b))))))"

definition write_head :: "('z logst_scheme, unit) kern" where
  "write_head =
     Do (gets (\<lambda>s. (log_dev s, log_start s))) (\<lambda>(dev, start).
     Do (bread dev start) (\<lambda>b.
     Do (gets (\<lambda>s. (lh_n s, log_blocks s))) (\<lambda>(n, bs).
     Seq (upd_buf b (\<lambda>x. x\<lparr>bdata := wr_addrs (wr32 (bdata x) 0 (of_int n)) 4 bs\<rparr>)) (
     Seq (bwrite b)
     (brelse b)))))"

definition recover_from_log :: "('z logst_scheme, unit) kern" where
  "recover_from_log =
     Seq read_head (
     Seq (install_trans True) (
     Seq (modify (\<lambda>s. s\<lparr>lh_n := 0\<rparr>))
     write_head))"

definition initlog :: "uint \<Rightarrow> superblock \<Rightarrow> ('z logst_scheme, unit) kern" where
  "initlog dev sb =
     (if 4 + 4 * LOGBLOCKS \<ge> BSIZE then panic ''initlog: too big logheader'' else
      Seq (initlock LogLock ''log'') (
      Seq (modify (\<lambda>s. s\<lparr>log_start := sb_logstart sb, log_dev := dev\<rparr>))
      recover_from_log))"

text \<open>The loop of \<open>begin_op\<close>, with \<open>log.lock\<close> held; a thread woken from the sleep enters it again.\<close>

definition begin_op_loop :: "('z logst_scheme, unit) kern" where
  "begin_op_loop =
     Do (gets (\<lambda>s. (log_committing s, lh_n s + (log_outstanding s + 1) * int MAXOPBLOCKS > int LOGBLOCKS))) (\<lambda>(committing, full).
     if committing then sleep LogChan LogLock
     else if full then sleep LogChan LogLock
     else
       Seq (modify (\<lambda>s. s\<lparr>log_outstanding := log_outstanding s + 1\<rparr>))
       (release LogLock))"

definition begin_op :: "('z logst_scheme, unit) kern" where
  "begin_op = Seq (acquire LogLock) begin_op_loop"

definition write_log_block :: "nat \<Rightarrow> ('z logst_scheme, unit) kern" where
  "write_log_block tail =
     Do (gets (\<lambda>s. (log_dev s, log_start s, lh_block s tail))) (\<lambda>(dev, start, src).
     Do (bread dev (start + of_nat tail + 1)) (\<lambda>to.
     Do (bread dev src) (\<lambda>from.
     Seq (copy_data to from) (
     Seq (bwrite to) (
     Seq (brelse from)
     (brelse to))))))"

definition write_log :: "('z logst_scheme, unit) kern" where
  "write_log = Do (gets lh_n) (\<lambda>n. for_each [0..<nat n] write_log_block)"

definition commit :: "('z logst_scheme, unit) kern" where
  "commit =
     Do (gets lh_n) (\<lambda>n.
     kwhen (n > 0) (
       Seq write_log (
       Seq write_head (
       Seq (install_trans False) (
       Seq (modify (\<lambda>s. s\<lparr>lh_n := 0\<rparr>))
       write_head)))))"

definition end_op :: "('z logst_scheme, unit) kern" where
  "end_op =
     Seq (acquire LogLock) (
     Seq (modify (\<lambda>s. s\<lparr>log_outstanding := log_outstanding s - 1\<rparr>)) (
     Do (gets (\<lambda>s. (log_committing s, log_outstanding s))) (\<lambda>(committing, outstanding).
     if committing then panic ''log.committing'' else
     Do (if outstanding = 0
         then Seq (modify (\<lambda>s. s\<lparr>log_committing := True\<rparr>)) (return True)
         else Seq (wakeup LogChan) (return False)) (\<lambda>do_commit.
     Seq (release LogLock) (
     kwhen do_commit (
       Seq commit (
       Seq (acquire LogLock) (
       Seq (modify (\<lambda>s. s\<lparr>log_committing := False\<rparr>)) (
       Seq (wakeup LogChan)
       (release LogLock))))))))))"

definition log_write :: "nat \<Rightarrow> ('z logst_scheme, unit) kern" where
  "log_write b =
     Seq (acquire LogLock) (
     Do (gets (\<lambda>s. (lh_n s, log_outstanding s, bblockno (bufs s b)))) (\<lambda>(n, outstanding, blockno).
     if n \<ge> int LOGBLOCKS then panic ''too big a transaction'' else
     if outstanding < 1 then panic ''log_write outside of trans'' else
     Do (gets (\<lambda>s. find (\<lambda>i. lh_block s i = blockno) [0..<nat n])) (\<lambda>found.
     let i = (case found of Some i \<Rightarrow> i | None \<Rightarrow> nat n) in
     Seq (modify (\<lambda>s. s\<lparr>lh_block := (lh_block s)(i := blockno)\<rparr>)) (
     Seq (kwhen (int i = n) (
       Seq (bpin b)
       (modify (\<lambda>s. s\<lparr>lh_n := lh_n s + 1\<rparr>))))
     (release LogLock)))))"

section \<open>Steps of a commit\<close>

lemma bio_frame_log:
  assumes "bio_frame s t"
  shows "log_start t = log_start s" "log_dev t = log_dev s" "lh_n t = lh_n s" "lh_block t = lh_block s"
    "log_outstanding t = log_outstanding s" "log_committing t = log_committing s" "log_blocks t = log_blocks s"
proof -
  have r: "bio_rest t = bio_rest s" using assms by (simp add: bio_frame_def)
  have "log_start (bio_rest u) = log_start u" "log_dev (bio_rest u) = log_dev u" "lh_n (bio_rest u) = lh_n u"
    "lh_block (bio_rest u) = lh_block u" "log_outstanding (bio_rest u) = log_outstanding u"
    "log_committing (bio_rest u) = log_committing u" for u :: "'a logst_scheme"
    by (simp_all add: bio_rest_def)
  with r show "log_start t = log_start s" "log_dev t = log_dev s" "lh_n t = lh_n s" "lh_block t = lh_block s"
    "log_outstanding t = log_outstanding s" "log_committing t = log_committing s"
    by metis+
  then show "log_blocks t = log_blocks s" by (simp add: log_blocks_def)
qed

lemma copy_data_eq: "copy_data to from s = Done () (set_data to (bdata (bufs s from)) s)"
  by (simp add: copy_data_def Do_def gets_def upd_buf_def modify_def set_data_def)

lemma bwrite_obtain:
  assumes "quiet s" and "bio_inv P s" and "holds s b n"
  obtains t where "bwrite b s = Done () t" "disk t = (disk s)(n := blk s n)" "dwrites t = dwrites s @ [(n, blk s n)]"
    "bio_inv P t" "blk t = blk s" "held t = held s" "hits t = hits s" "bio_frame s t" "quiet t" "bufs t = bufs s"
  using bwrite_spec [OF assms] assms(1) by (auto simp: wp_iff_Done dest: bio_frame_proj(4))

lemma brelse_obtain:
  assumes "quiet s" and "bio_inv P s" and "holds s b n" and "b \<in> P \<or> blk s n = disk s n"
  obtains t where "brelse b s = Done () t" "disk t = disk s" "dwrites t = dwrites s"
    "bio_inv P t" "blk t = blk s" "held t = held s - {b}" "hits t = hits s" "bio_frame s t" "quiet t"
  using brelse_spec [OF assms] assms(1) by (auto simp: wp_iff_Done bio_frame_proj(4))

lemma write_log_block_spec:
  assumes q: "quiet s" and inv: "bio_inv P s" and h0: "held s = {}" and P: "P \<noteq> {..<NBUF}"
    and dev: "log_dev s = ROOTDEV" and src: "src = lh_block s k" and lb: "lb = log_start s + of_nat k + 1" "src \<noteq> lb"
    and pin: "b\<^sub>0 \<in> P" "hits s src b\<^sub>0" and npin: "\<And>c. c \<in> P \<Longrightarrow> \<not> hits s lb c"
  shows "wp (write_log_block k) (\<lambda>_ t. bio_inv P t \<and> held t = {} \<and> blk t = (blk s)(lb := blk s src) \<and>
    disk t = (disk s)(lb := blk s src) \<and> dwrites t = dwrites s @ [(lb, blk s src)] \<and> bio_frame s t \<and>
    (\<forall>c\<in>P. \<forall>m. hits t m c = hits s m c)) s"
proof -
  obtain to t1 where 1: "bread ROOTDEV lb s = Done to t1" "held t1 = {to}" "holds t1 to lb" "bio_inv P t1"
      "blk t1 = blk s" "bio_frame s t1" "disk t1 = disk s" "dwrites t1 = dwrites s" "to \<in> P \<longrightarrow> hits s lb to"
      "\<forall>c\<in>P. \<forall>m. hits t1 m c = hits s m c" "quiet t1"
    by (rule bread_transparent [OF q inv, of lb]) (use h0 P in \<open>auto simp: holds_def\<close>)
  have nto: "to \<notin> P" using 1(9) npin by blast
  have b0: "b\<^sub>0 < NBUF" using pin inv by (auto simp: bio_inv_def)
  have nh: "\<not> holds t1 b src" for b using 1(2,3) lb(2) by (auto simp: holds_def hits_def)
  have room: "held t1 \<union> P \<noteq> {..<NBUF} \<or> (\<exists>b<NBUF. hits t1 src b)" using b0 1(10) pin by blast
  obtain fb t2 where 2: "bread ROOTDEV src t1 = Done fb t2" "fb \<notin> held t1" "held t2 = insert fb (held t1)"
      "holds t2 fb src" "bio_inv P t2" "blk t2 = blk t1" "bio_frame t1 t2" "disk t2 = disk t1" "dwrites t2 = dwrites t1"
      "\<forall>c\<in>held t1 \<union> P. \<forall>m. hits t2 m c = hits t1 m c" "quiet t2" "bdata (bufs t2 fb) = blk t1 src"
    by (rule bread_transparent [OF 1(11,4) nh room])
  have fb_pin: "fb = b\<^sub>0"
    using 2(4,5,10) 1(10) pin b0 bio_invD(6) [OF 2(5), of "fb" b\<^sub>0 src] by (auto simp: holds_def held_def)
  let ?t3 = "set_data to (blk s src) t2"
  have to2: "holds t2 to lb" using 1(2,3) 2(3,10) by (auto simp: holds_def)
  have len: "length (blk s src) = BSIZE" by (rule length_blk [OF inv])
  note 3 = set_data_spec [OF 2(5) to2 len]
  obtain t4 where 4: "bwrite to ?t3 = Done () t4" "disk t4 = (disk t2)(lb := blk s src)"
      "dwrites t4 = dwrites t2 @ [(lb, blk s src)]" "bio_inv P t4" "blk t4 = (blk t2)(lb := blk s src)"
      "held t4 = held t2" "hits t4 = hits t2" "bio_frame ?t3 t4" "quiet t4"
    by (rule bwrite_obtain [OF _ 3(1), of to lb]) (use 2(11) to2 3(2) in auto)
  obtain t5 where 5: "brelse fb t4 = Done () t5" "disk t5 = disk t4" "dwrites t5 = dwrites t4"
      "bio_inv P t5" "blk t5 = blk t4" "held t5 = held t4 - {fb}" "hits t5 = hits t4" "bio_frame t4 t5" "quiet t5"
    by (rule brelse_obtain [OF 4(9,4), of "fb" src]) (use 2(4) 4(6,7) pin fb_pin in \<open>auto simp: holds_def\<close>)
  have ne: "to \<noteq> fb" using 1(2) 2(2) by auto
  obtain t6 where 6: "brelse to t5 = Done () t6" "disk t6 = disk t5" "dwrites t6 = dwrites t5"
      "bio_inv P t6" "blk t6 = blk t5" "held t6 = held t5 - {to}" "hits t6 = hits t5" "bio_frame t5 t6" "quiet t6"
    by (rule brelse_obtain [OF 5(9,4), of to lb]) (use to2 ne 4 5 in \<open>auto simp: holds_def\<close>)
  have "write_log_block k s = Done () t6"
    using 1(1) 2(1,12) 4(1) 5(1) 6(1) dev src lb(1) 1(5)
    by (simp add: write_log_block_def Do_def gets_def copy_data_eq)
  moreover have "bio_frame s t6"
    using bio_frame_trans [OF 1(6) bio_frame_trans [OF 2(7) bio_frame_trans [of t2 ?t3 t4]]] 4(8) 5(8) 6(8)
      bio_frame_trans by (meson set_data_simps(8))
  moreover have "held t6 = {}" using 6(6) 5(6) 4(6) 2(3) 1(2) by auto
  ultimately show ?thesis
    using 1 2 4 5 6 by (simp add: wp_def)
qed

section \<open>The disk through a commit\<close>

text \<open>
  Pure part. \<open>apply_writes\<close> is the disk after a sequence of writes, \<open>recovered\<close> the disk that recovery
  leaves (\<open>recover_from_log_disk\<close> below shows that it does), \<open>commit_writes\<close> the writes of a commit
  of blocks \<open>bs\<close> with new contents \<open>v\<close>, the header block being \<open>h\<close> before.
\<close>

type_synonym dsk = "uint \<Rightarrow> byte list"

definition apply_writes :: "(uint \<times> byte list) list \<Rightarrow> dsk \<Rightarrow> dsk" where
  "apply_writes ws d = foldl (\<lambda>d (n, x). d(n := x)) d ws"

definition in_log :: "uint \<Rightarrow> uint \<Rightarrow> bool" where
  "in_log st m \<longleftrightarrow> unat (m - st) \<le> LOGBLOCKS"

definition hdr :: "uint list \<Rightarrow> byte list \<Rightarrow> byte list" where
  "hdr bs d = wr_addrs (wr32 d 0 (of_nat (length bs))) 4 bs"

definition hdr_blocks :: "byte list \<Rightarrow> uint list" where
  "hdr_blocks d = rd_addrs d 4 (nat (sint (rd32 d 0)))"

definition log_slot :: "uint \<Rightarrow> nat \<Rightarrow> uint" where
  "log_slot st i = st + of_nat i + 1"

definition recovered :: "uint \<Rightarrow> dsk \<Rightarrow> dsk" where
  "recovered st d =
     (let bs = hdr_blocks (d st);
          d1 = foldl (\<lambda>d i. d(bs ! i := d (log_slot st i))) d [0..<length bs]
      in d1(st := hdr [] (d1 st)))"

definition commit_writes :: "uint \<Rightarrow> uint list \<Rightarrow> (uint \<Rightarrow> byte list) \<Rightarrow> byte list \<Rightarrow> (uint \<times> byte list) list" where
  "commit_writes st bs v h =
     map (\<lambda>i. (log_slot st i, v (bs ! i))) [0..<length bs] @ [(st, hdr bs h)] @
     map (\<lambda>i. (bs ! i, v (bs ! i))) [0..<length bs] @ [(st, hdr [] (hdr bs h))]"

lemma apply_append: "apply_writes (xs @ ys) d = apply_writes ys (apply_writes xs d)"
  by (simp add: apply_writes_def)

lemma apply_one [simp]: "apply_writes [(n, x)] d = d(n := x)"
  by (simp add: apply_writes_def)

lemma apply_Suc:
  "apply_writes (map (\<lambda>i. (f i, g i)) [0..<Suc k]) d = (apply_writes (map (\<lambda>i. (f i, g i)) [0..<k]) d)(f k := g k)"
  by (simp add: apply_writes_def)

lemma apply_other: "(\<forall>i<k. f i \<noteq> m) \<Longrightarrow> apply_writes (map (\<lambda>i. (f i, g i)) [0..<k]) d m = d m"
  by (induction k) (auto simp: apply_Suc simp del: upt_Suc, simp add: apply_writes_def)

lemma apply_at:
  "inj_on f {..<k} \<Longrightarrow> i < k \<Longrightarrow> apply_writes (map (\<lambda>i. (f i, g i)) [0..<k]) d (f i) = g i"
proof (induction k)
  case (Suc k)
  show ?case
  proof (cases "i = k")
    case False
    then have "f k \<noteq> f i" using Suc.prems by (auto simp: inj_on_def)
    with False Suc show ?thesis by (simp add: apply_writes_def inj_on_def)
  qed (simp add: apply_writes_def)
qed simp

lemma slot_inj: "inj_on (log_slot st) {..<k}" if "k \<le> LOGBLOCKS"
proof (rule inj_onI)
  fix i j assume "i \<in> {..<k}" "j \<in> {..<k}" "log_slot st i = log_slot st j"
  then have "(of_nat i :: uint) = of_nat j" by (simp add: log_slot_def)
  moreover have "i < 2 ^ 32" "j < 2 ^ 32" using that \<open>i \<in> {..<k}\<close> \<open>j \<in> {..<k}\<close> by (auto simp: LOGBLOCKS_def MAXOPBLOCKS_def)
  ultimately show "i = j" by (auto dest: arg_cong [of _ _ unat] simp: unat_of_nat)
qed

lemma slot_in_log: "i < LOGBLOCKS \<Longrightarrow> in_log st (log_slot st i)" and slot_not_start: "i < LOGBLOCKS \<Longrightarrow> log_slot st i \<noteq> st"
proof -
  assume i: "i < LOGBLOCKS"
  then have "unat (of_nat (Suc i) :: uint) = Suc i" by (simp add: unat_of_nat LOGBLOCKS_def MAXOPBLOCKS_def del: of_nat_Suc)
  moreover have "log_slot st i - st = of_nat (Suc i)" by (simp add: log_slot_def)
  ultimately have *: "unat (log_slot st i - st) = Suc i" by simp
  then show "in_log st (log_slot st i)" using i by (simp add: in_log_def)
  show "log_slot st i \<noteq> st" using * by auto
qed

lemma start_in_log: "in_log st st"
  by (simp add: in_log_def)

lemma hdr_round_trip:
  assumes "length d = BSIZE" and "length bs \<le> LOGBLOCKS"
  shows "hdr_blocks (hdr bs d) = bs" and "length (hdr bs d) = BSIZE"
proof -
  have n: "length bs \<le> 30" using assms by (simp add: LOGBLOCKS_def MAXOPBLOCKS_def)
  show "length (hdr bs d) = BSIZE" using assms n by (simp add: hdr_def BSIZE_def)
  have "rd32 (hdr bs d) 0 = of_nat (length bs)"
    using assms n by (simp add: hdr_def BSIZE_def rd32_wr_addrs)
  moreover have "sint (of_nat (length bs) :: uint) = int (length bs)"
    using n by (simp add: sint_uint uint_nat unat_of_nat signed_take_bit_int_eq_self)
  moreover have "rd_addrs (hdr bs d) 4 (length bs) = bs"
    using assms n by (simp add: hdr_def BSIZE_def rd_wr_addrs)
  ultimately show "hdr_blocks (hdr bs d) = bs" by (simp add: hdr_blocks_def)
qed

lemma recovered_empty:
  assumes "hdr_blocks (d st) = []" and "\<not> in_log st m"
  shows "recovered st d m = d m"
  using assms start_in_log [of st] by (auto simp: recovered_def)

lemma install_fold:
  assumes "\<forall>i<k. \<forall>j<k. log_slot st i \<noteq> bs ! j"
  shows "foldl (\<lambda>d i. d(bs ! i := d (log_slot st i))) d [0..<k] =
    apply_writes (map (\<lambda>i. (bs ! i, d (log_slot st i))) [0..<k]) d"
  using assms
proof (induction k)
  case (Suc k)
  have "apply_writes (map (\<lambda>i. (bs ! i, d (log_slot st i))) [0..<k]) d (log_slot st k) = d (log_slot st k)"
    using Suc.prems by (intro apply_other) (auto simp: less_Suc_eq dest: not_sym)
  moreover have "foldl (\<lambda>d i. d(bs ! i := d (log_slot st i))) d [0..<k] =
      apply_writes (map (\<lambda>i. (bs ! i, d (log_slot st i))) [0..<k]) d"
    by (rule Suc.IH) (use Suc.prems in simp)
  moreover have "foldl (\<lambda>d i. d(bs ! i := d (log_slot st i))) d [0..<Suc k] =
      (\<lambda>e. e(bs ! k := e (log_slot st k))) (foldl (\<lambda>d i. d(bs ! i := d (log_slot st i))) d [0..<k])" by simp
  ultimately show ?case by (simp only: apply_Suc)
qed (simp add: apply_writes_def)

lemma take_map_upt: "take k (map f [0..<n]) = map f [0..<min k n]"
  by (cases "k \<le> n") (simp_all add: take_map min_def)

text \<open>The three phases of a commit: before the header is written, after it, and at the end.\<close>

lemma commit_prefix_cases:
  assumes "j \<le> 2 * length bs + 2"
  obtains (log) k where "k = j" "j \<le> length bs"
      "take j (commit_writes st bs v h) = map (\<lambda>i. (log_slot st i, v (bs ! i))) [0..<k]"
  | (install) k where "j = length bs + 1 + k" "k \<le> length bs"
      "take j (commit_writes st bs v h) = map (\<lambda>i. (log_slot st i, v (bs ! i))) [0..<length bs] @ [(st, hdr bs h)] @
        map (\<lambda>i. (bs ! i, v (bs ! i))) [0..<k]"
  | (all) "j = 2 * length bs + 2" "take j (commit_writes st bs v h) = commit_writes st bs v h"
proof -
  define k where "k = j - length bs - 1"
  consider "j \<le> length bs" | "j = length bs + 1 + k" "k \<le> length bs" | "j = 2 * length bs + 2"
    using assms unfolding k_def by linarith
  then show thesis
  proof cases
    case 1
    then show thesis by (intro log [of j]) (simp_all add: commit_writes_def take_map)
  next
    case 2
    then show thesis by (intro install [of k]) (simp_all add: commit_writes_def take_map)
  next
    case 3
    then show thesis by (intro all) (simp_all add: commit_writes_def)
  qed
qed

text \<open>Crash atomicity on the level of disk contents.\<close>

definition log_layout :: "uint \<Rightarrow> uint list \<Rightarrow> bool" where
  "log_layout st bs \<longleftrightarrow> length bs \<le> LOGBLOCKS \<and> distinct bs \<and> (\<forall>m\<in>set bs. \<not> in_log st m)"

lemma layout_slots: "log_layout st bs \<Longrightarrow> i < length bs \<Longrightarrow> j < length bs \<Longrightarrow> log_slot st i \<noteq> bs ! j"
  using slot_in_log [of i st] nth_mem [of j bs] by (auto simp: log_layout_def)

lemma after_log_phase:
  assumes "k \<le> LOGBLOCKS"
  shows "\<not> in_log st m \<Longrightarrow> apply_writes (map (\<lambda>i. (log_slot st i, w i)) [0..<k]) d m = d m"
    and "apply_writes (map (\<lambda>i. (log_slot st i, w i)) [0..<k]) d st = d st"
    and "i < k \<Longrightarrow> apply_writes (map (\<lambda>i. (log_slot st i, w i)) [0..<k]) d (log_slot st i) = w i"
proof -
  show "apply_writes (map (\<lambda>i. (log_slot st i, w i)) [0..<k]) d m = d m" if "\<not> in_log st m"
    using assms that slot_in_log by (intro apply_other) fastforce
  show "apply_writes (map (\<lambda>i. (log_slot st i, w i)) [0..<k]) d st = d st"
    using assms slot_not_start by (intro apply_other) fastforce
  show "apply_writes (map (\<lambda>i. (log_slot st i, w i)) [0..<k]) d (log_slot st i) = w i" if "i < k"
    using slot_inj [OF assms] that by (rule apply_at)
qed

lemma nth_inj: "distinct bs \<Longrightarrow> k \<le> length bs \<Longrightarrow> inj_on ((!) bs) {..<k}"
  by (auto simp: inj_on_def nth_eq_iff_index_eq)

lemma home_writes:
  assumes "distinct bs" and "k \<le> length bs"
  shows "apply_writes (map (\<lambda>i. (bs ! i, w i)) [0..<k]) d m =
    (case find (\<lambda>i. bs ! i = m) [0..<k] of Some i \<Rightarrow> w i | None \<Rightarrow> d m)"
proof (cases "find (\<lambda>i. bs ! i = m) [0..<k]")
  case None
  then show ?thesis using apply_other [of k "(!) bs" m] by (simp add: find_upt_None [symmetric])
next
  case (Some i)
  then have "i < k" "bs ! i = m" by (simp_all add: find_upt_Some)
  then show ?thesis using apply_at [OF nth_inj [OF assms], of i w d] Some by simp
qed

lemma recovered_install:
  assumes lay: "log_layout st bs" and h: "hdr_blocks (d st) = bs" and m: "\<not> in_log st m"
    and slots: "\<And>i. i < length bs \<Longrightarrow> d (log_slot st i) = v (bs ! i)"
  shows "recovered st d m = (if m \<in> set bs then v m else d m)"
proof -
  have ne: "m \<noteq> st" using m start_in_log by auto
  have dist: "distinct bs" using lay by (simp add: log_layout_def)
  have "recovered st d m = apply_writes (map (\<lambda>i. (bs ! i, d (log_slot st i))) [0..<length bs]) d m"
    using h ne layout_slots [OF lay] by (simp add: recovered_def Let_def install_fold)
  also have "\<dots> = (case find (\<lambda>i. bs ! i = m) [0..<length bs] of Some i \<Rightarrow> d (log_slot st i) | None \<Rightarrow> d m)"
    using dist by (rule home_writes) simp
  also have "\<dots> = (if m \<in> set bs then v m else d m)"
    using slots by (auto simp: find_upt_None find_upt_Some in_set_conv_nth split: option.split)
  finally show ?thesis .
qed

lemma crash_during_commit:
  assumes lay: "log_layout st bs" and empty: "hdr_blocks (d st) = []" and h: "length h = BSIZE"
    and m: "\<not> in_log st m" and j: "j \<le> 2 * length bs + 2"
  shows "recovered st (apply_writes (take j (commit_writes st bs v h)) d) m =
    (if j \<le> length bs \<or> m \<notin> set bs then d m else v m)"
proof -
  let ?n = "length bs"
  let ?W = "map (\<lambda>i. (log_slot st i, v (bs ! i))) [0..<?n]"
  let ?H = "map (\<lambda>i. (bs ! i, v (bs ! i))) [0..<?n]"
  have n: "?n \<le> LOGBLOCKS" and dist: "distinct bs" and out: "st \<notin> set bs"
    using lay start_in_log by (auto simp: log_layout_def)
  have ne: "m \<noteq> st" using m start_in_log by auto
  have home: "apply_writes (map (\<lambda>i. (bs ! i, v (bs ! i))) [0..<k]) e x = e x" if "x \<notin> set bs" "k \<le> ?n" for k e x
    using that nth_mem [of _ bs] by (intro apply_other) fastforce
  show ?thesis using j
  proof (cases rule: commit_prefix_cases [of j bs st v h])
    case (log k)
    then have "hdr_blocks (apply_writes (take j (commit_writes st bs v h)) d st) = []"
      using after_log_phase(2) [of k st] n empty by simp
    then show ?thesis using log n after_log_phase(1) [of k st m] m recovered_empty by simp
  next
    case (install k)
    let ?d1 = "(apply_writes ?W d)(st := hdr bs h)"
    let ?d = "apply_writes (map (\<lambda>i. (bs ! i, v (bs ! i))) [0..<k]) ?d1"
    have d: "apply_writes (take j (commit_writes st bs v h)) d = ?d"
      unfolding install(3) by (simp only: apply_append apply_one)
    have "hdr_blocks (?d st) = bs"
      using home [OF out install(2)] hdr_round_trip(1) [OF h n] by simp
    moreover have "?d (log_slot st i) = v (bs ! i)" if "i < ?n" for i
    proof -
      have "log_slot st i \<notin> set bs" using slot_in_log [of i st] that n lay by (auto simp: log_layout_def)
      then have "?d (log_slot st i) = ?d1 (log_slot st i)" using install(2) by (rule home)
      also have "\<dots> = v (bs ! i)" using after_log_phase(3) [OF n that] slot_not_start [of i st] that n by simp
      finally show ?thesis .
    qed
    ultimately have "recovered st ?d m = (if m \<in> set bs then v m else ?d m)"
      using lay m by (intro recovered_install)
    moreover have "?d m = d m" if "m \<notin> set bs"
      using home [OF that install(2)] after_log_phase(1) [OF n m] ne by simp
    ultimately show ?thesis using d install(1) by simp
  next
    case all
    let ?d1 = "(apply_writes ?W d)(st := hdr bs h)"
    let ?d = "(apply_writes ?H ?d1)(st := hdr [] (hdr bs h))"
    have d: "apply_writes (take j (commit_writes st bs v h)) d = ?d"
      unfolding all(2) by (simp only: commit_writes_def apply_append apply_one)
    have "hdr_blocks (?d st) = []" using hdr_round_trip(1) [of "hdr bs h" "[]"] hdr_round_trip(2) [OF h n] by simp
    then have "recovered st ?d m = ?d m" using m by (rule recovered_empty)
    also have "\<dots> = apply_writes ?H ?d1 m" using ne by simp
    also have "\<dots> = (if m \<in> set bs then v m else d m)"
      unfolding home_writes [OF dist order.refl] using after_log_phase(1) [OF n m] ne
      by (auto simp: find_upt_None find_upt_Some in_set_conv_nth split: option.split)
    finally show ?thesis using d all(1) by simp
  qed
qed

section \<open>The operations of a commit\<close>

text \<open>The log in memory: its blocks are exactly the pinned ones.\<close>

definition log_inv :: "nat set \<Rightarrow> 'z logst_scheme \<Rightarrow> bool" where
  "log_inv P s \<longleftrightarrow> bio_inv P s \<and> log_dev s = ROOTDEV \<and> 0 \<le> lh_n s \<and> log_layout (log_start s) (log_blocks s) \<and>
     (\<forall>m. m \<in> set (log_blocks s) \<longleftrightarrow> (\<exists>b\<in>P. hits s m b))"

lemma length_log_blocks: "length (log_blocks s) = nat (lh_n s)"
  by (simp add: log_blocks_def)

lemma nth_log_blocks: "i < nat (lh_n s) \<Longrightarrow> log_blocks s ! i = lh_block s i"
  by (simp add: log_blocks_def)

lemma pinned_hits: "bio_inv P s \<Longrightarrow> b \<in> P \<Longrightarrow> hits s (bblockno (bufs s b)) b"
  using bio_invD(1) [of P s] bio_invD(5) [of P s b] by (auto simp: buf_ok_def hits_def)

lemma pins_bounded:
  assumes "log_inv P s"
  shows "card P \<le> length (log_blocks s)"
proof -
  have inv: "bio_inv P s" using assms by (simp add: log_inv_def)
  have "inj_on (\<lambda>b. bblockno (bufs s b)) P"
  proof (rule inj_onI)
    fix b c assume "b \<in> P" "c \<in> P" "bblockno (bufs s b) = bblockno (bufs s c)"
    then show "b = c"
      using pinned_hits [OF inv, of b] pinned_hits [OF inv, of c] bio_invD(1) [OF inv] bio_invD(6) [OF inv, of b c]
      by (auto simp: subset_iff)
  qed
  moreover have "(\<lambda>b. bblockno (bufs s b)) ` P \<subseteq> set (log_blocks s)"
    using pinned_hits [OF inv] assms by (auto simp: log_inv_def)
  ultimately have "card P \<le> card (set (log_blocks s))" by (intro card_inj_on_le) auto
  also have "\<dots> \<le> length (log_blocks s)" by (rule card_length)
  finally show ?thesis .
qed

lemma room_left: "log_inv P s \<Longrightarrow> lh_n s < int NBUF \<Longrightarrow> P \<noteq> {..<NBUF}"
  using pins_bounded [of P s] by (auto simp: length_log_blocks NBUF_def MAXOPBLOCKS_def)

lemma log_area_unpinned: "log_inv P s \<Longrightarrow> in_log (log_start s) m \<Longrightarrow> c \<in> P \<Longrightarrow> \<not> hits s m c"
  by (auto simp: log_inv_def log_layout_def)

definition log_phase :: "'z logst_scheme \<Rightarrow> nat \<Rightarrow> (uint \<times> byte list) list" where
  "log_phase s k = map (\<lambda>i. (log_slot (log_start s) i, blk s (log_blocks s ! i))) [0..<k]"

lemma write_log_spec:
  assumes q: "quiet s" and inv: "log_inv P s" and h0: "held s = {}" and room: "P \<noteq> {..<NBUF}"
  shows "wp write_log (\<lambda>_ t. let W = log_phase s (length (log_blocks s)) in
    bio_inv P t \<and> held t = {} \<and> blk t = apply_writes W (blk s) \<and> disk t = apply_writes W (disk s) \<and>
    dwrites t = dwrites s @ W \<and> bio_frame s t \<and> (\<forall>c\<in>P. \<forall>m. hits t m c = hits s m c)) s"
proof -
  let ?I = "\<lambda>k t. let W = log_phase s k in bio_inv P t \<and> held t = {} \<and> blk t = apply_writes W (blk s) \<and>
    disk t = apply_writes W (disk s) \<and> dwrites t = dwrites s @ W \<and> bio_frame s t \<and> (\<forall>c\<in>P. \<forall>m. hits t m c = hits s m c)"
  have "wp (for_each [0..<nat (lh_n s)] write_log_block) (\<lambda>_. ?I (nat (lh_n s))) s"
  proof (rule wp_for_upt)
    show "?I 0 s" using inv h0 by (simp add: log_phase_def apply_writes_def log_inv_def)
    fix k t assume k: "k < nat (lh_n s)" and I: "?I k t"
    have n: "k < LOGBLOCKS" using inv k by (simp add: log_inv_def log_layout_def length_log_blocks)
    let ?lb = "log_slot (log_start s) k" and ?src = "log_blocks s ! k"
    have src: "?src \<in> set (log_blocks s)" using k by (simp add: length_log_blocks)
    then obtain b\<^sub>0 where b0: "b\<^sub>0 \<in> P" "hits s ?src b\<^sub>0" using inv unfolding log_inv_def by blast
    have out: "\<not> in_log (log_start s) ?src" using inv src by (simp add: log_inv_def log_layout_def)
    have same: "blk t ?src = blk s ?src"
      using I k n after_log_phase(1) [of k "log_start s" ?src "\<lambda>i. blk s (log_blocks s ! i)" "blk s"] out
      by (simp add: log_phase_def Let_def)
    note f = bio_frame_log [of s t] bio_frame_proj [of s t]
    have "wp (write_log_block k) (\<lambda>_ u. bio_inv P u \<and> held u = {} \<and> blk u = (blk t)(?lb := blk t ?src) \<and>
      disk u = (disk t)(?lb := blk t ?src) \<and> dwrites u = dwrites t @ [(?lb, blk t ?src)] \<and> bio_frame t u \<and>
      (\<forall>c\<in>P. \<forall>m. hits u m c = hits t m c)) t"
    proof (rule write_log_block_spec [where b\<^sub>0 = b\<^sub>0])
      show "?src \<noteq> ?lb" using out slot_in_log [OF n, of "log_start s"] by metis
      show "\<not> hits t ?lb c" if "c \<in> P" for c
        using log_area_unpinned [OF inv slot_in_log [OF n] that] I that by (simp add: Let_def)
    qed (use I q inv room b0 k f in \<open>simp_all add: Let_def log_inv_def log_slot_def nth_log_blocks\<close>)
    then show "wp (write_log_block k) (\<lambda>_. ?I (Suc k)) t"
      using I k same
      by (elim wp_mono) (auto simp: Let_def log_phase_def apply_Suc [of _ _ k] apply_append intro: bio_frame_trans)
  qed
  then show ?thesis by (simp add: write_log_def wp_simps length_log_blocks)
qed

lemma clean_block:
  assumes "bio_inv P s" and "held s = {}" and "\<And>c. c \<in> P \<Longrightarrow> \<not> hits s m c"
  shows "blk s m = disk s m"
  using assms bio_invD(5) [OF assms(1)] by (intro blk_eqI) (auto simp: buf_ok_def hits_def)

lemma write_head_spec:
  assumes q: "quiet s" and inv: "bio_inv P s" and h0: "held s = {}" and P: "P \<noteq> {..<NBUF}"
    and dev: "log_dev s = ROOTDEV" and st: "st = log_start s" and npin: "\<And>c. c \<in> P \<Longrightarrow> \<not> hits s st c"
    and n: "0 \<le> lh_n s" "lh_n s \<le> int LOGBLOCKS"
  shows "wp write_head (\<lambda>_ t. let x = hdr (log_blocks s) (blk s st) in
    bio_inv P t \<and> held t = {} \<and> blk t = (blk s)(st := x) \<and> disk t = (disk s)(st := x) \<and>
    dwrites t = dwrites s @ [(st, x)] \<and> bio_frame s t \<and> (\<forall>c\<in>P. \<forall>m. hits t m c = hits s m c)) s"
proof -
  let ?x = "hdr (log_blocks s) (blk s st)"
  obtain b t1 where 1: "bread ROOTDEV st s = Done b t1" "held t1 = {b}" "holds t1 b st" "bio_inv P t1"
      "blk t1 = blk s" "bio_frame s t1" "disk t1 = disk s" "dwrites t1 = dwrites s"
      "\<forall>c\<in>P. \<forall>m. hits t1 m c = hits s m c" "quiet t1" "bdata (bufs t1 b) = blk s st"
    by (rule bread_transparent [OF q inv, of st]) (use h0 P in \<open>auto simp: holds_def\<close>)
  have len: "length ?x = BSIZE"
    using hdr_round_trip(2) [OF length_blk [OF inv]] n by (simp add: length_log_blocks)
  let ?t2 = "set_data b ?x t1"
  note 2 = set_data_spec [OF 1(4,3) len]
  obtain t3 where 3: "bwrite b ?t2 = Done () t3" "disk t3 = (disk t1)(st := ?x)"
      "dwrites t3 = dwrites t1 @ [(st, ?x)]" "bio_inv P t3" "blk t3 = (blk t1)(st := ?x)"
      "held t3 = held t1" "hits t3 = hits t1" "bio_frame ?t2 t3" "quiet t3"
    by (rule bwrite_obtain [OF _ 2(1), of b st]) (use 1 2 in auto)
  obtain t4 where 4: "brelse b t3 = Done () t4" "disk t4 = disk t3" "dwrites t4 = dwrites t3"
      "bio_inv P t4" "blk t4 = blk t3" "held t4 = held t3 - {b}" "hits t4 = hits t3" "bio_frame t3 t4" "quiet t4"
    by (rule brelse_obtain [OF 3(9,4), of b st]) (use 1(3) 3 in \<open>auto simp: holds_def\<close>)
  have "(of_int (lh_n s) :: uint) = of_nat (length (log_blocks s))" using n by (simp add: length_log_blocks)
  then have "upd_buf b (\<lambda>x. x\<lparr>bdata := wr_addrs (wr32 (bdata x) 0 (of_int (lh_n s))) 4 (log_blocks s)\<rparr>) t1 = Done () ?t2"
    using 1(11) by (simp add: upd_buf_def modify_def set_data_def hdr_def)
  then have "write_head s = Done () t4"
    using 1(1) 3(1) 4(1) dev st bio_frame_log [OF 1(6)] by (simp add: write_head_def Do_def gets_def)
  moreover have "bio_frame s t4"
    using bio_frame_trans [OF 1(6) bio_frame_trans [of t1 ?t2 t3]] 3(8) 4(8) bio_frame_trans by (meson set_data_simps(8))
  ultimately show ?thesis using 1 3 4 by (simp add: wp_def Let_def)
qed

lemma install_block_spec:
  assumes q: "quiet s" and inv: "bio_inv P s" and h0: "held s = {}" and P: "P \<noteq> {..<NBUF}"
    and dev: "log_dev s = ROOTDEV" and dst: "dst = lh_block s k" and lb: "lb = log_start s + of_nat k + 1" "dst \<noteq> lb"
    and pin: "b\<^sub>0 \<in> P" "hits s dst b\<^sub>0" and npin: "\<And>c. c \<in> P \<Longrightarrow> \<not> hits s lb c"
  shows "wp (install_block False k) (\<lambda>_ t. bio_inv (P - {b\<^sub>0}) t \<and> held t = {} \<and> blk t = (blk s)(dst := blk s lb) \<and>
    disk t = (disk s)(dst := blk s lb) \<and> dwrites t = dwrites s @ [(dst, blk s lb)] \<and> bio_frame s t \<and>
    (\<forall>c\<in>P. \<forall>m. hits t m c = hits s m c)) s"
proof -
  obtain l t1 where 1: "bread ROOTDEV lb s = Done l t1" "held t1 = {l}" "holds t1 l lb" "bio_inv P t1"
      "blk t1 = blk s" "bio_frame s t1" "disk t1 = disk s" "dwrites t1 = dwrites s" "l \<in> P \<longrightarrow> hits s lb l"
      "\<forall>c\<in>P. \<forall>m. hits t1 m c = hits s m c" "quiet t1"
    by (rule bread_transparent [OF q inv, of lb]) (use h0 P in \<open>auto simp: holds_def\<close>)
  have nl: "l \<notin> P" using 1(9) npin by blast
  have b0: "b\<^sub>0 < NBUF" using pin inv by (auto simp: bio_inv_def)
  have nh: "\<not> holds t1 b dst" for b using 1(2,3) lb(2) by (auto simp: holds_def hits_def)
  have room: "held t1 \<union> P \<noteq> {..<NBUF} \<or> (\<exists>b<NBUF. hits t1 dst b)" using b0 1(10) pin by blast
  obtain d t2 where 2: "bread ROOTDEV dst t1 = Done d t2" "d \<notin> held t1" "held t2 = insert d (held t1)"
      "holds t2 d dst" "bio_inv P t2" "blk t2 = blk t1" "bio_frame t1 t2" "disk t2 = disk t1" "dwrites t2 = dwrites t1"
      "\<forall>c\<in>held t1 \<union> P. \<forall>m. hits t2 m c = hits t1 m c" "quiet t2"
    by (rule bread_transparent [OF 1(11,4) nh room])
  have d: "d = b\<^sub>0"
    using 2(4,5,10) 1(10) pin b0 bio_invD(6) [OF 2(5), of d b\<^sub>0 dst] by (auto simp: holds_def held_def)
  have l2: "holds t2 l lb" using 1(2,3) 2(3,10) by (auto simp: holds_def)
  have data: "bdata (bufs t2 l) = blk s lb" using holds_data(3) [OF 2(5) l2] 2(6) 1(5) by simp
  let ?t3 = "set_data d (blk s lb) t2"
  note 3 = set_data_spec [OF 2(5,4) length_blk [OF inv, of lb]]
  obtain t4 where 4: "bwrite d ?t3 = Done () t4" "disk t4 = (disk t2)(dst := blk s lb)"
      "dwrites t4 = dwrites t2 @ [(dst, blk s lb)]" "bio_inv P t4" "blk t4 = (blk t2)(dst := blk s lb)"
      "held t4 = held t2" "hits t4 = hits t2" "bio_frame ?t3 t4" "quiet t4"
    by (rule bwrite_obtain [OF _ 3(1), of d dst]) (use 2(4,11) 3(2) in auto)
  let ?t5 = "t4\<lparr>bufs := (bufs t4)(d := (bufs t4 d)\<lparr>brefcnt := brefcnt (bufs t4 d) - 1\<rparr>)\<rparr>"
  have un: "bunpin d t4 = Done () ?t5" using 4(9) by (intro bpin_eq(2)) (simp_all add: quiet_def)
  have h4: "holds t4 d dst" "holds t4 l lb" using 2(4) l2 4(6,7) by (simp_all add: holds_def)
  note r5 = refcnt_update [of t4 d "brefcnt (bufs t4 d) - 1"]
  have 5: "bio_inv (P - {d}) ?t5" using h4(1) pin d by (intro unpin_inv [OF 4(4)]) simp_all
  have q5: "quiet ?t5" using 4(9) bio_frame_proj(4) [OF r5(4)] by simp
  have lc: "blk ?t5 lb = disk ?t5 lb"
    using clean_block [OF inv h0 npin] r5(3) 4(2,5) 2(6,8) 1(5,7) lb(2) by simp
  obtain t6 where 6: "brelse l ?t5 = Done () t6" "disk t6 = disk ?t5" "dwrites t6 = dwrites ?t5"
      "bio_inv (P - {d}) t6" "blk t6 = blk ?t5" "held t6 = held ?t5 - {l}" "hits t6 = hits ?t5" "bio_frame ?t5 t6" "quiet t6"
    by (rule brelse_obtain [OF q5 5, of l lb]) (use h4(2) r5(5) lc in auto)
  have ne: "l \<noteq> d" using nl pin d by auto
  have h6: "holds t6 d dst" using h4(1) ne 6(6,7) r5(1,2) by (simp add: holds_def)
  have dc: "blk t6 dst = disk t6 dst" using 6(2,5) r5(3) 4(2,5) by simp
  obtain t7 where 7: "brelse d t6 = Done () t7" "disk t7 = disk t6" "dwrites t7 = dwrites t6"
      "bio_inv (P - {d}) t7" "blk t7 = blk t6" "held t7 = held t6 - {d}" "hits t7 = hits t6" "bio_frame t6 t7" "quiet t7"
    by (rule brelse_obtain [OF 6(9,4) h6]) (use dc in auto)
  have "install_block False k s = Done () t7"
    using 1(1) 2(1) data 4(1) un 6(1) 7(1) dev dst lb(1)
    by (simp add: install_block_def Do_def gets_def return_def copy_data_eq)
  moreover have "bio_frame s t7"
    using 1(6) 2(7) set_data_simps(8) [of t2 d "blk s lb"] 4(8) r5(4) 6(8) 7(8) by (metis bio_frame_trans)
  moreover have "held t7 = {}" using 7(6) 6(6) r5(1) 4(6) 2(3) 1(2) by auto
  ultimately show ?thesis
    using 1(5,7,8,10) 2(6,8,9,10) 4 6 7 r5 d by (simp add: wp_def)
qed

definition still_pinned :: "'z logst_scheme \<Rightarrow> nat set \<Rightarrow> nat \<Rightarrow> nat set" where
  "still_pinned s P k = {c \<in> P. \<forall>i<k. \<not> hits s (log_blocks s ! i) c}"

lemma still_pinned_step:
  assumes inv: "log_inv P s" and k: "k < length (log_blocks s)" and b: "b\<^sub>0 \<in> P" "hits s (log_blocks s ! k) b\<^sub>0"
  shows "b\<^sub>0 \<in> still_pinned s P k" and "still_pinned s P (Suc k) = still_pinned s P k - {b\<^sub>0}"
proof -
  have bi: "bio_inv P s" and dist: "distinct (log_blocks s)" using inv by (simp_all add: log_inv_def log_layout_def)
  have "\<not> hits s (log_blocks s ! i) b\<^sub>0" if "i < k" for i
    using b(2) that k dist by (auto simp: hits_def nth_eq_iff_index_eq)
  then show "b\<^sub>0 \<in> still_pinned s P k" using b by (simp add: still_pinned_def)
  have "hits s (log_blocks s ! k) c \<longleftrightarrow> c = b\<^sub>0" if "c \<in> P" for c
    using bio_invD(6) [OF bi, of c b\<^sub>0 "log_blocks s ! k"] bio_invD(1) [OF bi] that b by blast
  then show "still_pinned s P (Suc k) = still_pinned s P k - {b\<^sub>0}"
    unfolding still_pinned_def less_Suc_eq by blast
qed

lemma install_trans_spec:
  assumes q: "quiet s" and inv: "log_inv P s" and h0: "held s = {}" and room: "P \<noteq> {..<NBUF}"
  shows "wp (install_trans False) (\<lambda>_ t. let W = map (\<lambda>i. (log_blocks s ! i, blk s (log_slot (log_start s) i))) [0..<length (log_blocks s)] in
    bio_inv {} t \<and> held t = {} \<and> blk t = apply_writes W (blk s) \<and> disk t = apply_writes W (disk s) \<and>
    dwrites t = dwrites s @ W \<and> bio_frame s t) s"
proof -
  let ?st = "log_start s" and ?bs = "log_blocks s"
  let ?W = "\<lambda>k. map (\<lambda>i. (?bs ! i, blk s (log_slot ?st i))) [0..<k]"
  let ?I = "\<lambda>k t. bio_inv (still_pinned s P k) t \<and> held t = {} \<and> blk t = apply_writes (?W k) (blk s) \<and>
    disk t = apply_writes (?W k) (disk s) \<and> dwrites t = dwrites s @ ?W k \<and> bio_frame s t \<and> (\<forall>c\<in>still_pinned s P k. \<forall>m. hits t m c = hits s m c)"
  have P: "P \<subseteq> {..<NBUF}" and lay: "log_layout ?st ?bs" using inv by (simp_all add: log_inv_def bio_inv_def)
  have "wp (for_each [0..<nat (lh_n s)] (install_block False)) (\<lambda>_. ?I (nat (lh_n s))) s"
  proof (rule wp_for_upt)
    show "?I 0 s" using inv h0 by (simp add: still_pinned_def apply_writes_def log_inv_def)
    fix k t assume k: "k < nat (lh_n s)" and I: "?I k t"
    have kb: "k < length ?bs" using k by (simp add: length_log_blocks)
    have n: "k < LOGBLOCKS" using lay kb by (simp add: log_layout_def)
    let ?lb = "log_slot ?st k" and ?dst = "?bs ! k"
    have "?dst \<in> set ?bs" using kb by simp
    then obtain b\<^sub>0 where b0: "b\<^sub>0 \<in> P" "hits s ?dst b\<^sub>0" using inv unfolding log_inv_def by blast
    note sp = still_pinned_step [OF inv kb b0]
    have same: "blk t ?lb = blk s ?lb"
    proof -
      have "\<forall>i<k. ?bs ! i \<noteq> ?lb"
      proof (intro allI impI)
        fix i assume "i < k"
        then have "?lb \<noteq> ?bs ! i" using kb by (intro layout_slots [OF lay kb]) simp
        then show "?bs ! i \<noteq> ?lb" by (rule not_sym)
      qed
      then show ?thesis using I by (simp add: apply_other)
    qed
    note f = bio_frame_log [of s t] bio_frame_proj [of s t]
    have "wp (install_block False k) (\<lambda>_ u. bio_inv (still_pinned s P k - {b\<^sub>0}) u \<and> held u = {} \<and> blk u = (blk t)(?dst := blk t ?lb) \<and>
      disk u = (disk t)(?dst := blk t ?lb) \<and> dwrites u = dwrites t @ [(?dst, blk t ?lb)] \<and> bio_frame t u \<and>
      (\<forall>c\<in>still_pinned s P k. \<forall>m. hits u m c = hits t m c)) t"
    proof (rule install_block_spec [where b\<^sub>0 = b\<^sub>0])
      show "?dst \<noteq> ?lb" using layout_slots [OF lay kb kb] by metis
      show "still_pinned s P k \<noteq> {..<NBUF}" using room P by (auto simp: still_pinned_def)
      show "\<not> hits t ?lb c" if "c \<in> still_pinned s P k" for c
        using log_area_unpinned [OF inv slot_in_log [OF n], of c] I that by (simp add: still_pinned_def)
      show "b\<^sub>0 \<in> still_pinned s P k" by (rule sp(1))
      show "hits t ?dst b\<^sub>0" using I sp(1) b0(2) by blast
    qed (use I q inv k f in \<open>simp_all add: log_inv_def log_slot_def nth_log_blocks\<close>)
    then show "wp (install_block False k) (\<lambda>_. ?I (Suc k)) t"
      by (rule wp_mono) (use I same sp(2) bio_frame_trans [of s t] in \<open>simp add: apply_append\<close>)
  qed
  moreover have "still_pinned s P (nat (lh_n s)) = {}"
  proof -
    have "\<exists>i<nat (lh_n s). hits s (?bs ! i) c" if "c \<in> P" for c
    proof -
      have bi: "bio_inv P s" using inv by (simp add: log_inv_def)
      have "bblockno (bufs s c) \<in> set ?bs" using inv pinned_hits [OF bi that] that by (auto simp: log_inv_def)
      then show ?thesis using pinned_hits [OF bi that] by (auto simp: in_set_conv_nth length_log_blocks)
    qed
    then show ?thesis by (auto simp: still_pinned_def)
  qed
  ultimately show ?thesis by (auto simp: install_trans_def wp_simps length_log_blocks elim!: wp_mono)
qed

text \<open>The cache does not depend on the fields of other components.\<close>

lemma bio_cong:
  assumes "bufs t = bufs s" "lru t = lru s" "disk t = disk s" "slocks t = slocks s" "procs t = procs s"
    and "tp t = tp s" "cpus t = cpus s" "locks t = locks s"
  shows "held t = held s" "hits t = hits s" "blk t = blk s" "mypid t = mypid s" "quiet t = quiet s"
    "bio_inv P t = bio_inv P s" "holds t = holds s"
proof -
  show h: "held t = held s" "hits t = hits s" "mypid t = mypid s"
    using assms by (auto simp: held_def hits_def fun_eq_iff mypid_def me_def mycpu_def)
  show "blk t = blk s" by (rule blk_cong) (simp_all add: h assms)
  show "quiet t = quiet s" using assms(6-8) by (rule quiet_cong)
  have "buf_ok P t b = buf_ok P s b" for b by (simp add: buf_ok_def h assms)
  then show "bio_inv P t = bio_inv P s" by (simp add: bio_inv_def h assms)
  show "holds t = holds s" by (simp add: holds_def fun_eq_iff h)
qed

lemmas log_fields_bio [simp] =
  bio_cong [of "s\<lparr>lh_n := n\<rparr>" s for s n, simplified] bio_cong [of "s\<lparr>lh_block := f\<rparr>" s for s f, simplified]

lemma some_buffer: "{} \<noteq> {..<NBUF}"
proof -
  have "0 \<in> {..<NBUF}" by (simp add: NBUF_def MAXOPBLOCKS_def)
  then show ?thesis by blast
qed

lemma commit_spec:
  assumes q: "quiet s" and inv: "log_inv P s" and h0: "held s = {}" and n: "0 < lh_n s" "lh_n s < int NBUF"
  shows "wp commit (\<lambda>_ t. let ws = commit_writes (log_start s) (log_blocks s) (blk s) (blk s (log_start s)) in
    bio_inv {} t \<and> held t = {} \<and> blk t = apply_writes ws (blk s) \<and> disk t = apply_writes ws (disk s) \<and>
    dwrites t = dwrites s @ ws \<and> lh_n t = 0 \<and> quiet t) s"
proof -
  let ?st = "log_start s" and ?bs = "log_blocks s"
  let ?W1 = "log_phase s (length ?bs)" and ?h = "hdr ?bs (blk s ?st)"
  note room = room_left [OF inv n(2)]
  have lay: "log_layout ?st ?bs" and dev: "log_dev s = ROOTDEV" using inv by (simp_all add: log_inv_def)
  have nL: "length ?bs \<le> LOGBLOCKS" using lay by (simp add: log_layout_def)
  obtain t1 where 1: "write_log s = Done () t1" "bio_inv P t1" "held t1 = {}" "blk t1 = apply_writes ?W1 (blk s)"
      "disk t1 = apply_writes ?W1 (disk s)" "dwrites t1 = dwrites s @ ?W1" "bio_frame s t1"
      "\<forall>c\<in>P. \<forall>m. hits t1 m c = hits s m c"
    using write_log_spec [OF q inv h0 room] by (auto simp: wp_iff_Done Let_def)
  note f1 = bio_frame_log [OF 1(7)] and q1 = bio_frame_proj(4) [OF 1(7)]
  have st1: "blk t1 ?st = blk s ?st" using after_log_phase(2) [OF nL] 1(4) by (simp add: log_phase_def)
  obtain t2 where 2: "write_head t1 = Done () t2" "bio_inv P t2" "held t2 = {}" "blk t2 = (blk t1)(?st := ?h)"
      "disk t2 = (disk t1)(?st := ?h)" "dwrites t2 = dwrites t1 @ [(?st, ?h)]" "bio_frame t1 t2"
      "\<forall>c\<in>P. \<forall>m. hits t2 m c = hits t1 m c"
  proof -
    have "wp write_head (\<lambda>_ t. let x = hdr (log_blocks t1) (blk t1 ?st) in
        bio_inv P t \<and> held t = {} \<and> blk t = (blk t1)(?st := x) \<and> disk t = (disk t1)(?st := x) \<and>
        dwrites t = dwrites t1 @ [(?st, x)] \<and> bio_frame t1 t \<and> (\<forall>c\<in>P. \<forall>m. hits t m c = hits t1 m c)) t1"
      by (rule write_head_spec)
        (use 1 q q1 f1 room dev n nL log_area_unpinned [OF inv start_in_log] in \<open>simp_all add: length_log_blocks\<close>)
    then show ?thesis using that st1 f1 by (auto simp: wp_iff_Done Let_def)
  qed
  note f2 = bio_frame_log [OF 2(7)] and q2 = bio_frame_proj(4) [OF 2(7)]
  have inv2: "log_inv P t2" using inv 2(2,8) 1(8) f1 f2 by (simp add: log_inv_def)
  let ?W3 = "map (\<lambda>i. (?bs ! i, blk s (?bs ! i))) [0..<length ?bs]"
  have slot: "blk t2 (log_slot ?st i) = blk s (?bs ! i)" if "i < length ?bs" for i
    using after_log_phase(3) [OF nL that] slot_not_start [of i ?st] that nL 1(4) 2(4) by (simp add: log_phase_def)
  have W3: "map (\<lambda>i. (log_blocks t2 ! i, blk t2 (log_slot (log_start t2) i))) [0..<length (log_blocks t2)] = ?W3"
    using slot f1 f2 by simp
  obtain t3 where 3: "install_trans False t2 = Done () t3" "bio_inv {} t3" "held t3 = {}" "blk t3 = apply_writes ?W3 (blk t2)"
      "disk t3 = apply_writes ?W3 (disk t2)" "dwrites t3 = dwrites t2 @ ?W3" "bio_frame t2 t3"
    using install_trans_spec [OF _ inv2 2(3) room] q q1 q2 unfolding Let_def W3 by (auto simp: wp_iff_Done)
  note f3 = bio_frame_log [OF 3(7)] and q3 = bio_frame_proj(4) [OF 3(7)]
  let ?t3 = "t3\<lparr>lh_n := 0\<rparr>"
  have "?st \<notin> set ?bs" using lay start_in_log by (auto simp: log_layout_def)
  then have st3: "blk t3 ?st = ?h"
    using 3(4) 2(4) nth_mem [of _ ?bs] by (subst 3(4), subst apply_other) (auto simp: in_set_conv_nth)
  let ?hz = "hdr [] ?h"
  obtain t4 where 4: "write_head ?t3 = Done () t4" "bio_inv {} t4" "held t4 = {}" "blk t4 = (blk t3)(?st := ?hz)"
      "disk t4 = (disk t3)(?st := ?hz)" "dwrites t4 = dwrites t3 @ [(?st, ?hz)]" "bio_frame ?t3 t4"
  proof -
    have "wp write_head (\<lambda>_ t. let x = hdr (log_blocks ?t3) (blk ?t3 ?st) in
        bio_inv {} t \<and> held t = {} \<and> blk t = (blk ?t3)(?st := x) \<and> disk t = (disk ?t3)(?st := x) \<and>
        dwrites t = dwrites ?t3 @ [(?st, x)] \<and> bio_frame ?t3 t \<and> (\<forall>c\<in>{}. \<forall>m. hits t m c = hits ?t3 m c)) ?t3"
      by (rule write_head_spec)
        (use 3 q q1 q2 q3 f1 f2 f3 dev some_buffer in simp_all)
    then show ?thesis using that st3 by (auto simp: wp_iff_Done Let_def log_blocks_def)
  qed
  have "commit s = Done () t4"
    using n(1) 1(1) 2(1) 3(1) 4(1) by (simp add: commit_def Do_def gets_def modify_def)
  moreover have "quiet t4" using bio_frame_proj(4) [OF 4(7)] q q1 q2 q3 by simp
  moreover have "lh_n t4 = 0" using bio_frame_log(3) [OF 4(7)] by simp
  moreover have ws: "commit_writes ?st ?bs (blk s) (blk s ?st) = ?W1 @ [(?st, ?h)] @ ?W3 @ [(?st, ?hz)]"
    by (simp add: commit_writes_def log_phase_def)
  ultimately show ?thesis
    using 4(2-6) 3(4-6) 2(4-6) 1(4-6) unfolding wp_iff_Done Let_def ws by (auto simp only: apply_append apply_one append.assoc)
qed

section \<open>Recovery\<close>

lemma printf_int:
  assumes "uart_ready s"
  shows "printf_loop (ch CHR ''%'' # ch CHR ''d'' # rest) (VInt x # ap) s =
    printf_loop rest ap (out (rev (printint_buf (scast (ucast x :: 32 word)) 10 True)) s)"
  using assms by (subst printf_loop.simps) (simp add: char_at_def Let_def Do_def printint_def puts_eq)

lemma quiet_out [simp]: "quiet (out bs s) = quiet s"
  by (rule quiet_cong) (simp_all add: out_def)

lemma out_enter: "out bs (enter lk s) = enter lk (out bs s)"
  by (simp add: out_def enter_def upd_mycpu_def)

lemma recovering_message:
  assumes q: "quiet s" and r: "uart_ready s" and np: "\<not> panicking s"
  shows "\<exists>bs. printf ''recovering tail %d dst %d\<newline>'' [VInt x, VInt y] s = Done 0 (out bs s)"
proof -
  let ?u = "enter PrLock s"
  have cpu: "mycpu ?u = pushed (mycpu s)" by (simp add: mycpu_enter)
  have ru: "uart_ready (out bs ?u)" for bs
    using r q cpu by (auto simp: uart_ready_def settled_pushed quiet_def enter_def upd_mycpu_def out_def mycpu_def)
  let ?A = "map of_char ''recovering tail '' :: byte list" and ?B = "map of_char '' dst '' :: byte list"
  let ?d = "\<lambda>x. rev (printint_buf (scast (ucast x :: 32 word)) 10 True)"
  have "map of_char ''recovering tail %d dst %d\<newline>'' =
      ?A @ ch CHR ''%'' # ch CHR ''d'' # ?B @ ch CHR ''%'' # ch CHR ''d'' # [ch CHR 0x0A] @ []" by simp
  then have "printf_loop (map of_char ''recovering tail %d dst %d\<newline>'') [VInt x, VInt y] ?u =
      printf_loop (?A @ ch CHR ''%'' # ch CHR ''d'' # ?B @ ch CHR ''%'' # ch CHR ''d'' # [ch CHR 0x0A] @ []) [VInt x, VInt y] ?u"
    by (simp only:)
  also have "\<dots> = printf_loop (ch CHR ''%'' # ch CHR ''d'' # ?B @ ch CHR ''%'' # ch CHR ''d'' # [ch CHR 0x0A] @ []) [VInt x, VInt y] (out ?A ?u)"
    by (rule printf_plain) (use ru [of "[]"] in simp_all)
  also have "\<dots> = printf_loop (?B @ ch CHR ''%'' # ch CHR ''d'' # [ch CHR 0x0A] @ []) [VInt y] (out (?d x) (out ?A ?u))"
    by (rule printf_int) (rule ru)
  also have "\<dots> = printf_loop (ch CHR ''%'' # ch CHR ''d'' # [ch CHR 0x0A] @ []) [VInt y] (out ?B (out (?d x) (out ?A ?u)))"
    by (rule printf_plain) (use ru in simp_all)
  also have "\<dots> = printf_loop ([ch CHR 0x0A] @ []) [] (out (?d y) (out ?B (out (?d x) (out ?A ?u))))"
    by (rule printf_int) (use ru in simp_all)
  also have "\<dots> = printf_loop [] [] (out [ch CHR 0x0A] (out (?d y) (out ?B (out (?d x) (out ?A ?u)))))"
    by (rule printf_plain) (use ru in simp_all)
  finally have "\<exists>bs. printf_loop (map of_char ''recovering tail %d dst %d\<newline>'') [VInt x, VInt y] ?u = Done () (out bs ?u)"
    by (auto simp: printf_loop.simps return_def)
  then obtain bs where bs: "printf_loop (map of_char ''recovering tail %d dst %d\<newline>'') [VInt x, VInt y] ?u = Done () (out bs ?u)"
    by blast
  have pk: "panicking ?u = panicking s" "panicking (out bs ?u) = panicking s" by (simp_all add: enter_def upd_mycpu_def out_def)
  have "acquire PrLock s = Done () ?u" using q by (rule quiet_acquire)
  moreover have "release PrLock (out bs ?u) = Done () (out bs s)"
    using quiet_release [OF q, of "out bs ?u" PrLock] by (simp add: out_def enter_def upd_mycpu_def)
  ultimately show ?thesis using bs np pk by (intro exI [of _ bs]) (simp add: printf_def Do_def gets_def return_def)
qed

text \<open>What recovery needs of the machine: process context and a console that works.\<close>

definition can_print :: "'z uart_scheme \<Rightarrow> bool" where
  "can_print s \<longleftrightarrow> quiet s \<and> uart_ready s \<and> \<not> panicking s"

lemma bio_frame_can_print: "bio_frame s t \<Longrightarrow> can_print t = can_print s"
proof -
  assume f: "bio_frame s t"
  then have r: "bio_rest t = bio_rest s" by (simp add: bio_frame_def)
  have "uart_ready (bio_rest u) = uart_ready u" "panicking (bio_rest u) = panicking u" for u :: "'a bio_scheme"
    by (simp_all add: bio_rest_def uart_ready_def mycpu_def)
  then have "uart_ready t = uart_ready s" "panicking t = panicking s" using r by metis+
  with bio_frame_proj(4) [OF f] show ?thesis by (simp add: can_print_def)
qed

lemma out_bio [simp]:
  "held (out bs s) = held s" "hits (out bs s) = hits s" "blk (out bs s) = blk s" "disk (out bs s) = disk s"
  "bio_inv P (out bs s) = bio_inv P s" "can_print (out bs s) = can_print s" "lh_n (out bs' u) = lh_n u"
  "lh_block (out bs' u) = lh_block u" "log_start (out bs' u) = log_start u" "log_dev (out bs' u) = log_dev u"
  "log_blocks (out bs' u) = log_blocks u"
proof -
  have "bufs (out bs s) = bufs s" "lru (out bs s) = lru s" "disk (out bs s) = disk s" "slocks (out bs s) = slocks s"
    "procs (out bs s) = procs s" "tp (out bs s) = tp s" "cpus (out bs s) = cpus s" "locks (out bs s) = locks s"
    by (simp_all add: out_def)
  note b = bio_cong [OF this]
  show "held (out bs s) = held s" "hits (out bs s) = hits s" "blk (out bs s) = blk s" "bio_inv P (out bs s) = bio_inv P s"
    by (rule b)+
  show "disk (out bs s) = disk s" by (simp add: out_def)
  show "can_print (out bs s) = can_print s" by (simp add: can_print_def)
  show "lh_n (out bs' u) = lh_n u" "lh_block (out bs' u) = lh_block u" "log_start (out bs' u) = log_start u"
    "log_dev (out bs' u) = log_dev u" "log_blocks (out bs' u) = log_blocks u" by (simp_all add: out_def log_blocks_def)
qed

lemma recover_block_spec:
  assumes cp: "can_print s" and inv: "bio_inv {} s" and h0: "held s = {}"
    and dev: "log_dev s = ROOTDEV" and dst: "dst = lh_block s k" and lb: "lb = log_slot (log_start s) k" "dst \<noteq> lb"
  shows "wp (install_block True k) (\<lambda>_ t. bio_inv {} t \<and> held t = {} \<and> disk t = (disk s)(dst := disk s lb) \<and> can_print t \<and>
    log_dev t = log_dev s \<and> log_start t = log_start s \<and> lh_n t = lh_n s \<and> lh_block t = lh_block s) s"
proof -
  obtain bs where p: "printf ''recovering tail %d dst %d\<newline>'' [VInt (of_nat k), VInt (ucast dst)] s = Done 0 (out bs s)"
    using recovering_message cp by (force simp: can_print_def)
  let ?s = "out bs s"
  have q: "quiet ?s" using cp by (simp add: can_print_def)
  have invs: "bio_inv {} ?s" "held ?s = {}" using inv h0 by simp_all
  obtain l t1 where 1: "bread ROOTDEV lb ?s = Done l t1" "held t1 = {l}" "holds t1 l lb" "bio_inv {} t1"
      "blk t1 = blk s" "bio_frame ?s t1" "disk t1 = disk s" "quiet t1"
    by (rule bread_transparent [OF q invs(1), of lb]) (use invs some_buffer in \<open>auto simp: holds_def\<close>)
  have nh: "\<not> holds t1 b dst" for b using 1(2,3) lb(2) by (auto simp: holds_def hits_def)
  have room: "held t1 \<union> {} \<noteq> {..<NBUF} \<or> (\<exists>b<NBUF. hits t1 dst b)"
  proof -
    have "(if l = 0 then 1 else 0) \<in> {..<NBUF}" "(if l = 0 then 1 else 0) \<noteq> l" by (simp_all add: NBUF_def MAXOPBLOCKS_def)
    then show ?thesis using 1(2) by blast
  qed
  obtain d t2 where 2: "bread ROOTDEV dst t1 = Done d t2" "d \<notin> held t1" "held t2 = insert d (held t1)"
      "holds t2 d dst" "bio_inv {} t2" "blk t2 = blk t1" "bio_frame t1 t2" "disk t2 = disk t1"
      "\<forall>c\<in>held t1 \<union> {}. \<forall>m. hits t2 m c = hits t1 m c" "quiet t2"
    by (rule bread_transparent [OF 1(8,4) nh room])
  have l2: "holds t2 l lb" using 1(2,3) 2(3,9) by (auto simp: holds_def)
  have data: "bdata (bufs t2 l) = blk s lb" using holds_data(3) [OF 2(5) l2] 2(6) 1(5) by simp
  let ?t3 = "set_data d (blk s lb) t2"
  note 3 = set_data_spec [OF 2(5,4) length_blk [OF inv, of lb]]
  obtain t4 where 4: "bwrite d ?t3 = Done () t4" "disk t4 = (disk t2)(dst := blk s lb)"
      "bio_inv {} t4" "blk t4 = (blk t2)(dst := blk s lb)" "held t4 = held t2" "hits t4 = hits t2" "bio_frame ?t3 t4" "quiet t4"
    by (rule bwrite_obtain [OF _ 3(1), of d dst]) (use 2(4,10) 3(2) in auto)
  have clean: "blk s m = disk s m" for m by (rule clean_block [OF inv h0]) simp
  have h4: "holds t4 d dst" "holds t4 l lb" using 2(4) l2 4(5,6) by (simp_all add: holds_def)
  have lc: "blk t4 lb = disk t4 lb" using clean 4(2,4) 2(6,8) 1(5,7) lb(2) by simp
  obtain t5 where 5: "brelse l t4 = Done () t5" "disk t5 = disk t4" "bio_inv {} t5" "blk t5 = blk t4" "held t5 = held t4 - {l}"
      "hits t5 = hits t4" "bio_frame t4 t5" "quiet t5"
    by (rule brelse_obtain [OF 4(8,3) h4(2)]) (use lc in auto)
  have ne: "l \<noteq> d" using 1(2) 2(2) by auto
  have h5: "holds t5 d dst" using h4(1) ne 5(5,6) by (simp add: holds_def)
  obtain t6 where 6: "brelse d t5 = Done () t6" "disk t6 = disk t5" "bio_inv {} t6" "held t6 = held t5 - {d}" "bio_frame t5 t6"
    by (rule brelse_obtain [OF 5(8,3) h5]) (use 5(2,4) 4(2,4) in auto)
  have "install_block True k s = Done () t6"
    using p 1(1) 2(1) data 4(1) 5(1) 6(1) dev dst lb(1)
    by (simp add: install_block_def Do_def gets_def return_def copy_data_eq log_slot_def)
  moreover have f: "bio_frame ?s t6"
    using 1(6) 2(7) set_data_simps(8) [of t2 d "blk s lb"] 4(7) 5(7) 6(5) by (metis bio_frame_trans)
  moreover have "held t6 = {}" using 6(4) 5(5) 4(5) 2(3) 1(2) by auto
  ultimately show ?thesis
    using 6(2,3) 5(2) 4(2) 2(8) 1(7) clean bio_frame_can_print [OF f] cp bio_frame_log [OF f] by (simp add: wp_def)
qed

lemma read_blocks_loop:
  "for_each [0..<n] (\<lambda>i. modify (\<lambda>s. s\<lparr>lh_block := (lh_block s)(i := g i)\<rparr>)) s =
   Done () (s\<lparr>lh_block := \<lambda>i. if i < n then g i else lh_block s i\<rparr>)"
proof (induction n)
  case (Suc n)
  then show ?case by (auto simp: for_each_append Do_def modify_def return_def fun_eq_iff intro!: arg_cong [where f = "\<lambda>b. s\<lparr>lh_block := b\<rparr>"])
qed (simp add: return_def)

lemma read_head_spec:
  assumes cp: "can_print s" and inv: "bio_inv {} s" and h0: "held s = {}" and dev: "log_dev s = ROOTDEV"
  shows "wp read_head (\<lambda>_ t. bio_inv {} t \<and> held t = {} \<and> disk t = disk s \<and> can_print t \<and> log_dev t = ROOTDEV \<and>
    log_start t = log_start s \<and> lh_n t = sint (rd32 (disk s (log_start s)) 0) \<and>
    log_blocks t = hdr_blocks (disk s (log_start s))) s"
proof -
  let ?st = "log_start s"
  have q: "quiet s" using cp by (simp add: can_print_def)
  have clean: "blk s m = disk s m" for m by (rule clean_block [OF inv h0]) simp
  obtain b t1 where 1: "bread ROOTDEV ?st s = Done b t1" "held t1 = {b}" "holds t1 b ?st" "bio_inv {} t1"
      "blk t1 = blk s" "bio_frame s t1" "disk t1 = disk s" "quiet t1" "bdata (bufs t1 b) = blk s ?st"
    by (rule bread_transparent [OF q inv, of ?st]) (use h0 some_buffer in \<open>auto simp: holds_def\<close>)
  let ?d = "disk s ?st"
  let ?n = "sint (rd32 ?d 0)"
  let ?t2 = "t1\<lparr>lh_n := ?n, lh_block := \<lambda>i. if i < nat ?n then rd32 ?d (4 + 4 * i) else lh_block t1 i\<rparr>"
  have b2: "bio_inv {} ?t2" "holds ?t2 b ?st" "quiet ?t2" "held ?t2 = {b}" "blk ?t2 = blk s" "disk ?t2 = disk s"
    using 1 by simp_all
  obtain t3 where 3: "brelse b ?t2 = Done () t3" "disk t3 = disk ?t2" "bio_inv {} t3" "held t3 = held ?t2 - {b}" "bio_frame ?t2 t3"
    by (rule brelse_obtain [OF b2(3,1,2)]) (use b2 clean in auto)
  have "read_head s = Done () t3"
    using 1(1,9) 3(1) dev clean read_blocks_loop [of "nat ?n" "\<lambda>i. rd32 ?d (4 + 4 * i)" "t1\<lparr>lh_n := ?n\<rparr>"]
    by (simp add: read_head_def Do_def gets_def modify_def cong: if_cong)
  moreover have "can_print ?t2" using bio_frame_can_print [OF 1(6)] cp by (auto simp: can_print_def uart_ready_def mycpu_def)
  moreover have "log_blocks ?t2 = hdr_blocks ?d" by (simp add: log_blocks_def hdr_blocks_def rd_addrs_def)
  moreover note bio_frame_log [OF 3(5)] bio_frame_log [OF 1(6)] bio_frame_can_print [OF 3(5)]
  ultimately show ?thesis using 3 b2 dev by (simp add: wp_def)
qed

lemma recover_install:
  assumes cp: "can_print s" and inv: "bio_inv {} s" and h0: "held s = {}" and dev: "log_dev s = ROOTDEV"
    and lay: "log_layout (log_start s) (log_blocks s)"
  shows "wp (install_trans True) (\<lambda>_ t. bio_inv {} t \<and> held t = {} \<and> can_print t \<and> log_dev t = ROOTDEV \<and> log_start t = log_start s \<and>
    disk t = foldl (\<lambda>d i. d(log_blocks s ! i := d (log_slot (log_start s) i))) (disk s) [0..<length (log_blocks s)]) s"
proof -
  let ?st = "log_start s" and ?bs = "log_blocks s"
  let ?I = "\<lambda>k t. bio_inv {} t \<and> held t = {} \<and> can_print t \<and> log_dev t = ROOTDEV \<and> log_start t = ?st \<and> lh_n t = lh_n s \<and>
    lh_block t = lh_block s \<and> disk t = foldl (\<lambda>d i. d(?bs ! i := d (log_slot ?st i))) (disk s) [0..<k]"
  have "wp (for_each [0..<nat (lh_n s)] (install_block True)) (\<lambda>_. ?I (nat (lh_n s))) s"
  proof (rule wp_for_upt)
    show "?I 0 s" using assms by simp
    fix k t assume k: "k < nat (lh_n s)" and I: "?I k t"
    have kb: "k < length ?bs" using k by (simp add: length_log_blocks)
    have "?bs ! k \<noteq> log_slot ?st k" using layout_slots [OF lay kb kb] by (rule not_sym)
    then have "wp (install_block True k) (\<lambda>_ u. bio_inv {} u \<and> held u = {} \<and> disk u = (disk t)(?bs ! k := disk t (log_slot ?st k)) \<and> can_print u \<and>
      log_dev u = log_dev t \<and> log_start u = log_start t \<and> lh_n u = lh_n t \<and> lh_block u = lh_block t) t"
      using I k by (intro recover_block_spec) (simp_all add: nth_log_blocks)
    then show "wp (install_block True k) (\<lambda>_. ?I (Suc k)) t" using I by (elim wp_mono) simp
  qed
  then show ?thesis by (auto simp: install_trans_def wp_simps length_log_blocks elim!: wp_mono)
qed

lemma recover_from_log_disk:
  assumes cp: "can_print s" and inv: "bio_inv {} s" and h0: "held s = {}" and dev: "log_dev s = ROOTDEV"
    and lay: "log_layout (log_start s) (hdr_blocks (disk s (log_start s)))"
  shows "wp recover_from_log (\<lambda>_ t. disk t = recovered (log_start s) (disk s) \<and> bio_inv {} t \<and> held t = {} \<and> blk t = disk t \<and>
    quiet t \<and> lh_n t = 0) s"
proof -
  let ?st = "log_start s"
  obtain t1 where 1: "read_head s = Done () t1" "bio_inv {} t1" "held t1 = {}" "disk t1 = disk s" "can_print t1" "log_dev t1 = ROOTDEV"
      "log_start t1 = ?st" "log_blocks t1 = hdr_blocks (disk s ?st)"
    using read_head_spec [OF cp inv h0 dev] by (auto simp: wp_iff_Done)
  let ?bs = "hdr_blocks (disk s ?st)"
  let ?d = "foldl (\<lambda>d i. d(?bs ! i := d (log_slot ?st i))) (disk s) [0..<length ?bs]"
  obtain t2 where 2: "install_trans True t1 = Done () t2" "bio_inv {} t2" "held t2 = {}" "can_print t2" "log_dev t2 = ROOTDEV"
      "log_start t2 = ?st" "disk t2 = ?d"
    using recover_install [OF 1(5,2,3,6)] lay 1(4,7,8) by (auto simp: wp_iff_Done)
  let ?t2 = "t2\<lparr>lh_n := 0\<rparr>"
  have clean: "blk ?t2 m = disk ?t2 m" for m by (rule clean_block [of "{}"]) (use 2 in simp_all)
  have "wp write_head (\<lambda>_ t. let x = hdr (log_blocks ?t2) (blk ?t2 ?st) in
      bio_inv {} t \<and> held t = {} \<and> blk t = (blk ?t2)(?st := x) \<and> disk t = (disk ?t2)(?st := x) \<and>
      dwrites t = dwrites ?t2 @ [(?st, x)] \<and> bio_frame ?t2 t \<and> (\<forall>c\<in>{}. \<forall>m. hits t m c = hits ?t2 m c)) ?t2"
    by (rule write_head_spec) (use 2 some_buffer in \<open>simp_all add: can_print_def\<close>)
  then obtain t3 where 3: "write_head ?t2 = Done () t3" "bio_inv {} t3" "held t3 = {}" "disk t3 = ?d(?st := hdr [] (?d ?st))" "bio_frame ?t2 t3"
    using clean 2(7) by (auto simp: wp_iff_Done Let_def log_blocks_def)
  have "recover_from_log s = Done () t3"
    using 1(1) 2(1) 3(1) by (simp add: recover_from_log_def Do_def modify_def)
  moreover have "blk t3 = disk t3" by (rule ext, rule clean_block [OF 3(2,3)]) simp
  moreover have "quiet t3" using bio_frame_proj(4) [OF 3(5)] 2(4) by (simp add: can_print_def)
  moreover have "lh_n t3 = 0" using bio_frame_log(3) [OF 3(5)] by simp
  ultimately show ?thesis using 3 by (simp add: wp_def recovered_def Let_def)
qed

section \<open>Writing to the log\<close>

text \<open>What file system code inside a transaction leaves alone.\<close>

definition log_rest :: "'z logst_scheme \<Rightarrow> 'z logst_scheme" where
  "log_rest s = (bio_rest s)\<lparr>lh_n := 0, lh_block := undefined\<rparr>"

definition log_frame :: "'z logst_scheme \<Rightarrow> 'z logst_scheme \<Rightarrow> bool" where
  "log_frame s t \<longleftrightarrow> awake s t \<and> log_rest t = log_rest s"

lemma log_frame_refl [simp]: "log_frame s s"
  by (simp add: log_frame_def awake_refl)

lemma bio_log_frame: "bio_frame s t \<Longrightarrow> log_frame s t"
  by (simp add: bio_frame_def log_frame_def log_rest_def)

lemma log_frame_proj:
  assumes "log_frame s t"
  shows "tp t = tp s" "cpus t = cpus s" "locks t = locks s" "quiet t = quiet s" "me t = me s" "mypid t = mypid s"
    "log_start t = log_start s" "log_dev t = log_dev s" "log_outstanding t = log_outstanding s"
    "log_committing t = log_committing s"
proof -
  have r: "log_rest t = log_rest s" using assms by (simp add: log_frame_def)
  have p: "tp (log_rest u) = tp u" "cpus (log_rest u) = cpus u" "locks (log_rest u) = locks u" "log_start (log_rest u) = log_start u"
    "log_dev (log_rest u) = log_dev u" "log_outstanding (log_rest u) = log_outstanding u"
    "log_committing (log_rest u) = log_committing u" for u :: "'a logst_scheme"
    by (simp_all add: log_rest_def bio_rest_def)
  show 1: "tp t = tp s" "cpus t = cpus s" "locks t = locks s" using r p by metis+
  then show "quiet t = quiet s" by (rule quiet_cong)
  from 1 show m: "me t = me s" by (simp add: me_def mycpu_def)
  with assms show "mypid t = mypid s" by (simp add: mypid_def log_frame_def awake_def)
  show "log_start t = log_start s" "log_dev t = log_dev s" "log_outstanding t = log_outstanding s"
    "log_committing t = log_committing s" using r p by metis+
qed

lemma log_frame_trans: "log_frame s t \<Longrightarrow> log_frame t u \<Longrightarrow> log_frame s u"
  using awake_trans [of s t u] log_frame_proj(5) [of s t] by (simp add: log_frame_def)

lemma log_write_spec:
  assumes q: "quiet s" and inv: "log_inv P s" and h: "holds s b n" and out: "\<not> in_log (log_start s) n"
    and room: "lh_n s < int LOGBLOCKS" and trans: "1 \<le> log_outstanding s"
  shows "wp (log_write b) (\<lambda>_ t. log_inv (insert b P) t \<and> held t = held s \<and> hits t = hits s \<and> blk t = blk s \<and> disk t = disk s \<and>
    dwrites t = dwrites s \<and> log_frame s t \<and> set (log_blocks t) = insert n (set (log_blocks s)) \<and>
    lh_n t = lh_n s + (if n \<in> set (log_blocks s) then 0 else 1)) s"
proof -
  let ?u = "enter LogLock s"
  let ?k = "nat (lh_n s)"
  have bi: "bio_inv P s" and n0: "0 \<le> lh_n s" and lay: "log_layout (log_start s) (log_blocks s)" and dev: "log_dev s = ROOTDEV"
    using inv by (simp_all add: log_inv_def)
  note b = holds_data [OF bi h]
  have pb: "b \<in> P \<longleftrightarrow> n \<in> set (log_blocks s)"
  proof -
    have "c = b" if "c \<in> P" "hits s n c" for c
      using bio_invD(6) [OF bi _ b(1) that(2)] bio_invD(1) [OF bi] that(1) h by (auto simp: holds_def)
    then show ?thesis using inv h by (auto simp: log_inv_def holds_def)
  qed
  have acq: "acquire LogLock s = Done () ?u" using q by (rule quiet_acquire)
  have pu: "lh_n ?u = lh_n s" "log_outstanding ?u = log_outstanding s" "bufs ?u = bufs s" "lh_block ?u = lh_block s"
    by (simp_all add: enter_def upd_mycpu_def)
  show ?thesis
  proof (cases "find (\<lambda>i. lh_block s i = n) [0..<?k]")
    case (Some i)
    then have i: "i < ?k" "lh_block s i = n" by (simp_all add: find_upt_Some)
    have "release LogLock ?u = Done () s"
      using quiet_release [OF q, of ?u LogLock] by (simp add: enter_def upd_mycpu_def)
    moreover have "?u\<lparr>lh_block := (lh_block s)(i := n)\<rparr> = ?u"
      using i by (simp add: fun_upd_idem enter_def upd_mycpu_def)
    moreover have "int i \<noteq> lh_n s" using i(1) by linarith
    ultimately have "log_write b s = Done () s"
      using acq pu room trans Some b(8) i
      by (simp add: log_write_def Do_def gets_def modify_def return_def Let_def)
    moreover have "n \<in> set (log_blocks s)" using i by (auto simp: log_blocks_def)
    ultimately show ?thesis using inv pb by (simp add: wp_def insert_absorb)
  next
    case None
    then have nin: "n \<notin> set (log_blocks s)" by (auto simp: find_upt_None log_blocks_def)
    let ?v = "?u\<lparr>lh_block := (lh_block s)(?k := n)\<rparr>"
    let ?x = "(bufs s b)\<lparr>brefcnt := brefcnt (bufs s b) + 1\<rparr>"
    have pin: "bpin b ?v = Done () (?v\<lparr>bufs := (bufs s)(b := ?x)\<rparr>)"
    proof -
      have "lk_free ?v BcacheLock" "settled (mycpu ?v)"
        using q mycpu_enter [of LogLock s] by (auto simp: quiet_def lk_free_def mycpu_def enter_def upd_mycpu_def settled_pushed)
      then show ?thesis using bpin_eq(1) [of ?v b] pu by simp
    qed
    let ?w = "?v\<lparr>bufs := (bufs s)(b := ?x), lh_n := lh_n s + 1\<rparr>"
    let ?t = "s\<lparr>bufs := (bufs s)(b := ?x), lh_block := (lh_block s)(?k := n), lh_n := lh_n s + 1\<rparr>"
    have "release LogLock ?w = Done () ?t"
      using quiet_release [OF q, of ?w LogLock] by (simp add: enter_def upd_mycpu_def)
    then have e: "log_write b s = Done () ?t"
      using acq pu room trans None b(8) n0 pin
      by (simp add: log_write_def Do_def gets_def modify_def return_def Let_def)
    let ?r = "s\<lparr>bufs := (bufs s)(b := ?x)\<rparr>"
    note r = refcnt_update [of s b "brefcnt (bufs s b) + 1"]
    have inv1: "bio_inv (insert b P) ?r" using pb nin by (intro pin_inv [OF bi h]) simp
    have bt: "held ?t = held s" "hits ?t = hits s" "blk ?t = blk s" "bio_inv (insert b P) ?t"
      using r(1-3) inv1 by simp_all
    have bs: "log_blocks ?t = log_blocks s @ [n]" using n0 by (simp add: log_blocks_def nat_add_distrib)
    have "log_inv (insert b P) ?t"
      using inv bt bs nin out room n0 lay h dev
      by (auto simp: log_inv_def log_layout_def length_log_blocks holds_def hits_def)
    moreover have "log_frame s ?t" using awake_refl [of s] by (simp add: log_frame_def log_rest_def bio_rest_def awake_def)
    ultimately show ?thesis using e bt bs nin by (simp add: wp_def)
  qed
qed

section \<open>Crash atomicity\<close>

text \<open>C22: a commit is atomic with respect to crashes. From a state with an empty log on disk, \<open>commit\<close>
  of up to 29 logged blocks returns; whatever prefix of its disk writes has been carried out when the
  machine stops, the disk that recovery leaves is, outside the log area, the disk before the
  transaction as long as the header has not been written, and from then on the disk with every
  logged block at its new contents.\<close>

theorem commit_is_atomic:
  assumes "quiet s" and "log_inv P s" and "held s = {}" and "0 < lh_n s" and "lh_n s < int NBUF"
    and "hdr_blocks (disk s (log_start s)) = []"
  shows "\<exists>t ws. commit s = Done () t \<and> dwrites t = dwrites s @ ws \<and> disk t = apply_writes ws (disk s) \<and> lh_n t = 0 \<and>
    (\<forall>j m. \<not> in_log (log_start s) m \<longrightarrow>
      recovered (log_start s) (apply_writes (take j ws) (disk s)) m = (if j \<le> nat (lh_n s) then disk s m else blk s m))"
proof -
  let ?st = "log_start s" and ?bs = "log_blocks s"
  let ?ws = "commit_writes ?st ?bs (blk s) (blk s ?st)"
  have inv: "bio_inv P s" and lay: "log_layout ?st ?bs" using assms(2) by (simp_all add: log_inv_def)
  have len: "length ?ws = 2 * length ?bs + 2" by (simp add: commit_writes_def)
  have cl: "blk s m = disk s m" if "m \<notin> set ?bs" for m
    using that assms(2) by (intro clean_block [OF inv assms(3)]) (auto simp: log_inv_def)
  have "recovered ?st (apply_writes (take j ?ws) (disk s)) m = (if j \<le> length ?bs then disk s m else blk s m)"
    if m: "\<not> in_log ?st m" for j m
  proof (cases "j \<le> 2 * length ?bs + 2")
    case True
    then show ?thesis using crash_during_commit [where d = "disk s", OF lay assms(6) length_blk [OF inv, of ?st] m True, of "blk s"] cl by simp
  next
    case False
    then have "take j ?ws = take (2 * length ?bs + 2) ?ws" using len by simp
    then show ?thesis
      using crash_during_commit [where d = "disk s", OF lay assms(6) length_blk [OF inv, of ?st] m order.refl, of "blk s"] cl False by simp
  qed
  then show ?thesis
    using commit_spec [OF assms(1-5)] by (auto simp: wp_iff_Done Let_def length_log_blocks intro!: exI [of _ ?ws])
qed

text \<open>C23: recovery at boot does what the previous property assumes of it. With a working console and
  an empty cache, \<open>recover_from_log\<close> copies the blocks named by a well-formed header to their home
  locations and erases the header, so that the disk and every block the kernel then reads are those
  of \<open>recovered\<close>.\<close>

theorem recovery_restores_the_disk:
  assumes "can_print s" and "bio_inv {} s" and "held s = {}" and "log_dev s = ROOTDEV"
    and "log_layout (log_start s) (hdr_blocks (disk s (log_start s)))"
  shows "\<exists>t. recover_from_log s = Done () t \<and> disk t = recovered (log_start s) (disk s) \<and> blk t = disk t \<and> lh_n t = 0"
  using recover_from_log_disk [OF assms] by (auto simp: wp_iff_Done)

lemma full_log_pins_everything:
  assumes inv: "log_inv P s" and n: "lh_n s = int NBUF"
  shows "P = {..<NBUF}"
proof -
  have bi: "bio_inv P s" using inv by (simp add: log_inv_def)
  have fin: "finite P" using bio_invD(1) [OF bi] finite_subset by blast
  have "set (log_blocks s) \<subseteq> (\<lambda>b. bblockno (bufs s b)) ` P" using inv by (auto simp: log_inv_def hits_def)
  then have "card (set (log_blocks s)) \<le> card P" using fin by (rule surj_card_le [rotated])
  moreover have "card (set (log_blocks s)) = NBUF"
    using inv n by (simp add: log_inv_def log_layout_def distinct_card length_log_blocks)
  ultimately show ?thesis using bio_invD(1) [OF bi] by (intro card_subset_eq) (auto dest: card_mono [rotated])
qed

text \<open>C26: the cache is too small for a full log. The reservation of \<open>begin_op\<close> admits transactions of up
  to \<open>LOGBLOCKS\<close> = 30 blocks, and each logged block pins one of the \<open>NBUF\<close> = 30 buffers; with 30 blocks
  logged the commit finds no buffer for the first log block and the kernel panics.\<close>

theorem full_log_panics:
  assumes "quiet s" and "log_inv P s" and "held s = {}" and "lh_n s = int LOGBLOCKS"
  shows "\<exists>t. commit s = Stop (Panic ''bget: no buffers'') t"
proof -
  have n: "lh_n s = int NBUF" using assms(4) by (simp add: NBUF_def LOGBLOCKS_def)
  note P = full_log_pins_everything [OF assms(2) n]
  have bi: "bio_inv P s" and dev: "log_dev s = ROOTDEV" using assms(2) by (simp_all add: log_inv_def)
  let ?lb = "log_slot (log_start s) 0"
  have nohit: "\<not> hits s ?lb c" if "c < NBUF" for c
    using log_area_unpinned [OF assms(2) slot_in_log, of 0 c] that P by (simp add: LOGBLOCKS_def MAXOPBLOCKS_def)
  have full: "held s \<union> P = {..<NBUF}" using P assms(3) by simp
  have "bget ROOTDEV ?lb s = Stop (Panic ''bget: no buffers'') (enter BcacheLock s)"
    using assms(1) bi full nohit by (rule bget_exhausted)
  then have "write_log_block 0 s = Stop (Panic ''bget: no buffers'') (enter BcacheLock s)"
    using dev by (simp add: write_log_block_def Do_def gets_def bread_def log_slot_def)
  moreover have "[0..<nat (lh_n s)] = 0 # [1..<NBUF]"
    using n by (simp add: NBUF_def MAXOPBLOCKS_def upt_conv_Cons)
  moreover have "0 < lh_n s" using n by (simp add: NBUF_def MAXOPBLOCKS_def)
  ultimately show ?thesis
    by (simp add: commit_def write_log_def Do_def gets_def)
qed

text \<open>A machine with an empty log on a disk of zeros, and the state after one block was logged.\<close>

definition zeros :: dsk where
  "zeros = (\<lambda>_. replicate 1024 0)"

definition log0 :: logst where
  "log0 = bio.extend ((bio0 zeros)\<lparr>lru := [0..<NBUF]\<rparr>) (logst.fields 2 1 False 1 0 (\<lambda>_. 0))"

lemma log0_proj [simp]:
  "tp log0 = tp uart0" "cpus log0 = cpus uart0" "locks log0 = locks uart0" "procs log0 = procs uart0"
  "bufs log0 = (\<lambda>_. buf_zero)" "disk log0 = zeros" "log_start log0 = 2" "log_dev log0 = ROOTDEV" "lh_n log0 = 0"
  "log_outstanding log0 = 1" "uart_idle log0" "\<not> panicked log0" "\<not> panicking log0" "uart_regs log0 r = 0"
  "lru log0 = [0..<NBUF]" "\<not> slocked (slocks log0 k)"
  by (simp_all add: log0_def bio0_def cons0_def cons.defs bio.defs uart.defs logst.defs ROOTDEV_def)
    (simp add: uart0_def kvm0_def kmem_boot_def kvm.defs kmem.defs uart.defs sched0_def sched.defs mach.defs)

lemma zeros_header: "hdr_blocks (replicate 1024 0) = []"
proof -
  have "rd32 (replicate 1024 0) 0 = 0" by (simp add: rd32_def sub_def bytes_word_def numeral_eq_Suc)
  then show ?thesis by (simp add: hdr_blocks_def rd_addrs_def)
qed

lemma log0_ready: "bio_inv {} log0" "held log0 = {}" "quiet log0" "can_print log0"
proof -
  show h: "held log0 = {}" by (simp add: held_def)
  have nohit: "\<not> hits log0 n b" for n b by (simp add: hits_def buf_zero_def ROOTDEV_def)
  have "buf_ok {} log0 b" for b by (simp add: buf_ok_def h buf_zero_def)
  then show "bio_inv {} log0" using nohit by (auto simp: bio_inv_def zeros_def BSIZE_def)
  show q: "quiet log0" using quiet_uart0 by (simp add: quiet_def mycpu_def lk_free_def)
  then show "can_print log0" by (simp add: can_print_def uart_ready_def quiet_def)
qed

lemma log_inv_log0: "log_inv {} log0"
  using log0_ready by (simp add: log_inv_def log_layout_def log_blocks_def)

theorem recovery_restores_the_disk_witness:
  "\<exists>t. recover_from_log log0 = Done () t \<and> disk t = recovered 2 zeros"
  using recovery_restores_the_disk [of log0] log0_ready zeros_header
  by (auto simp: zeros_def log_layout_def)

lemma logged_state:
  obtains s P where "quiet (s :: logst)" "log_inv P s" "held s = {}" "lh_n s = 1" "disk s = zeros" "log_start s = 2"
    "blk s 46 = replicate 1024 7"
proof -
  obtain b t1 where 1: "bread ROOTDEV 46 log0 = Done b t1" "held t1 = {b}" "holds t1 b 46" "bio_inv {} t1" "bio_frame log0 t1"
      "disk t1 = zeros" "quiet t1"
    by (rule bread_transparent [of log0 "{}" 46]) (use log0_ready some_buffer in \<open>auto simp: holds_def\<close>)
  let ?t2 = "set_data b (replicate 1024 7) t1"
  have len: "length (replicate 1024 (7 :: byte)) = BSIZE" by (simp add: BSIZE_def)
  note 2 = set_data_spec [OF 1(4,3) len]
  note f1 = bio_frame_log [OF 1(5)] and f2 = bio_frame_log [OF set_data_simps(8) [of t1 b "replicate 1024 7"]]
  have inv2: "log_inv {} ?t2" using 2(1) f1 f2 by (simp add: log_inv_def log_layout_def log_blocks_def)
  have "wp (log_write b) (\<lambda>_ t. log_inv (insert b {}) t \<and> held t = held ?t2 \<and> hits t = hits ?t2 \<and> blk t = blk ?t2 \<and>
      disk t = disk ?t2 \<and> dwrites t = dwrites ?t2 \<and> log_frame ?t2 t \<and> set (log_blocks t) = insert 46 (set (log_blocks ?t2)) \<and>
      lh_n t = lh_n ?t2 + (if 46 \<in> set (log_blocks ?t2) then 0 else 1)) ?t2"
    by (rule log_write_spec [OF _ inv2])
      (use 1 f1 f2 in \<open>simp_all add: in_log_def LOGBLOCKS_def MAXOPBLOCKS_def\<close>)
  then obtain t3 where 3: "log_inv {b} t3" "held t3 = {b}" "hits t3 = hits t1" "blk t3 = blk ?t2" "disk t3 = zeros" "log_frame ?t2 t3" "lh_n t3 = 1"
    using 1 f1 f2 by (auto simp: wp_iff_Done log_blocks_def)
  have q3: "quiet t3" and st3: "log_start t3 = 2" using log_frame_proj(4,7) [OF 3(6)] 1(7) f1 f2 by simp_all
  have h3: "holds t3 b 46" using 1(3) 3(2,3) by (simp add: holds_def)
  have bi3: "bio_inv {b} t3" using 3(1) by (simp add: log_inv_def)
  obtain t4 where 4: "bio_inv {b} t4" "blk t4 = blk t3" "held t4 = held t3 - {b}" "hits t4 = hits t3" "disk t4 = disk t3" "bio_frame t3 t4" "quiet t4"
    by (rule brelse_obtain [OF q3 bi3 h3]) auto
  note f4 = bio_frame_log [OF 4(6)]
  show thesis
  proof (rule that)
    show "log_inv {b} t4" using 3(1) 4(1,4) f4 by (simp add: log_inv_def)
    show "blk t4 46 = replicate 1024 7" using 4(2) 3(4) 2(2) by simp
  qed (use 3 4 f4 st3 in auto)
qed

theorem commit_is_atomic_witness:
  "\<exists>(s :: logst) t ws. commit s = Done () t \<and> dwrites t = dwrites s @ ws \<and> disk s 46 = replicate 1024 0 \<and>
     recovered 2 (apply_writes (take 1 ws) (disk s)) 46 = replicate 1024 0 \<and>
     recovered 2 (apply_writes (take 2 ws) (disk s)) 46 = replicate 1024 7"
proof -
  obtain s P where "quiet (s :: logst)" "log_inv P s" "held s = {}" "lh_n s = 1" "disk s = zeros" "log_start s = 2"
    "blk s 46 = replicate 1024 7" by (rule logged_state)
  moreover from this obtain t ws where "commit s = Done () t" "dwrites t = dwrites s @ ws"
      "\<forall>j m. \<not> in_log 2 m \<longrightarrow> recovered 2 (apply_writes (take j ws) (disk s)) m = (if j \<le> 1 then disk s m else blk s m)"
    using commit_is_atomic [of s P] zeros_header by (auto simp: zeros_def NBUF_def MAXOPBLOCKS_def)
  moreover have "\<not> in_log 2 46" by (simp add: in_log_def LOGBLOCKS_def MAXOPBLOCKS_def)
  ultimately show ?thesis by (intro exI [of _ s] exI [of _ t] exI [of _ ws]) (simp add: zeros_def)
qed

text \<open>A state with a full log.\<close>

definition log_full :: logst where
  "log_full = log0\<lparr>bufs := \<lambda>b. \<lparr>bvalid = True, bdisk = False, bdev = ROOTDEV, bblockno = 100 + of_nat b, brefcnt = 1,
     bdata = replicate 1024 0\<rparr>, lh_n := 30, lh_block := \<lambda>i. 100 + of_nat i\<rparr>"

lemma log_full_inv: "log_inv {..<NBUF} log_full" and log_full_quiet: "quiet log_full" "held log_full = {}"
proof -
  have nb: "NBUF = 30" by (simp add: NBUF_def MAXOPBLOCKS_def)
  have p: "bufs log_full b = \<lparr>bvalid = True, bdisk = False, bdev = ROOTDEV, bblockno = 100 + of_nat b, brefcnt = 1,
      bdata = replicate 1024 0\<rparr>" "disk log_full = zeros" "lru log_full = [0..<NBUF]" for b
    by (simp_all add: log_full_def)
  show h: "held log_full = {}" by (simp add: held_def log_full_def)
  show "quiet log_full" using log0_ready(3) quiet_cong [of log_full log0] by (simp add: log_full_def)
  have hit: "hits log_full m b \<longleftrightarrow> m = 100 + of_nat b" for m b by (auto simp: hits_def p)
  have inj: "b = c" if "b < NBUF" "c < NBUF" "(100 + of_nat b :: uint) = 100 + of_nat c" for b c
    using that nb by (auto dest: arg_cong [of _ _ unat] simp: unat_of_nat)
  have "buf_ok {..<NBUF} log_full b" if "b < NBUF" for b using that by (simp add: buf_ok_def h p BSIZE_def)
  then have "bio_inv {..<NBUF} log_full" using inj by (auto simp: bio_inv_def p hit zeros_def BSIZE_def)
  moreover have bs: "log_blocks log_full = map (\<lambda>i. 100 + of_nat i) [0..<30]" by (simp add: log_blocks_def log_full_def)
  moreover have "log_layout 2 (map (\<lambda>i. 100 + of_nat i) [0..<30])"
    by code_simp
  moreover have "log_start log_full = 2" "log_dev log_full = ROOTDEV" "lh_n log_full = 30" by (simp_all add: log_full_def)
  ultimately show "log_inv {..<NBUF} log_full" using nb by (auto simp: log_inv_def hit)
qed

theorem full_log_panics_witness: "\<exists>t. commit log_full = Stop (Panic ''bget: no buffers'') t"
  using full_log_panics [OF log_full_quiet(1) log_full_inv log_full_quiet(2)]
  by (simp add: log_full_def LOGBLOCKS_def MAXOPBLOCKS_def)

end
