(* ===== verification/Fs.thy ===== *)
theory Fs
  imports Log
begin

text \<open>
  The file system (\<open>kernel/fs.c\<close>): block allocation, inodes, inode contents, directories and paths.
  In-memory inodes are entries of a table; a pointer to one is its index. Data goes to or comes from
  user memory, kernel memory or a local variable of the caller: \<open>iodst\<close> and \<open>iosrc\<close> say which, and a
  transfer to a local variable returns the bytes. Names and paths are byte lists without the final
  NUL; a name of 14 characters fills its field.
\<close>

section \<open>State\<close>

record inode =
  idev :: uint
  inum :: uint
  iref :: int
  ivalid :: bool
  itype :: ushort
  imajor :: ushort
  iminor :: ushort
  inlink :: ushort
  isize :: uint
  iaddrs :: "uint list"

record fsst = logst +
  sb :: superblock
  itable :: "nat \<Rightarrow> inode"

definition upd_inode :: "nat \<Rightarrow> (inode \<Rightarrow> inode) \<Rightarrow> ('z fsst_scheme, unit) kern" where
  "upd_inode i f = modify (\<lambda>s. s\<lparr>itable := (itable s)(i := f (itable s i))\<rparr>)"

definition upd_data :: "nat \<Rightarrow> (byte list \<Rightarrow> byte list) \<Rightarrow> ('z bio_scheme, unit) kern" where
  "upd_data b f = upd_buf b (\<lambda>x. x\<lparr>bdata := f (bdata x)\<rparr>)"

abbreviation get_inode :: "nat \<Rightarrow> ('z fsst_scheme, inode) kern" where
  "get_inode i \<equiv> gets (\<lambda>s. itable s i)"

abbreviation get_data :: "nat \<Rightarrow> ('z bio_scheme, byte list) kern" where
  "get_data b \<equiv> gets (\<lambda>s. bdata (bufs s b))"

section \<open>Blocks\<close>

definition readsb :: "uint \<Rightarrow> ('z fsst_scheme, unit) kern" where
  "readsb dev =
     Do (bread dev 1) (\<lambda>bp.
     Do (get_data bp) (\<lambda>d.
     Seq (modify (\<lambda>s. s\<lparr>sb := superblock_of d\<rparr>))
     (brelse bp)))"

definition bzero :: "uint \<Rightarrow> uint \<Rightarrow> ('z fsst_scheme, unit) kern" where
  "bzero dev bno =
     Do (bread dev bno) (\<lambda>bp.
     Seq (upd_data bp (\<lambda>_. replicate BSIZE 0)) (
     Seq (log_write bp)
     (brelse bp)))"

text \<open>The bit of block \<open>bi\<close> in a bitmap block.\<close>

definition bmap_mask :: "nat \<Rightarrow> byte" where
  "bmap_mask bi = push_bit (bi mod 8) 1"

definition bmap_free :: "byte list \<Rightarrow> nat \<Rightarrow> bool" where
  "bmap_free d bi \<longleftrightarrow> (d ! (bi div 8)) AND bmap_mask bi = 0"

definition bmap_set :: "nat \<Rightarrow> byte list \<Rightarrow> byte list" where
  "bmap_set bi d = d[bi div 8 := (d ! (bi div 8)) OR bmap_mask bi]"

definition bmap_clear :: "nat \<Rightarrow> byte list \<Rightarrow> byte list" where
  "bmap_clear bi d = d[bi div 8 := (d ! (bi div 8)) AND NOT (bmap_mask bi)]"

text \<open>The body of the outer loop of \<open>balloc\<close>, for the bitmap block that starts with block \<open>b\<close>.\<close>

definition balloc_in :: "uint \<Rightarrow> nat \<Rightarrow> ('z fsst_scheme, uint option) kern" where
  "balloc_in dev b =
     Do (gets sb) (\<lambda>sb.
     Do (bread dev (BBLOCK (of_nat b) sb)) (\<lambda>bp.
     Do (get_data bp) (\<lambda>d.
     case find (bmap_free d) [0..<min BPB (unat (sb_size sb) - b)] of
       Some bi \<Rightarrow>
         Seq (upd_data bp (bmap_set bi)) (
         Seq (log_write bp) (
         Seq (brelse bp) (
         Seq (bzero dev (of_nat (b + bi)))
         (return (Some (of_nat (b + bi)))))))
     | None \<Rightarrow> Seq (brelse bp) (return None))))"

definition balloc :: "uint \<Rightarrow> ('z fsst_scheme, uint) kern" where
  "balloc dev =
     Do (gets (\<lambda>s. unat (sb_size (sb s)))) (\<lambda>n.
     Do (for_find (map (\<lambda>k. k * BPB) [0..<(n + BPB - 1) div BPB]) (balloc_in dev)) (\<lambda>r. case r of
       Some b \<Rightarrow> return b
     | None \<Rightarrow> Seq (printf ''balloc: out of blocks\<newline>'' []) (return 0)))"

definition bfree :: "uint \<Rightarrow> uint \<Rightarrow> ('z fsst_scheme, unit) kern" where
  "bfree dev b =
     Do (gets sb) (\<lambda>sb.
     Do (bread dev (BBLOCK b sb)) (\<lambda>bp.
     let bi = unat b mod BPB in
     Do (get_data bp) (\<lambda>d.
     if bmap_free d bi then panic ''freeing free block'' else
     Seq (upd_data bp (bmap_clear bi)) (
     Seq (log_write bp)
     (brelse bp)))))"

section \<open>Inodes\<close>

definition iinit :: "('z fsst_scheme, unit) kern" where
  "iinit =
     Seq (initlock ItableLock ''itable'')
     (for_each [0..<NINODE] (\<lambda>i. initsleeplock (InodeSleep i) ''inode''))"

definition iget :: "uint \<Rightarrow> uint \<Rightarrow> ('z fsst_scheme, nat) kern" where
  "iget dev n =
     Seq (acquire ItableLock) (
     Do (gets itable) (\<lambda>t.
     case find (\<lambda>i. iref (t i) > 0 \<and> idev (t i) = dev \<and> inum (t i) = n) [0..<NINODE] of
       Some i \<Rightarrow>
         Seq (upd_inode i (\<lambda>x. x\<lparr>iref := iref x + 1\<rparr>)) (
         Seq (release ItableLock)
         (return i))
     | None \<Rightarrow> (case find (\<lambda>i. iref (t i) = 0) [0..<NINODE] of
         None \<Rightarrow> panic ''iget: no inodes''
       | Some i \<Rightarrow>
           Seq (upd_inode i (\<lambda>x. x\<lparr>idev := dev, inum := n, iref := 1, ivalid := False\<rparr>)) (
           Seq (release ItableLock)
           (return i)))))"

definition inode_slot :: "uint \<Rightarrow> nat" where
  "inode_slot n = unat n mod IPB"

definition ialloc_try :: "uint \<Rightarrow> ushort \<Rightarrow> uint \<Rightarrow> ('z fsst_scheme, nat option) kern" where
  "ialloc_try dev ty n =
     Do (gets sb) (\<lambda>sb.
     Do (bread dev (IBLOCK n sb)) (\<lambda>bp.
     Do (get_data bp) (\<lambda>d.
     if di_type (rd_dinode d (inode_slot n)) = 0 then
       Seq (upd_data bp (\<lambda>d. wr_dinode d (inode_slot n)
         \<lparr>di_type = ty, di_major = 0, di_minor = 0, di_nlink = 0, di_size = 0, di_addrs = replicate (NDIRECT + 1) 0\<rparr>)) (
       Seq (log_write bp) (
       Seq (brelse bp) (
       Do (iget dev n) (\<lambda>ip. return (Some ip)))))
     else Seq (brelse bp) (return None))))"

definition ialloc :: "uint \<Rightarrow> ushort \<Rightarrow> ('z fsst_scheme, nat option) kern" where
  "ialloc dev ty =
     Do (gets (\<lambda>s. unat (sb_ninodes (sb s)))) (\<lambda>n.
     Do (for_find (map of_nat [1..<n]) (ialloc_try dev ty)) (\<lambda>r. case r of
       Some ip \<Rightarrow> return (Some ip)
     | None \<Rightarrow> Seq (printf ''ialloc: no inodes\<newline>'' []) (return None)))"

definition dinode_of :: "inode \<Rightarrow> dinode" where
  "dinode_of x = \<lparr>di_type = itype x, di_major = imajor x, di_minor = iminor x, di_nlink = inlink x,
     di_size = isize x, di_addrs = iaddrs x\<rparr>"

definition iupdate :: "nat \<Rightarrow> ('z fsst_scheme, unit) kern" where
  "iupdate ip =
     Do (gets sb) (\<lambda>sb.
     Do (get_inode ip) (\<lambda>x.
     Do (bread (idev x) (IBLOCK (inum x) sb)) (\<lambda>bp.
     Seq (upd_data bp (\<lambda>d. wr_dinode d (inode_slot (inum x)) (dinode_of x))) (
     Seq (log_write bp)
     (brelse bp)))))"

definition idup :: "nat \<Rightarrow> ('z fsst_scheme, nat) kern" where
  "idup ip =
     Seq (acquire ItableLock) (
     Seq (upd_inode ip (\<lambda>x. x\<lparr>iref := iref x + 1\<rparr>)) (
     Seq (release ItableLock)
     (return ip)))"

definition ilock :: "nat \<Rightarrow> ('z fsst_scheme, unit) kern" where
  "ilock ip =
     Do (get_inode ip) (\<lambda>x.
     if iref x < 1 then panic ''ilock'' else
     Seq (acquiresleep (InodeSleep ip)) (
     Do (get_inode ip) (\<lambda>x.
     if ivalid x then skip else
     Do (gets sb) (\<lambda>sb.
     Do (bread (idev x) (IBLOCK (inum x) sb)) (\<lambda>bp.
     Do (get_data bp) (\<lambda>d.
     let di = rd_dinode d (inode_slot (inum x)) in
     Seq (upd_inode ip (\<lambda>x. x\<lparr>itype := di_type di, imajor := di_major di, iminor := di_minor di,
       inlink := di_nlink di, isize := di_size di, iaddrs := di_addrs di\<rparr>)) (
     Seq (brelse bp) (
     Seq (upd_inode ip (\<lambda>x. x\<lparr>ivalid := True\<rparr>)) (
     if di_type di = 0 then panic ''ilock: no type'' else skip)))))))))"

definition iunlock :: "nat \<Rightarrow> ('z fsst_scheme, unit) kern" where
  "iunlock ip =
     Do (holdingsleep (InodeSleep ip)) (\<lambda>h.
     Do (get_inode ip) (\<lambda>x.
     if \<not> h \<or> iref x < 1 then panic ''iunlock'' else
     releasesleep (InodeSleep ip)))"

section \<open>Inode contents\<close>

definition bmap :: "nat \<Rightarrow> nat \<Rightarrow> ('z fsst_scheme, uint) kern" where
  "bmap ip bn =
     Do (get_inode ip) (\<lambda>x.
     if bn < NDIRECT then
       (if iaddrs x ! bn \<noteq> 0 then return (iaddrs x ! bn) else
        Do (balloc (idev x)) (\<lambda>addr.
        if addr = 0 then return 0 else
        Seq (upd_inode ip (\<lambda>x. x\<lparr>iaddrs := (iaddrs x)[bn := addr]\<rparr>))
        (return addr)))
     else if bn - NDIRECT < NINDIRECT then
       let bn = bn - NDIRECT in
       Do (if iaddrs x ! NDIRECT \<noteq> 0 then return (iaddrs x ! NDIRECT) else
           Do (balloc (idev x)) (\<lambda>addr.
           if addr = 0 then return 0 else
           Seq (upd_inode ip (\<lambda>x. x\<lparr>iaddrs := (iaddrs x)[NDIRECT := addr]\<rparr>))
           (return addr))) (\<lambda>addr.
       if addr = 0 then return 0 else
       Do (bread (idev x) addr) (\<lambda>bp.
       Do (get_data bp) (\<lambda>d.
       Do (if rd32 d (4 * bn) \<noteq> 0 then return (rd32 d (4 * bn)) else
           Do (balloc (idev x)) (\<lambda>addr.
           Seq (kwhen (addr \<noteq> 0) (
             Seq (upd_data bp (\<lambda>d. wr32 d (4 * bn) addr))
             (log_write bp)))
           (return addr))) (\<lambda>addr.
       Seq (brelse bp)
       (return addr)))))
     else panic ''bmap: out of range'')"

definition itrunc :: "nat \<Rightarrow> ('z fsst_scheme, unit) kern" where
  "itrunc ip =
     Seq (for_each [0..<NDIRECT] (\<lambda>i.
       Do (get_inode ip) (\<lambda>x.
       kwhen (iaddrs x ! i \<noteq> 0) (
         Seq (bfree (idev x) (iaddrs x ! i))
         (upd_inode ip (\<lambda>x. x\<lparr>iaddrs := (iaddrs x)[i := 0]\<rparr>)))))) (
     Do (get_inode ip) (\<lambda>x.
     Seq (kwhen (iaddrs x ! NDIRECT \<noteq> 0) (
       Do (bread (idev x) (iaddrs x ! NDIRECT)) (\<lambda>bp.
       Seq (for_each [0..<NINDIRECT] (\<lambda>j.
         Do (get_data bp) (\<lambda>d.
         kwhen (rd32 d (4 * j) \<noteq> 0) (bfree (idev x) (rd32 d (4 * j)))))) (
       Seq (brelse bp) (
       Seq (bfree (idev x) (iaddrs x ! NDIRECT))
       (upd_inode ip (\<lambda>x. x\<lparr>iaddrs := (iaddrs x)[NDIRECT := 0]\<rparr>))))))) (
     Seq (upd_inode ip (\<lambda>x. x\<lparr>isize := 0\<rparr>))
     (iupdate ip))))"

text \<open>The last reference to an unlinked inode frees it. \<open>acquiresleep\<close> runs with \<open>itable.lock\<close> held; it
  does not block, since nobody else refers to the inode.\<close>

definition iput :: "nat \<Rightarrow> ('z fsst_scheme, unit) kern" where
  "iput ip =
     Seq (acquire ItableLock) (
     Do (get_inode ip) (\<lambda>x.
     Seq (kwhen (iref x = 1 \<and> ivalid x \<and> inlink x = 0) (
       Seq (acquiresleep (InodeSleep ip)) (
       Seq (release ItableLock) (
       Seq (itrunc ip) (
       Seq (upd_inode ip (\<lambda>x. x\<lparr>itype := 0\<rparr>)) (
       Seq (iupdate ip) (
       Seq (upd_inode ip (\<lambda>x. x\<lparr>ivalid := False\<rparr>)) (
       Seq (releasesleep (InodeSleep ip))
       (acquire ItableLock))))))))) (
     Seq (upd_inode ip (\<lambda>x. x\<lparr>iref := iref x - 1\<rparr>))
     (release ItableLock))))"

definition iunlockput :: "nat \<Rightarrow> ('z fsst_scheme, unit) kern" where
  "iunlockput ip = Seq (iunlock ip) (iput ip)"

definition ireclaim_one :: "uint \<Rightarrow> uint \<Rightarrow> ('z fsst_scheme, unit) kern" where
  "ireclaim_one dev n =
     Do (gets sb) (\<lambda>sb.
     Do (bread dev (IBLOCK n sb)) (\<lambda>bp.
     Do (get_data bp) (\<lambda>d.
     let di = rd_dinode d (inode_slot n) in
     Do (if di_type di \<noteq> 0 \<and> di_nlink di = 0 then
           Seq (printf ''ireclaim: orphaned inode %d\<newline>'' [VInt (ucast n)]) (
           Do (iget dev n) (\<lambda>ip. return (Some ip)))
         else return None) (\<lambda>r.
     Seq (brelse bp) (
     case r of None \<Rightarrow> skip
     | Some ip \<Rightarrow>
         Seq begin_op (
         Seq (ilock ip) (
         Seq (iunlock ip) (
         Seq (iput ip)
         end_op))))))))"

definition ireclaim :: "uint \<Rightarrow> ('z fsst_scheme, unit) kern" where
  "ireclaim dev =
     Do (gets (\<lambda>s. unat (sb_ninodes (sb s)))) (\<lambda>n.
     for_each (map of_nat [1..<n]) (ireclaim_one dev))"

definition fsinit :: "uint \<Rightarrow> ('z fsst_scheme, unit) kern" where
  "fsinit dev =
     Seq (readsb dev) (
     Do (gets sb) (\<lambda>sb.
     if sb_magic sb \<noteq> FSMAGIC then panic ''invalid file system'' else
     Seq (initlog dev sb)
     (ireclaim dev)))"

section \<open>Reading and writing\<close>

record stat =
  st_dev :: uint
  st_ino :: uint
  st_type :: ushort
  st_nlink :: ushort
  st_size :: uint64

definition stati :: "nat \<Rightarrow> ('z fsst_scheme, stat) kern" where
  "stati ip =
     Do (get_inode ip) (\<lambda>x.
     return \<lparr>st_dev = idev x, st_ino = inum x, st_type = itype x, st_nlink = inlink x, st_size = ucast (isize x)\<rparr>)"

datatype iodst = UserDst uint64 | KernDst uint64 | LocalDst
datatype iosrc = UserSrc uint64 | KernSrc uint64 | LocalSrc "byte list"

definition copy_to :: "iodst \<Rightarrow> nat \<Rightarrow> byte list \<Rightarrow> ('z kmem_scheme, int) kern" where
  "copy_to dst tot bs = (case dst of
       UserDst a \<Rightarrow> either_copyout True (a + of_nat tot) bs
     | KernDst a \<Rightarrow> either_copyout False (a + of_nat tot) bs
     | LocalDst \<Rightarrow> return 0)"

definition copy_from :: "iosrc \<Rightarrow> nat \<Rightarrow> nat \<Rightarrow> ('z kmem_scheme, int \<times> byte list) kern" where
  "copy_from src tot m = (case src of
       UserSrc a \<Rightarrow> either_copyin True (a + of_nat tot) m
     | KernSrc a \<Rightarrow> either_copyin False (a + of_nat tot) m
     | LocalSrc bs \<Rightarrow> return (0, take m (drop tot bs)))"

text \<open>How much of the request lies in the current block.\<close>

definition block_part :: "nat \<Rightarrow> nat \<Rightarrow> nat" where
  "block_part off left = min left (BSIZE - off mod BSIZE)"

lemma block_part_pos: "0 < left \<Longrightarrow> 0 < block_part off left"
  by (simp add: block_part_def BSIZE_def)

lemma block_part_le: "block_part off left \<le> left"
  by (simp add: block_part_def)

text \<open>The loop of \<open>readi\<close>: \<open>tot\<close> bytes are done, \<open>left = n - tot\<close> remain. The result is the value returned
  and the bytes read by this and the later rounds.\<close>

function readi_loop :: "nat \<Rightarrow> iodst \<Rightarrow> nat \<Rightarrow> nat \<Rightarrow> nat \<Rightarrow> ('z fsst_scheme, int \<times> byte list) kern" where
  "readi_loop ip dst tot off left =
     (if left = 0 then return (int tot, []) else
      Do (bmap ip (off div BSIZE)) (\<lambda>addr.
      if addr = 0 then return (int tot, []) else
      Do (get_inode ip) (\<lambda>x.
      Do (bread (idev x) addr) (\<lambda>bp.
      let m = block_part off left in
      Do (gets (\<lambda>s. sub (bdata (bufs s bp)) (off mod BSIZE) m)) (\<lambda>bs.
      Do (copy_to dst tot bs) (\<lambda>r.
      if r = - 1 then Seq (brelse bp) (return (- 1, [])) else
      Seq (brelse bp) (
      Do (readi_loop ip dst (tot + m) (off + m) (left - m)) (\<lambda>(r, rest).
      return (r, bs @ rest)))))))))"
  by auto

termination readi_loop
  by (relation "measure (\<lambda>(_, _, _, _, left). left)") (auto simp: block_part_pos)

declare readi_loop.simps [simp del]

definition readi :: "nat \<Rightarrow> iodst \<Rightarrow> uint \<Rightarrow> uint \<Rightarrow> ('z fsst_scheme, int \<times> byte list) kern" where
  "readi ip dst off n =
     Do (get_inode ip) (\<lambda>x.
     if off > isize x \<or> off + n < off then return (0, []) else
     let n = (if off + n > isize x then isize x - off else n) in
     readi_loop ip dst 0 (unat off) (unat n))"

text \<open>The loop of \<open>writei\<close> returns how many bytes were written. A copy that fails in the middle of a block
  has changed the cached block, which is released without being logged.\<close>

function writei_loop :: "nat \<Rightarrow> iosrc \<Rightarrow> nat \<Rightarrow> nat \<Rightarrow> nat \<Rightarrow> ('z fsst_scheme, nat) kern" where
  "writei_loop ip src tot off left =
     (if left = 0 then return tot else
      Do (bmap ip (off div BSIZE)) (\<lambda>addr.
      if addr = 0 then return tot else
      Do (get_inode ip) (\<lambda>x.
      Do (bread (idev x) addr) (\<lambda>bp.
      let m = block_part off left in
      Do (copy_from src tot m) (\<lambda>(r, bs).
      Seq (upd_data bp (\<lambda>d. splice d (off mod BSIZE) bs)) (
      if r = - 1 then Seq (brelse bp) (return tot) else
      Seq (log_write bp) (
      Seq (brelse bp)
      (writei_loop ip src (tot + m) (off + m) (left - m)))))))))"
  by auto

termination writei_loop
  by (relation "measure (\<lambda>(_, _, _, _, left). left)") (auto simp: block_part_pos)

declare writei_loop.simps [simp del]

definition writei :: "nat \<Rightarrow> iosrc \<Rightarrow> uint \<Rightarrow> uint \<Rightarrow> ('z fsst_scheme, int) kern" where
  "writei ip src off n =
     Do (get_inode ip) (\<lambda>x.
     if off > isize x \<or> off + n < off then return (- 1) else
     if off + n > of_nat (MAXFILE * BSIZE) then return (- 1) else
     Do (writei_loop ip src 0 (unat off) (unat n)) (\<lambda>tot.
     let off = off + of_nat tot in
     Seq (upd_inode ip (\<lambda>x. if off > isize x then x\<lparr>isize := off\<rparr> else x)) (
     Seq (iupdate ip)
     (return (int tot)))))"

section \<open>Directories\<close>

definition namecmp :: "byte list \<Rightarrow> byte list \<Rightarrow> int" where
  "namecmp s t = strncmp_l s t DIRSIZ"

text \<open>The offsets of the entries of a directory of \<open>n\<close> bytes.\<close>

definition dir_offsets :: "nat \<Rightarrow> nat list" where
  "dir_offsets n = map (\<lambda>k. k * sizeof_dirent) [0..<(n + sizeof_dirent - 1) div sizeof_dirent]"

definition read_dirent :: "nat \<Rightarrow> nat \<Rightarrow> string \<Rightarrow> ('z fsst_scheme, dirent) kern" where
  "read_dirent dp off msg =
     Do (readi dp LocalDst (of_nat off) (of_nat sizeof_dirent)) (\<lambda>(r, bs).
     if r \<noteq> int sizeof_dirent then panic msg else return (rd_dirent bs))"

definition dirlookup :: "nat \<Rightarrow> byte list \<Rightarrow> ('z fsst_scheme, (nat \<times> nat) option) kern" where
  "dirlookup dp name =
     Do (get_inode dp) (\<lambda>x.
     if itype x \<noteq> T_DIR then panic ''dirlookup not DIR'' else
     for_find (dir_offsets (unat (isize x))) (\<lambda>off.
       Do (read_dirent dp off ''dirlookup read'') (\<lambda>de.
       if de_inum de = 0 then return None else
       if namecmp name (de_name de) = 0 then
         Do (iget (idev x) (ucast (de_inum de))) (\<lambda>ip. return (Some (ip, off)))
       else return None)))"

definition dirlink :: "nat \<Rightarrow> byte list \<Rightarrow> uint \<Rightarrow> ('z fsst_scheme, int) kern" where
  "dirlink dp name n =
     Do (dirlookup dp name) (\<lambda>r. case r of
       Some (ip, _) \<Rightarrow> Seq (iput ip) (return (- 1))
     | None \<Rightarrow>
     Do (gets (\<lambda>s. unat (isize (itable s dp)))) (\<lambda>size.
     Do (for_find (dir_offsets size) (\<lambda>off.
       Do (read_dirent dp off ''dirlink read'') (\<lambda>de.
       return (if de_inum de = 0 then Some off else None)))) (\<lambda>r.
     let off = (case r of Some off \<Rightarrow> off | None \<Rightarrow> length (dir_offsets size) * sizeof_dirent);
         de = \<lparr>de_inum = ucast n, de_name = strncpy_l DIRSIZ name\<rparr>
     in
     Do (writei dp (LocalSrc (dirent_bytes de)) (of_nat off) (of_nat sizeof_dirent)) (\<lambda>w.
     return (if w \<noteq> int sizeof_dirent then - 1 else 0)))))"

section \<open>Paths\<close>

abbreviation slash :: byte where
  "slash \<equiv> of_char (CHR ''/'')"

definition skipelem :: "byte list \<Rightarrow> (byte list \<times> byte list) option" where
  "skipelem path =
     (let p = dropWhile (\<lambda>c. c = slash) path in
      if p = [] then None else
      let elem = takeWhile (\<lambda>c. c \<noteq> slash) p;
          rest = dropWhile (\<lambda>c. c \<noteq> slash) p
      in Some (dropWhile (\<lambda>c. c = slash) rest, take DIRSIZ elem))"

lemma skipelem_shorter: "skipelem path = Some (rest, name) \<Longrightarrow> length rest < length path"
proof -
  assume "skipelem path = Some (rest, name)"
  then have p: "dropWhile (\<lambda>c. c = slash) path \<noteq> []"
    and r: "rest = dropWhile (\<lambda>c. c = slash) (dropWhile (\<lambda>c. c \<noteq> slash) (dropWhile (\<lambda>c. c = slash) path))"
    by (auto simp: skipelem_def Let_def split: if_splits)
  let ?p = "dropWhile (\<lambda>c. c = slash) path"
  have "hd ?p \<noteq> slash" using p hd_dropWhile by blast
  then have "length (dropWhile (\<lambda>c. c \<noteq> slash) ?p) < length ?p"
    using p by (cases ?p) (auto simp: le_imp_less_Suc length_dropWhile_le)
  then show ?thesis
    unfolding r using length_dropWhile_le [of "\<lambda>c. c = slash" path]
      length_dropWhile_le [of "\<lambda>c. c = slash" "dropWhile (\<lambda>c. c \<noteq> slash) ?p"] by linarith
qed

text \<open>\<open>namex\<close> returns the inode, and the last name for \<open>nameiparent\<close>.\<close>

function namex_loop :: "nat \<Rightarrow> byte list \<Rightarrow> bool \<Rightarrow> byte list \<Rightarrow> ('z fsst_scheme, (nat \<times> byte list) option) kern" where
  "namex_loop ip path par name0 = (case skipelem path of
       None \<Rightarrow> if par then Seq (iput ip) (return None) else return (Some (ip, name0))
     | Some (path', name) \<Rightarrow>
         Seq (ilock ip) (
         Do (get_inode ip) (\<lambda>x.
         if itype x \<noteq> T_DIR then Seq (iunlockput ip) (return None) else
         if par \<and> path' = [] then Seq (iunlock ip) (return (Some (ip, name))) else
         Do (dirlookup ip name) (\<lambda>r. case r of
           None \<Rightarrow> Seq (iunlockput ip) (return None)
         | Some (nxt, _) \<Rightarrow>
             Seq (iunlockput ip)
             (namex_loop nxt path' par name)))))"
  by auto

termination namex_loop
  by (relation "measure (\<lambda>(_, path, _, _). length path)") (auto dest: skipelem_shorter)

declare namex_loop.simps [simp del]

definition namex :: "byte list \<Rightarrow> bool \<Rightarrow> ('z fsst_scheme, (nat \<times> byte list) option) kern" where
  "namex path par =
     Do (if path \<noteq> [] \<and> hd path = slash then iget ROOTDEV ROOTINO
         else Do cur (\<lambda>p. Do (gets (\<lambda>s. cwd (procs s p))) (\<lambda>c. case c of
           None \<Rightarrow> stop (Fault ''namex'') | Some ip \<Rightarrow> idup ip))) (\<lambda>ip.
     namex_loop ip path par [])"

definition namei :: "byte list \<Rightarrow> ('z fsst_scheme, nat option) kern" where
  "namei path = Do (namex path False) (\<lambda>r. return (map_option fst r))"

definition nameiparent :: "byte list \<Rightarrow> ('z fsst_scheme, (nat \<times> byte list) option) kern" where
  "nameiparent path = namex path True"

end
