(* ===== verification/Pagetable.thy ===== *)
theory Pagetable
  imports Vm
begin

text \<open>
  What the page tables mean. \<open>node\<close> reads the table page on the path of an address at a given
  depth, \<open>leaf\<close> the entry that translates it. \<open>pt_wf\<close> says that the tables form a tree: a page is
  reached at one depth and by one prefix of the address only. Under that invariant a store into one
  entry changes exactly the translations that go through it, which is what makes \<open>walk\<close>,
  \<open>mappages\<close> and the copy routines correct.
\<close>

section \<open>Entries\<close>

definition pg_al :: "uint64 \<Rightarrow> bool" where
  "pg_al t \<longleftrightarrow> unat t mod PGSIZE = 0"

lemma page_ok_al: "page_ok e p \<Longrightarrow> pg_al p"
  by (simp add: page_ok_def pg_al_def)

lemma al_apart: "pg_al a \<Longrightarrow> pg_al c \<Longrightarrow> in_range a PGSIZE b \<Longrightarrow> in_range c PGSIZE b \<Longrightarrow> a = c"
  unfolding pg_al_def by (rule pages_apart)

lemma al_multiple: "pg_al t \<Longrightarrow> \<exists>k. unat t = PGSIZE * k"
  by (simp only: pg_al_def page_multiple)

lemma unat_PX: "unat (PX l va) < 512"
proof -
  have "PX l va = take_bit 9 (drop_bit (PXSHIFT l) va)"
    by (simp add: PX_def take_bit_eq_mask mask_eq_exp_minus_1)
  then have "unat (PX l va) = take_bit 9 (unat (drop_bit (PXSHIFT l) va))"
    by (simp only: unsigned_take_bit_eq)
  then have "unat (PX l va) < 2 ^ 9" by (simp only: take_bit_nat_less_exp)
  then show ?thesis by simp
qed

lemma unat_pte_offset: "unat (8 * PX l va) = 8 * unat (PX l va)"
  using unat_PX [of l va] by (simp add: unat_word_ariths)

lemma unat_page_less: "pg_al t \<Longrightarrow> unat t + PGSIZE \<le> 2 ^ 64"
proof -
  assume "pg_al t"
  then obtain k where k: "unat t = PGSIZE * k" using al_multiple by blast
  have "PGSIZE * k < PGSIZE * 2 ^ 52" using unat64_less [of t] k by (simp add: PGSIZE_def)
  then have "k + 1 \<le> 2 ^ 52" by simp
  then have "PGSIZE * (k + 1) \<le> PGSIZE * 2 ^ 52" by (rule mult_le_mono2)
  with k show ?thesis by (simp add: PGSIZE_def)
qed

lemma unat_pte_addr:
  "pg_al t \<Longrightarrow> unat (pte_addr t l va) = unat t + 8 * unat (PX l va)"
  using unat_page_less [of t] unat_PX [of l va]
  by (simp add: pte_addr_def unat_word_ariths unat_pte_offset PGSIZE_def)

lemma pte_addr_aligned: "pg_al t \<Longrightarrow> unat (pte_addr t l va) mod 8 = 0"
proof -
  assume a: "pg_al t"
  then obtain k where "unat t = PGSIZE * k" using al_multiple by blast
  then have "unat (pte_addr t l va) = 8 * (512 * k + unat (PX l va))"
    using unat_pte_addr [OF a, of l va] by (simp add: PGSIZE_def)
  then show ?thesis by simp
qed

lemma pte_addr_in_page:
  assumes "pg_al t" and "in_range (pte_addr t l va) 8 b"
  shows "in_range t PGSIZE b"
proof -
  have e: "b - t = b - pte_addr t l va + 8 * PX l va" by (simp add: pte_addr_def)
  have "unat (b - pte_addr t l va + 8 * PX l va) =
      unat (b - pte_addr t l va) + unat (8 * PX l va)"
    using assms(2) unat_PX [of l va]
    by (intro unat_add_small) (simp add: in_range_def unat_pte_offset)
  then have "unat (b - t) = unat (b - pte_addr t l va) + 8 * unat (PX l va)"
    by (simp only: e unat_pte_offset)
  then show ?thesis
    using assms(2) unat_PX [of l va] by (simp add: in_range_def PGSIZE_def)
qed

lemma pte_addr_inj:
  assumes "pg_al t" and "pg_al t'" and "pte_addr t l va = pte_addr t' l' va'"
  shows "t = t'" "PX l va = PX l' va'"
proof -
  have "in_range (pte_addr t l va) 8 (pte_addr t l va)" by (simp add: in_range_def)
  then have "in_range t PGSIZE (pte_addr t l va)" "in_range t' PGSIZE (pte_addr t l va)"
    using assms pte_addr_in_page by metis+
  then show "t = t'" by (rule al_apart [OF assms(1,2)])
  with assms(3) have "8 * PX l va = 8 * PX l' va'" by (simp add: pte_addr_def)
  then have "8 * unat (PX l va) = 8 * unat (PX l' va')" using unat_pte_offset by metis
  then show "PX l va = PX l' va'" by (simp add: word_unat_eq_iff)
qed

lemma rd64_wr64_other:
  assumes "unat a mod 8 = 0" and "unat c mod 8 = 0" and "a \<noteq> c"
  shows "rd64 (wr64 a v m) c = rd64 m c"
proof (rule rd64_cong)
  fix b assume "in_range c 8 b"
  then have "\<not> in_range a 8 b"
    using assms aligned_in_range [of a 8 c b] by (auto simp: dvd_def)
  then show "wr64 a v m b = m b" by (simp add: wr64_def)
qed

lemma rd_pte_write:
  assumes "pg_al t" and "pg_al t'"
  shows "rd64 (wr64 (pte_addr t l va) v m) (pte_addr t' l' va') =
    (if t = t' \<and> PX l va = PX l' va' then v else rd64 m (pte_addr t' l' va'))"
proof (cases "pte_addr t l va = pte_addr t' l' va'")
  case True
  then show ?thesis using pte_addr_inj [OF assms True] by simp
next
  case False
  then have "\<not> (t = t' \<and> PX l va = PX l' va')" by (auto simp: pte_addr_def)
  with False assms show ?thesis by (auto simp: rd64_wr64_other pte_addr_aligned)
qed

lemma rd64_zero_page:
  assumes "pg_al t" and "\<And>b. in_range t PGSIZE b \<Longrightarrow> m b = 0"
  shows "rd64 m (pte_addr t l va) = 0"
proof -
  have "rd64 m (pte_addr t l va) = rd64 (\<lambda>_. 0) (pte_addr t l va)"
    using assms by (intro rd64_cong) (blast dest: pte_addr_in_page)
  also have "\<dots> = 0" unfolding rd64_def by (rule bit_word_eqI) (simp add: bit_of_le)
  finally show ?thesis .
qed

lemma rd64_other_page:
  assumes "pg_al p" and "pg_al t" and "p \<noteq> t"
    and "\<And>b. \<not> in_range p PGSIZE b \<Longrightarrow> m' b = m b"
  shows "rd64 m' (pte_addr t l va) = rd64 m (pte_addr t l va)"
proof (rule rd64_cong)
  fix b assume "in_range (pte_addr t l va) 8 b"
  then have "in_range t PGSIZE b" using assms(2) by (rule pte_addr_in_page [rotated])
  then show "m' b = m b" using assms al_apart by blast
qed

lemma bit_above:
  assumes "k \<le> n" and "w < 2 ^ k"
  shows "\<not> bit (w :: uint64) n"
proof
  assume b: "bit w n"
  then have n: "n < 64" using bit_imp_le_length [of w n] by simp
  have "(2 :: nat) ^ k < 2 ^ 64" using assms(1) n by (intro power_strict_increasing) simp_all
  then have "unat ((2 :: uint64) ^ k) = 2 ^ k"
    using unat_of_nat64 [of "2 ^ k"] by simp
  then have "unat w < 2 ^ k" using assms(2) by (simp add: word_less_nat_alt)
  then have "take_bit k (unat w) = unat w" by (simp add: take_bit_nat_eq_self)
  then have "unat (take_bit k w) = unat w" by (simp only: unsigned_take_bit_eq)
  then have "take_bit k w = w" by (simp only: word_unat_eq_iff)
  with b assms(1) bit_take_bit_iff [of k w n] show False by simp
qed

lemma PTE2PA_PA2PTE:
  assumes "pg_al p" and "p < 2 ^ 56" and "f < 2 ^ 10"
  shows "PTE2PA (PA2PTE p OR f) = p"
proof (rule bit_word_eqI)
  fix n assume n: "n < LENGTH(64)"
  have "unat (take_bit 12 p) = 0"
    using assms(1) by (simp add: unsigned_take_bit_eq pg_al_def PGSIZE_def) (simp add: take_bit_eq_mod)
  then have "take_bit 12 p = 0" by (simp add: unat_eq_zero)
  then have lo: "\<not> bit p n" if "n < 12"
    using that bit_take_bit_iff [of 12 p n] by simp
  have hi: "\<not> bit p n" if "56 \<le> n" using that assms(2) by (rule bit_above)
  have fl: "\<not> bit f k" if "10 \<le> k" for k using that assms(3) by (rule bit_above)
  show "bit (PTE2PA (PA2PTE p OR f)) n \<longleftrightarrow> bit p n"
  proof (cases "12 \<le> n \<and> n < 56")
    case True
    then have "\<not> bit f (n - 2)" by (intro fl) linarith
    with True n show ?thesis
      by (auto simp: PTE2PA_def PA2PTE_def bit_simps)
  next
    case False
    with n lo hi fl [of "10 + (n - 12)"] show ?thesis
      by (auto simp: PTE2PA_def PA2PTE_def bit_simps not_le not_less)
  qed
qed

section \<open>The translation tree\<close>

definition valid :: "uint64 \<Rightarrow> bool" where
  "valid e \<longleftrightarrow> e AND PTE_V \<noteq> 0"

primrec node :: "mem \<Rightarrow> uint64 \<Rightarrow> uint64 \<Rightarrow> nat \<Rightarrow> uint64 option" where
  "node m root va 0 = Some root"
| "node m root va (Suc d) =
     (case node m root va d of None \<Rightarrow> None
      | Some t \<Rightarrow> let e = rd64 m (pte_addr t (2 - d) va) in if valid e then Some (PTE2PA e) else None)"

text \<open>The entry that translates \<open>va\<close>; 0, which is invalid, when a table is missing.\<close>

definition leaf :: "mem \<Rightarrow> uint64 \<Rightarrow> uint64 \<Rightarrow> uint64" where
  "leaf m root va = (case node m root va 2 of None \<Rightarrow> 0 | Some t \<Rightarrow> rd64 m (pte_addr t 0 va))"

text \<open>Two addresses agree on the indices used above depth \<open>d\<close>.\<close>

definition same_to :: "nat \<Rightarrow> uint64 \<Rightarrow> uint64 \<Rightarrow> bool" where
  "same_to d va va' \<longleftrightarrow> (\<forall>i<d. PX (2 - i) va = PX (2 - i) va')"

definition pt_wf :: "mem \<Rightarrow> uint64 \<Rightarrow> bool" where
  "pt_wf m root \<longleftrightarrow>
     (\<forall>va d t. d \<le> 2 \<longrightarrow> node m root va d = Some t \<longrightarrow> pg_al t \<and> t \<noteq> 0) \<and>
     (\<forall>va va' d d' t. d \<le> 2 \<longrightarrow> d' \<le> 2 \<longrightarrow> node m root va d = Some t \<longrightarrow> node m root va' d' = Some t \<longrightarrow>
        d = d' \<and> same_to d va va')"

definition tables :: "mem \<Rightarrow> uint64 \<Rightarrow> uint64 set" where
  "tables m root = {t. \<exists>va d. d \<le> 2 \<and> node m root va d = Some t}"

lemma same_to_refl [simp]: "same_to d va va"
  by (simp add: same_to_def)

lemma same_to_0 [simp]: "same_to 0 va va'"
  by (simp add: same_to_def)

lemma same_to_Suc: "same_to (Suc d) va va' \<longleftrightarrow> same_to d va va' \<and> PX (2 - d) va = PX (2 - d) va'"
  by (auto simp: same_to_def less_Suc_eq)

lemma node_same: "same_to d va va' \<Longrightarrow> node m root va d = node m root va' d"
  by (induction d) (auto simp: same_to_Suc pte_addr_def split: option.split)

lemma pt_wf_al: "pt_wf m root \<Longrightarrow> d \<le> 2 \<Longrightarrow> node m root va d = Some t \<Longrightarrow> pg_al t"
  by (auto simp: pt_wf_def)

lemma pt_wf_inj:
  "pt_wf m root \<Longrightarrow> d \<le> 2 \<Longrightarrow> d' \<le> 2 \<Longrightarrow> node m root va d = Some t \<Longrightarrow> node m root va' d' = Some t \<Longrightarrow>
   d = d' \<and> same_to d va va'"
  unfolding pt_wf_def by blast

lemma pte_addr_nonzero: "pg_al t \<Longrightarrow> t \<noteq> 0 \<Longrightarrow> pte_addr t l va \<noteq> 0"
  by (metis add_is_0 unat_eq_zero unat_pte_addr)

lemma leaf_nonzero: "valid (leaf m root va) \<Longrightarrow> \<exists>t. node m root va 2 = Some t"
  by (auto simp: leaf_def valid_def split: option.splits)

text \<open>The tables above a store are not affected by it.\<close>

lemma node_above_store:
  assumes "pt_wf m root" and "node m root va d = Some t" and "d \<le> 2" and "d' \<le> d"
  shows "node (wr64 (pte_addr t (2 - d) va) v m) root va' d' = node m root va' d'"
  using assms(4)
proof (induction d')
  case 0
  then show ?case by simp
next
  case (Suc k)
  have "t \<noteq> t'" if "node m root va' k = Some t'" for t'
    using pt_wf_inj [OF assms(1) assms(3), of k va t va'] assms(2,3) Suc.prems that by auto
  moreover have "pg_al t" using assms by (blast intro: pt_wf_al)
  moreover have "pg_al t'" if "node m root va' k = Some t'" for t'
    using pt_wf_al [OF assms(1) _ that] assms(3) Suc.prems by simp
  ultimately show ?case
    using Suc by (auto simp: rd_pte_write split: option.splits)
qed

text \<open>A store into a leaf entry changes the translation of that page and of no other.\<close>

lemma leaf_store:
  assumes "pt_wf m root" and "node m root va 2 = Some t"
  shows "leaf (wr64 (pte_addr t 0 va) v m) root va' = (if same_to 3 va va' then v else leaf m root va')"
    "d \<le> 2 \<Longrightarrow> node (wr64 (pte_addr t 0 va) v m) root va' d = node m root va' d"
proof -
  let ?m = "wr64 (pte_addr t 0 va) v m"
  have nodes: "node ?m root va' d = node m root va' d" if "d \<le> 2" for d va'
    using node_above_store [OF assms, of d v va'] that by simp
  then show "d \<le> 2 \<Longrightarrow> node ?m root va' d = node m root va' d" .
  have s3: "same_to 3 va va' \<longleftrightarrow> same_to 2 va va' \<and> PX 0 va = PX 0 va'"
    using same_to_Suc [of 2 va va'] by (simp add: numeral_eq_Suc)
  have al: "pg_al t" using assms by (blast intro: pt_wf_al)
  show "leaf ?m root va' = (if same_to 3 va va' then v else leaf m root va')"
  proof (cases "node m root va' 2")
    case None
    then have "\<not> same_to 2 va va'" using node_same [of 2 va va' m root] assms(2) by auto
    with None nodes [of 2 va'] show ?thesis by (simp add: leaf_def s3)
  next
    case (Some t')
    have al': "pg_al t'" using pt_wf_al [OF assms(1) _ Some] by simp
    have "t = t' \<longleftrightarrow> same_to 2 va va'"
      using pt_wf_inj [OF assms(1), of 2 2 va t va'] node_same [of 2 va va' m root] assms(2) Some by auto
    with Some nodes [of 2 va'] al al' show ?thesis
      by (auto simp: leaf_def s3 rd_pte_write)
  qed
qed

lemma pt_wf_cong:
  "(\<And>va d. d \<le> 2 \<Longrightarrow> node m' root va d = node m root va d) \<Longrightarrow> pt_wf m' root = pt_wf m root"
  by (simp add: pt_wf_def)

lemma tables_cong:
  "(\<And>va d. d \<le> 2 \<Longrightarrow> node m' root va d = node m root va d) \<Longrightarrow> tables m' root = tables m root"
  unfolding tables_def by (metis (no_types, lifting))

lemma pt_frame:
  assumes "pt_wf m root" and "\<And>b t. t \<in> tables m root \<Longrightarrow> in_range t PGSIZE b \<Longrightarrow> m' b = m b"
  shows "d \<le> 2 \<Longrightarrow> node m' root va d = node m root va d" "leaf m' root va = leaf m root va"
proof -
  have rd: "rd64 m' (pte_addr t l va) = rd64 m (pte_addr t l va)" if "node m root va d = Some t" "d \<le> 2" for t d l
  proof (rule rd64_cong)
    fix b assume "in_range (pte_addr t l va) 8 b"
    then have "in_range t PGSIZE b"
      using pte_addr_in_page pt_wf_al [OF assms(1) that(2,1)] by blast
    then show "m' b = m b" using assms(2) that by (auto simp: tables_def)
  qed
  show n: "node m' root va d = node m root va d" if "d \<le> 2" for d
    using that rd by (induction d) (auto split: option.splits)
  show "leaf m' root va = leaf m root va"
    using n [of 2] rd [of 2] by (auto simp: leaf_def split: option.splits)
qed

text \<open>Hanging a zeroed page under an invalid entry: the tree gains one table and no translation
  changes.\<close>

definition hung ::
  "mem \<Rightarrow> uint64 \<Rightarrow> uint64 \<Rightarrow> nat \<Rightarrow> uint64 \<Rightarrow> uint64 \<Rightarrow> mem \<Rightarrow> mem \<Rightarrow> bool" where
  "hung m root va d t p m1 m' \<longleftrightarrow>
     pt_wf m root \<and> node m root va d = Some t \<and> d < 2 \<and>
     \<not> valid (rd64 m (pte_addr t (2 - d) va)) \<and>
     pg_al p \<and> p \<noteq> 0 \<and> p < 2 ^ 56 \<and> p \<notin> tables m root \<and>
     m1 = memset m p 0 PGSIZE \<and>
     m' = wr64 (pte_addr t (2 - d) va) (PA2PTE p OR PTE_V) m1"

lemma hungD:
  assumes "hung m root va d t p m1 m'"
  shows "pt_wf m root" "node m root va d = Some t" "d < 2" "\<not> valid (rd64 m (pte_addr t (2 - d) va))"
    "pg_al p" "p \<noteq> 0" "p < 2 ^ 56" "p \<notin> tables m root" "m1 = memset m p 0 PGSIZE"
    "m' = wr64 (pte_addr t (2 - d) va) (PA2PTE p OR PTE_V) m1" "pg_al t"
  using assms pt_wf_al [of m root d va t] unfolding hung_def by (blast, blast, blast, blast, blast, blast,
    blast, blast, blast, blast, simp)

lemma hung_m1:
  assumes nt: "hung m root va d t p m1 m'"
  shows "k \<le> 2 \<Longrightarrow> node m1 root va' k = node m root va' k" "pt_wf m1 root"
proof -
  have "m1 b = m b" if "x \<in> tables m root" "in_range x PGSIZE b" for x b
  proof -
    have "pg_al x" using that(1) hungD(1) [OF nt] by (auto simp: tables_def intro: pt_wf_al)
    with that hungD(5,8) [OF nt] have "\<not> in_range p PGSIZE b" using al_apart by blast
    then show ?thesis by (simp add: hungD(9) [OF nt])
  qed
  then show *: "k \<le> 2 \<Longrightarrow> node m1 root va' k = node m root va' k" for k va'
    by (rule pt_frame(1) [OF hungD(1) [OF nt]])
  show "pt_wf m1 root"
    using hungD(1) [OF nt] pt_wf_cong [OF *] by simp
qed

lemma valid_or: "valid (x OR PTE_V)"
proof -
  have "bit (x OR PTE_V) 0" by (simp add: bit_simps PTE_V_def)
  then show ?thesis by (auto simp: valid_def PTE_V_def and_one_eq odd_iff_mod_2_eq_one bit_0)
qed

lemma node_is_table: "k \<le> 2 \<Longrightarrow> node m root va' k = Some t' \<Longrightarrow> t' \<in> tables m root"
  by (auto simp: tables_def)

lemma hung_rd_other:
  assumes nt: "hung m root va d t p m1 m'"
    and "k \<le> 2" and "node m root va' k = Some t'" and "t' \<noteq> t \<or> PX l va' \<noteq> PX (2 - d) va"
  shows "rd64 m' (pte_addr t' l va') = rd64 m (pte_addr t' l va')"
proof -
  have al: "pg_al t'" using assms hungD(1) [OF nt] by (blast intro: pt_wf_al)
  have "rd64 m' (pte_addr t' l va') = rd64 m1 (pte_addr t' l va')"
    using assms(4) al hungD(11) [OF nt] by (auto simp: hungD(10) [OF nt] rd_pte_write)
  also have "\<dots> = rd64 m (pte_addr t' l va')"
  proof (rule rd64_other_page [OF hungD(5) [OF nt] al])
    show "p \<noteq> t'" using node_is_table [OF assms(2,3)] hungD(8) [OF nt] by blast
  qed (simp add: hungD(9) [OF nt])
  finally show ?thesis .
qed

lemma hung_node_below:
  assumes nt: "hung m root va d t p m1 m'" and "same_to (Suc d) va va'"
  shows "node m root va' (Suc d) = None"
  using hungD(2,4) [OF nt] node_same [OF assms(2), of m root] by simp

lemma hung_rd_p:
  assumes nt: "hung m root va d t p m1 m'"
  shows "rd64 m' (pte_addr p l va') = 0"
proof -
  have "t \<noteq> p" using node_is_table [OF _ hungD(2) [OF nt]] hungD(3,8) [OF nt] by auto
  then have "rd64 m' (pte_addr p l va') = rd64 m1 (pte_addr p l va')"
    using hungD(5,11) [OF nt] by (simp add: hungD(10) [OF nt] rd_pte_write)
  also have "\<dots> = 0"
    using hungD(5) [OF nt] by (rule rd64_zero_page) (simp add: hungD(9) [OF nt])
  finally show ?thesis .
qed

lemma hung_node_low:
  assumes nt: "hung m root va d t p m1 m'" and "k \<le> d"
  shows "node m' root va' k = node m root va' k"
proof -
  have "node m1 root va d = Some t" using hung_m1(1) [OF nt, of d va] hungD(2,3) [OF nt] by simp
  then have "node m' root va' k = node m1 root va' k"
    using node_above_store [OF hung_m1(2) [OF nt], of va d t k] assms(2) hungD(3) [OF nt]
    by (simp add: hungD(10) [OF nt])
  then show ?thesis using hung_m1(1) [OF nt, of k va'] assms(2) hungD(3) [OF nt] by simp
qed

lemma hung_node_next:
  assumes nt: "hung m root va d t p m1 m'"
  shows "node m' root va' (Suc d) = (if same_to (Suc d) va va' then Some p else node m root va' (Suc d))"
proof (cases "node m root va' d")
  case None
  then have "\<not> same_to d va va'" using node_same [of d va va' m root] hungD(2) [OF nt] by auto
  with None hung_node_low [OF nt, of d va'] show ?thesis by (simp add: same_to_Suc)
next
  case (Some t')
  have eq: "t' = t \<longleftrightarrow> same_to d va va'"
    using pt_wf_inj [OF hungD(1) [OF nt], of d d va t va'] node_same [of d va va' m root]
      hungD(2,3) [OF nt] Some by auto
  show ?thesis
  proof (cases "same_to (Suc d) va va'")
    case True
    then have "t' = t" "PX (2 - d) va = PX (2 - d) va'" using eq by (auto simp: same_to_Suc)
    then have "rd64 m' (pte_addr t' (2 - d) va') = PA2PTE p OR PTE_V"
      using hungD(11) [OF nt] by (simp add: hungD(10) [OF nt] rd_pte_write)
    moreover have "PTE2PA (PA2PTE p OR PTE_V) = p"
      using hungD(5-7) [OF nt] by (intro PTE2PA_PA2PTE) (simp_all add: PTE_V_def)
    ultimately show ?thesis using Some hung_node_low [OF nt, of d va'] True valid_or by simp
  next
    case False
    then have "t' \<noteq> t \<or> PX (2 - d) va' \<noteq> PX (2 - d) va" using eq by (auto simp: same_to_Suc)
    then have "rd64 m' (pte_addr t' (2 - d) va') = rd64 m (pte_addr t' (2 - d) va')"
      using hung_rd_other [OF nt _ Some] hungD(3) [OF nt] by simp
    with Some hung_node_low [OF nt, of d va'] False show ?thesis by simp
  qed
qed

lemma hung_not_t:
  assumes nt: "hung m root va d t p m1 m'" and "d < k" and "k \<le> 2" and "node m root va' k = Some t'"
  shows "t' \<noteq> t"
  using pt_wf_inj [OF hungD(1) [OF nt], of k d va' t va] hungD(2,3) [OF nt] assms(2-4) by auto

lemma node_2: "node m root va 2 = (case node m root va 1 of None \<Rightarrow> None
    | Some t \<Rightarrow> let e = rd64 m (pte_addr t 1 va) in if valid e then Some (PTE2PA e) else None)"
proof -
  have "node m root va 2 = node m root va (Suc 1)" by (simp only: Suc_1)
  also have "\<dots> = (case node m root va 1 of None \<Rightarrow> None
    | Some t \<Rightarrow> let e = rd64 m (pte_addr t (2 - 1) va) in if valid e then Some (PTE2PA e) else None)"
    by (rule node.simps(2))
  finally show ?thesis by (simp only: diff_Suc_1 Suc_1 [symmetric])
qed

lemma hung_node_last:
  assumes nt: "hung m root va 0 t p m1 m'"
  shows "node m' root va' 2 = node m root va' 2"
proof (cases "same_to 1 va va'")
  case True
  then have "node m' root va' 1 = Some p" "node m root va' 1 = None"
    using hung_node_next [OF nt, of va'] hung_node_below [OF nt, of va'] by simp_all
  then show ?thesis by (simp only: node_2) (simp add: hung_rd_p [OF nt] valid_def)
next
  case False
  then have "node m' root va' 1 = node m root va' 1" using hung_node_next [OF nt, of va'] by simp
  moreover have "rd64 m' (pte_addr t' 1 va') = rd64 m (pte_addr t' 1 va')"
    if "node m root va' 1 = Some t'" for t'
    using hung_rd_other [OF nt _ that, of 1] hung_not_t [OF nt _ _ that] by simp
  ultimately show ?thesis by (simp only: node_2) (auto split: option.split)
qed

lemma hung_node:
  assumes nt: "hung m root va d t p m1 m'" and "k \<le> 2"
  shows "node m' root va' k = (if k = Suc d \<and> same_to (Suc d) va va' then Some p else node m root va' k)"
proof -
  consider "k \<le> d" | "k = Suc d" | "d = 0" "k = 2" using assms(2) hungD(3) [OF nt] by linarith
  then show ?thesis
  proof cases
    case 1
    then show ?thesis using hung_node_low [OF nt] by simp
  next
    case 2
    then show ?thesis using hung_node_next [OF nt] by simp
  next
    case 3
    then show ?thesis using hung_node_last [of m root va t p m1 m' va'] nt by simp
  qed
qed

lemma hung_leaf:
  assumes nt: "hung m root va d t p m1 m'"
  shows "leaf m' root va' = leaf m root va'"
proof (cases "d = 1 \<and> same_to 2 va va'")
  case True
  then have "node m root va' 2 = None" "node m' root va' 2 = Some p"
    using hung_node_below [OF nt, of va'] hung_node [OF nt, of 2 va'] by (simp_all add: numeral_eq_Suc)
  then show ?thesis by (simp add: leaf_def hung_rd_p [OF nt])
next
  case False
  then have n: "node m' root va' 2 = node m root va' 2"
    using hung_node [OF nt, of 2 va'] by (auto simp: numeral_eq_Suc)
  have "rd64 m' (pte_addr t' 0 va') = rd64 m (pte_addr t' 0 va')" if "node m root va' 2 = Some t'" for t'
    using hung_rd_other [OF nt _ that, of 0] hung_not_t [OF nt _ _ that] hungD(3) [OF nt] by simp
  with n show ?thesis by (auto simp: leaf_def split: option.split)
qed

lemma hung_tables:
  assumes nt: "hung m root va d t p m1 m'"
  shows "tables m' root = insert p (tables m root)"
proof (intro equalityI subsetI)
  fix x assume "x \<in> tables m' root"
  then obtain va' k where "k \<le> 2" "node m' root va' k = Some x" by (auto simp: tables_def)
  then show "x \<in> insert p (tables m root)"
    using hung_node [OF nt, of k va'] node_is_table by (metis insert_iff option.inject)
next
  fix x assume "x \<in> insert p (tables m root)"
  then consider "x = p" | "x \<in> tables m root" by blast
  then show "x \<in> tables m' root"
  proof cases
    case 1
    have "node m' root va (Suc d) = Some p" using hung_node_next [OF nt, of va] by simp
    then show ?thesis using node_is_table 1 hungD(3) [OF nt] by (metis Suc_leI)
  next
    case 2
    then obtain va' k where k: "k \<le> 2" "node m root va' k = Some x" by (auto simp: tables_def)
    then have "\<not> (k = Suc d \<and> same_to (Suc d) va va')" using hung_node_below [OF nt] by auto
    then have "node m' root va' k = Some x" using hung_node [OF nt k(1), of va'] k(2) by auto
    with k(1) show ?thesis by (rule node_is_table)
  qed
qed

lemma hung_wf:
  assumes nt: "hung m root va d t p m1 m'"
  shows "pt_wf m' root"
  unfolding pt_wf_def
proof (intro conjI allI impI)
  fix va1 k x assume k: "k \<le> 2" "node m' root va1 k = Some x"
  then show "pg_al x" "x \<noteq> 0"
    using hung_node [OF nt k(1), of va1] hungD(1,5,6) [OF nt] by (auto simp: pt_wf_def split: if_splits)
next
  fix va1 va2 k k' x
  assume k: "k \<le> 2" "k' \<le> 2" "node m' root va1 k = Some x" "node m' root va2 k' = Some x"
  have at_p: "j = Suc d \<and> same_to (Suc d) va a" if "j \<le> 2" "node m' root a j = Some p" for j a
    using hung_node [OF nt that(1), of a] that hungD(8) [OF nt] node_is_table
    by (metis (full_types))
  have at_x: "node m root a j = Some x" if "j \<le> 2" "node m' root a j = Some x" "x \<noteq> p" for j a
    using hung_node [OF nt that(1), of a] that by (auto split: if_splits)
  have "k = k' \<and> same_to k va1 va2"
  proof (cases "x = p")
    case True
    then show ?thesis
      using at_p [OF k(1), of va1] at_p [OF k(2), of va2] k(3,4) by (auto simp: same_to_def)
  next
    case False
    then show ?thesis
      using pt_wf_inj [OF hungD(1) [OF nt] k(1,2) at_x [OF k(1,3)] at_x [OF k(2,4)]] by auto
  qed
  then show "k = k'" "same_to k va1 va2" by blast+
qed

section \<open>walk\<close>

definition vm_inv :: "'z kmem_scheme \<Rightarrow> uint64 \<Rightarrow> uint64 set \<Rightarrow> bool" where
  "vm_inv s root F \<longleftrightarrow> kmem_ready s \<and> (\<exists>xs. free_pages s xs \<and> set xs = F) \<and> pt_wf (mem s) root \<and>
     tables (mem s) root \<inter> F = {} \<and> (\<forall>t\<in>tables (mem s) root. page_ok (kend s) t)"

text \<open>\<open>u\<close> comes from \<open>s\<close> by turning free pages into tables: no translation changes, no page is lost,
  and pages that are neither tables nor free keep their contents.\<close>

definition kept :: "uint64 \<Rightarrow> 'z kmem_scheme \<Rightarrow> uint64 set \<Rightarrow> 'z kmem_scheme \<Rightarrow> uint64 set \<Rightarrow> bool" where
  "kept root s F u F' \<longleftrightarrow> vm_inv u root F' \<and> F' \<subseteq> F \<and> (\<exists>m l. u = s\<lparr>mem := m, freelist := l\<rparr>) \<and>
     tables (mem u) root \<union> F' = tables (mem s) root \<union> F \<and>
     (\<forall>b. (\<forall>q\<in>tables (mem s) root \<union> F. \<not> in_range q PGSIZE b) \<longrightarrow> mem u b = mem s b)"

definition grown :: "uint64 \<Rightarrow> 'z kmem_scheme \<Rightarrow> uint64 set \<Rightarrow> 'z kmem_scheme \<Rightarrow> uint64 set \<Rightarrow> bool" where
  "grown root s F u F' \<longleftrightarrow> kept root s F u F' \<and> leaf (mem u) root = leaf (mem s) root"

lemma grown_refl: "vm_inv s root F \<Longrightarrow> grown root s F s F"
  by (auto simp: grown_def kept_def intro!: exI [of _ "mem s"] exI [of _ "freelist s"])

lemma kept_trans: "kept root s F u G \<Longrightarrow> kept root u G v H \<Longrightarrow> kept root s F v H"
  unfolding kept_def by (elim conjE exE, intro conjI) auto

lemma grown_trans: "grown root s F u G \<Longrightarrow> grown root u G v H \<Longrightarrow> grown root s F v H"
  by (auto simp: grown_def intro: kept_trans)

lemma page_ok_bound: "page_ok e p \<Longrightarrow> p < 2 ^ 56"
proof -
  assume "page_ok e p"
  then have "p < PHYSTOP" by (simp add: page_ok_def)
  also have "PHYSTOP \<le> 2 ^ 56" by (simp add: PHYSTOP_def KERNBASE_def)
  finally show ?thesis .
qed

lemma vm_inv_alloc:
  assumes "vm_inv s root F" and "F \<noteq> {}"
  shows "\<exists>p u. kalloc s = Done p u \<and> p \<in> F \<and> page_ok (kend s) p \<and> p \<noteq> 0 \<and> vm_inv u root (F - {p}) \<and>
    (\<exists>m l. u = s\<lparr>mem := m, freelist := l\<rparr>) \<and>
    (\<forall>b. mem u b = (if in_range p PGSIZE b then 5 else mem s b))"
proof -
  obtain p xs where xs: "kmem_ready s" "free_pages s (p # xs)" "F = insert p (set xs)"
    using assms unfolding vm_inv_def by (metis list.exhaust list.simps(15) list.set(1))
  obtain u m l where u: "kalloc s = Done p u" "kmem_ready u" "free_pages u xs" "page_ok (kend s) p" "p \<noteq> 0"
    "p \<notin> set xs" "u = s\<lparr>mem := m, freelist := l\<rparr>" "\<forall>b. mem u b = (if in_range p PGSIZE b then 5 else mem s b)"
    using kalloc_free_pages [OF xs(1,2)] by blast
  have wf: "pt_wf (mem s) root" using assms(1) by (simp add: vm_inv_def)
  have "mem u b = mem s b" if "t \<in> tables (mem s) root" "in_range t PGSIZE b" for b t
  proof -
    have "t \<noteq> p" "pg_al t" "pg_al p"
      using that(1) assms(1) xs(3) u(4) by (auto simp: vm_inv_def intro: page_ok_al)
    with that(2) al_apart have "\<not> in_range p PGSIZE b" by blast
    with u(8) show ?thesis by simp
  qed
  note n = pt_frame(1) [OF wf this]
  have "pt_wf (mem u) root" "tables (mem u) root = tables (mem s) root"
    using wf pt_wf_cong [of "mem u" root "mem s"] tables_cong [of "mem u" root "mem s"] n by auto
  with assms(1) u xs(3) have "vm_inv u root (F - {p})" by (auto simp: vm_inv_def)
  with u xs(3) show ?thesis by (intro exI [of _ p] exI [of _ u]) auto
qed

lemma vm_inv_no_mem: "vm_inv s root {} \<Longrightarrow> kalloc s = Done 0 s"
  by (auto simp: vm_inv_def intro: kalloc_empty)

text \<open>One level of \<open>walk\<close> that finds no table: it hangs a fresh one.\<close>

lemma hang_table:
  assumes "vm_inv s root F" and "node (mem s) root va d = Some t" and "d < 2"
    and "\<not> valid (rd64 (mem s) (pte_addr t (2 - d) va))" and "F \<noteq> {}"
  shows "\<exists>p u m l. kalloc s = Done p u \<and> p \<noteq> 0 \<and> u = s\<lparr>mem := m, freelist := l\<rparr> \<and>
    (let v = u\<lparr>mem := wr64 (pte_addr t (2 - d) va) (PA2PTE p OR PTE_V) (memset m p 0 PGSIZE)\<rparr> in
     grown root s F v (F - {p}) \<and> node (mem v) root va (Suc d) = Some p)"
proof -
  obtain p u m l where u: "kalloc s = Done p u" "p \<in> F" "page_ok (kend s) p" "p \<noteq> 0" "vm_inv u root (F - {p})"
    "u = s\<lparr>mem := m, freelist := l\<rparr>" "\<forall>b. mem u b = (if in_range p PGSIZE b then 5 else mem s b)"
    using vm_inv_alloc [OF assms(1,5)] by blast
  let ?m1 = "memset (mem s) p 0 PGSIZE"
  let ?v = "u\<lparr>mem := wr64 (pte_addr t (2 - d) va) (PA2PTE p OR PTE_V) (memset m p 0 PGSIZE)\<rparr>"
  have m1: "memset m p 0 PGSIZE = ?m1" using u(6,7) by (auto simp: fun_eq_iff)
  have nt: "hung (mem s) root va d t p ?m1 (mem ?v)"
    using assms u(2-4) page_ok_bound [OF u(3)] page_ok_al [OF u(3)] unfolding hung_def vm_inv_def m1
    by (auto simp del: memset_page)
  have tab: "tables (mem ?v) root = insert p (tables (mem s) root)" by (rule hung_tables [OF nt])
  have t_al: "pg_al t" and t_in: "t \<in> tables (mem s) root"
    using hungD(11) [OF nt] node_is_table [OF _ assms(2)] assms(3) by auto
  have out: "mem ?v b = mem s b" if "\<not> in_range p PGSIZE b" "\<not> in_range t PGSIZE b" for b
    using that pte_addr_in_page [OF t_al, of "2 - d" va b] u(6,7) by (auto simp: wr64_def)
  have "free_path (mem ?v) l xs" if xs: "free_path m l xs" "distinct xs" "set xs = F - {p}" for xs
  proof -
    have ok: "\<forall>x\<in>set xs. page_ok (kend s) x"
      using u(5,6) xs(3) unfolding vm_inv_def free_pages_def by auto
    have "mem ?v b = m b" if "x \<in> set xs" "in_range x 8 b" for x b
    proof -
      have "x \<noteq> p" "x \<noteq> t" "pg_al x" "pg_al p"
        using that(1) xs(3) t_in assms(1) ok u(3) by (auto simp: vm_inv_def intro: page_ok_al)
      moreover have "in_range x PGSIZE b" using that(2) by (rule in_page)
      ultimately have "\<not> in_range p PGSIZE b" "\<not> in_range t PGSIZE b"
        using al_apart t_al by blast+
      with out u(6,7) show ?thesis by simp
    qed
    then show ?thesis using xs(1) free_path_cong [of xs "mem ?v" m l] by blast
  qed
  then have "vm_inv ?v root (F - {p})"
    using u(3,5,6) assms(1) hung_wf [OF nt] unfolding vm_inv_def tab free_pages_def by auto
  moreover have "mem ?v b = mem s b" if "\<forall>q\<in>tables (mem s) root \<union> F. \<not> in_range q PGSIZE b" for b
    using that u(2) t_in by (intro out) auto
  moreover have "?v = s\<lparr>mem := mem ?v, freelist := l\<rparr>" using u(6) by simp
  moreover have "leaf (mem ?v) root = leaf (mem s) root" using hung_leaf [OF nt] by blast
  moreover have "tables (mem ?v) root \<union> (F - {p}) = tables (mem s) root \<union> F"
    unfolding tab using u(2) by blast
  ultimately have "grown root s F ?v (F - {p})"
    unfolding grown_def kept_def by (intro conjI) blast+
  moreover have "node (mem ?v) root va (Suc d) = Some p"
    using hung_node_next [OF nt, of va] by simp
  ultimately show ?thesis
    using u(1,4,6) unfolding Let_def by blast
qed

lemma node_None: "node m root va d = None \<Longrightarrow> node m root va (d + k) = None"
  by (induction k) simp_all

lemma walk_from_noalloc:
  assumes "node (mem s) root va d = Some t" and "d \<le> 2"
  shows "walk_from (2 - d) t va False s =
    Done (case node (mem s) root va 2 of None \<Rightarrow> 0 | Some t' \<Rightarrow> pte_addr t' 0 va) s"
  using assms
proof (induction "2 - d" arbitrary: d t)
  case 0
  then have "d = 2" by simp
  with 0 show ?case by (simp add: return_def)
next
  case (Suc k)
  then have d: "d < 2" and k: "2 - d = Suc k" "k = 2 - Suc d" by auto
  let ?e = "rd64 (mem s) (pte_addr t (2 - d) va)"
  have none: "node (mem s) root va 2 = None" if "\<not> valid ?e"
  proof -
    have "node (mem s) root va (Suc d) = None" using that Suc.prems(1) by simp
    moreover have "Suc d + (1 - d) = 2" using d by simp
    ultimately show ?thesis using node_None [of "mem s" root va "Suc d" "1 - d"] by (simp only:)
  qed
  show ?case
  proof (cases "valid ?e")
    case True
    then have "node (mem s) root va (Suc d) = Some (PTE2PA ?e)" using Suc.prems(1) by simp
    then have "walk_from k (PTE2PA ?e) va False s =
        Done (case node (mem s) root va 2 of None \<Rightarrow> 0 | Some t' \<Rightarrow> pte_addr t' 0 va) s"
      using Suc.hyps(1) [OF k(2)] d k(2) by simp
    with True k(1) show ?thesis by (simp add: Let_def Do_def gets_def valid_def)
  next
    case False
    with none k(1) show ?thesis by (simp add: Let_def Do_def gets_def return_def valid_def)
  qed
qed

lemma walk_below: "va < MAXVA \<Longrightarrow> walk root va a = walk_from 2 root va a"
  by (auto simp: walk_def dest: leD)

lemma walk_noalloc:
  "va < MAXVA \<Longrightarrow> walk root va False s =
    Done (case node (mem s) root va 2 of None \<Rightarrow> 0 | Some t' \<Rightarrow> pte_addr t' 0 va) s"
  using walk_from_noalloc [of s root va 0 root] by (simp add: walk_below)

lemma walk_from_alloc:
  assumes "vm_inv s root F" and "node (mem s) root va d = Some t" and "d \<le> 2"
  shows "\<exists>r u F'. walk_from (2 - d) t va True s = Done r u \<and> grown root s F u F' \<and>
    (if r = 0 then F' = {} else \<exists>t'. node (mem u) root va 2 = Some t' \<and> r = pte_addr t' 0 va)"
  using assms
proof (induction "2 - d" arbitrary: d t s F)
  case 0
  then have d: "d = 2" by simp
  have "pte_addr t 0 va \<noteq> 0"
    using 0 d by (intro pte_addr_nonzero) (auto simp: vm_inv_def pt_wf_def)
  with 0 d show ?case by (auto simp: return_def intro: grown_refl)
next
  case (Suc k)
  then have d: "d < 2" and k: "2 - d = Suc k" "k = 2 - Suc d" by auto
  let ?e = "rd64 (mem s) (pte_addr t (2 - d) va)"
  show ?case
  proof (cases "valid ?e")
    case True
    then have "node (mem s) root va (Suc d) = Some (PTE2PA ?e)" using Suc.prems(2) by simp
    then obtain r u F' where "walk_from k (PTE2PA ?e) va True s = Done r u" "grown root s F u F'"
      "if r = 0 then F' = {} else \<exists>t'. node (mem u) root va 2 = Some t' \<and> r = pte_addr t' 0 va"
      using Suc.hyps(1) [OF k(2) Suc.prems(1)] d k(2) by auto
    with True k(1) show ?thesis
      by (intro exI [of _ r] exI [of _ u] exI [of _ F']) (simp add: Let_def Do_def gets_def valid_def)
  next
    case False
    show ?thesis
    proof (cases "F = {}")
      case True
      with Suc.prems(1) False k(1) show ?thesis
        by (intro exI [of _ 0] exI [of _ s] exI [of _ F])
          (simp add: Let_def Do_def gets_def valid_def vm_inv_no_mem return_def grown_refl)
    next
      case nonempty: False
      obtain p u m l where u: "kalloc s = Done p u" "p \<noteq> 0" "u = s\<lparr>mem := m, freelist := l\<rparr>"
        and v: "let v = u\<lparr>mem := wr64 (pte_addr t (2 - d) va) (PA2PTE p OR PTE_V) (memset m p 0 PGSIZE)\<rparr> in
          grown root s F v (F - {p}) \<and> node (mem v) root va (Suc d) = Some p"
        using hang_table [OF Suc.prems(1,2) d False nonempty] by blast
      define v where "v = u\<lparr>mem := wr64 (pte_addr t (2 - d) va) (PA2PTE p OR PTE_V) (memset m p 0 PGSIZE)\<rparr>"
      have g: "grown root s F v (F - {p})" and n: "node (mem v) root va (Suc d) = Some p"
        using v by (simp_all only: v_def Let_def)
      have inv: "vm_inv v root (F - {p})" using g by (simp add: grown_def kept_def)
      obtain r w F' where w: "walk_from k p va True v = Done r w" "grown root v (F - {p}) w F'"
        "if r = 0 then F' = {} else \<exists>t'. node (mem w) root va 2 = Some t' \<and> r = pte_addr t' 0 va"
        using Suc.hyps(1) [OF k(2) inv n] d unfolding k(2) by auto
      have "walk_from (2 - d) t va True s = walk_from k p va True v"
        using False u k(1)
        by (simp add: Let_def Do_def gets_def valid_def upd_mem_def modify_def v_def del: memset_page)
      with w grown_trans [OF g w(2)] show ?thesis by auto
    qed
  qed
qed

lemma walk_alloc:
  assumes "vm_inv s root F" and "va < MAXVA"
  shows "\<exists>r u F'. walk root va True s = Done r u \<and> grown root s F u F' \<and>
    (if r = 0 then F' = {} else \<exists>t'. node (mem u) root va 2 = Some t' \<and> r = pte_addr t' 0 va)"
  using walk_from_alloc [OF assms(1), of va 0 root] assms(2) by (simp add: walk_below)

section \<open>Mapping pages\<close>

definition vpn :: "uint64 \<Rightarrow> nat" where
  "vpn va = unat va div PGSIZE"

lemma MAXVA_eq: "MAXVA = 2 ^ 38" "unat MAXVA = 2 ^ 38"
  by (simp_all add: MAXVA_def)

lemma bit_PX: "bit (PX l va) n \<longleftrightarrow> n < 9 \<and> bit va (12 + 9 * l + n)"
proof -
  have "PX l va = take_bit 9 (drop_bit (12 + 9 * l) va)"
    by (simp add: PX_def PXSHIFT_def PGSHIFT_def take_bit_eq_mask mask_eq_exp_minus_1)
  then show ?thesis by (auto simp: bit_take_bit_iff bit_drop_bit_eq dest: bit_imp_le_length)
qed

lemma same_to_vpn:
  assumes "va < MAXVA" and "va' < MAXVA"
  shows "same_to 3 va va' \<longleftrightarrow> vpn va = vpn va'"
proof -
  have v: "vpn x = unat (drop_bit 12 x)" for x
    using take_bit_nat_eq_self [of "unat x" 64] unat64_less [of x]
    by (simp add: vpn_def unsigned_drop_bit_eq PGSIZE_def) (simp add: drop_bit_eq_div)
  have s3: "same_to 3 va va' \<longleftrightarrow> PX 2 va = PX 2 va' \<and> PX 1 va = PX 1 va' \<and> PX 0 va = PX 0 va'"
    by (simp add: same_to_def numeral_eq_Suc All_less_Suc) blast
  have hi: "\<not> bit x n" if "x < MAXVA" "38 \<le> n" for x n
    using that bit_above [of 38 n x] by (simp add: MAXVA_eq)
  have "drop_bit 12 va = drop_bit 12 va'" if "PX 2 va = PX 2 va'" "PX 1 va = PX 1 va'" "PX 0 va = PX 0 va'"
  proof (rule bit_word_eqI)
    fix n :: nat
    consider "n < 9" | "9 \<le> n" "n < 18" | "18 \<le> n" "n < 27" | "27 \<le> n" by linarith
    then show "bit (drop_bit 12 va) n = bit (drop_bit 12 va') n"
    proof cases
      case 1
      then show ?thesis using bit_PX [of 0 va n] bit_PX [of 0 va' n] that(3) by (simp add: bit_drop_bit_eq)
    next
      case 2
      then have "n - 9 < 9" by linarith
      with 2 show ?thesis using bit_PX [of 1 va "n - 9"] bit_PX [of 1 va' "n - 9"] that(2)
        by (simp add: bit_drop_bit_eq)
    next
      case 3
      then have "n - 18 < 9" by linarith
      with 3 show ?thesis using bit_PX [of 2 va "n - 18"] bit_PX [of 2 va' "n - 18"] that(1)
        by (simp add: bit_drop_bit_eq)
    next
      case 4
      then show ?thesis using hi [OF assms(1), of "12 + n"] hi [OF assms(2), of "12 + n"]
        by (simp add: bit_drop_bit_eq)
    qed
  qed
  moreover have "PX l va = PX l va'" if "drop_bit 12 va = drop_bit 12 va'" for l
  proof (rule bit_word_eqI)
    fix n
    have "bit (drop_bit 12 va) (9 * l + n) = bit (drop_bit 12 va') (9 * l + n)" using that by simp
    then show "bit (PX l va) n = bit (PX l va') n" by (simp add: bit_PX bit_drop_bit_eq add.assoc)
  qed
  ultimately show ?thesis by (auto simp: s3 v word_unat_eq_iff)
qed

lemma kept_store:
  assumes "vm_inv u root F" and "node (mem u) root va 2 = Some t"
    and w_def: "w = u\<lparr>mem := wr64 (pte_addr t 0 va) v (mem u)\<rparr>"
  shows "kept root u F w F" "leaf (mem w) root va' = (if same_to 3 va va' then v else leaf (mem u) root va')"
proof -
  have wf: "pt_wf (mem u) root" using assms(1) by (simp add: vm_inv_def)
  note st = leaf_store(1) [OF wf assms(2), of v] leaf_store(2) [OF wf assms(2), where v = v]
  show "leaf (mem w) root va' = (if same_to 3 va va' then v else leaf (mem u) root va')"
    using st(1) by (simp add: w_def)
  have t: "t \<in> tables (mem u) root" "pg_al t"
    using node_is_table [OF _ assms(2)] pt_wf_al [OF wf _ assms(2)] by auto
  have out: "mem w b = mem u b" if "\<not> in_range t PGSIZE b" for b
    using that pte_addr_in_page [OF t(2), of 0 va b] by (auto simp: w_def wr64_def)
  have tab: "tables (mem w) root = tables (mem u) root" "pt_wf (mem w) root"
    using tables_cong [of "mem w" root "mem u"] pt_wf_cong [of "mem w" root "mem u"] st(2) wf by (auto simp: w_def)
  have "free_path (mem w) (freelist u) xs" if xs: "free_pages u xs" "set xs = F" for xs
  proof -
    have "mem w b = mem u b" if "x \<in> set xs" "in_range x 8 b" for x b
    proof -
      have "x \<noteq> t" "pg_al x"
        using that(1) xs t(1) assms(1) by (auto simp: vm_inv_def free_pages_def intro: page_ok_al)
      then show ?thesis using out al_apart t(2) in_page [OF that(2)] by blast
    qed
    then show ?thesis
      using xs(1) free_path_cong [of xs "mem w" "mem u" "freelist u"] by (auto simp: free_pages_def)
  qed
  then have "vm_inv w root F"
    using assms(1) tab unfolding vm_inv_def free_pages_def by (auto simp: w_def)
  then show "kept root u F w F"
    using out t(1) tab(1) unfolding kept_def by (auto simp: w_def intro!: exI [of _ "freelist u"])
qed

text \<open>The translations after mapping \<open>n\<close> pages from \<open>a\<close> to \<open>pa\<close>.\<close>

definition mapped_leaf :: "(uint64 \<Rightarrow> uint64) \<Rightarrow> uint64 \<Rightarrow> nat \<Rightarrow> uint64 \<Rightarrow> uint64 \<Rightarrow> uint64 \<Rightarrow> uint64" where
  "mapped_leaf f a n pa perm va =
     (if vpn a \<le> vpn va \<and> vpn va < vpn a + n
      then PA2PTE (pa + of_nat ((vpn va - vpn a) * PGSIZE)) OR perm OR PTE_V else f va)"

lemma vpn_next:
  assumes "unat a + PGSIZE \<le> unat (e :: uint64)"
  shows "vpn (a + of_nat PGSIZE) = Suc (vpn a)"
  using PGSIZE_pos by (simp add: vpn_def unat_next_page [OF assms] div_add_self2 del: PGSIZE_pos)

lemma mapped_leaf_step:
  assumes "unat a + PGSIZE \<le> unat (e :: uint64)"
  shows "mapped_leaf (\<lambda>va. if vpn va = vpn a then PA2PTE pa OR perm OR PTE_V else f va)
      (a + of_nat PGSIZE) n (pa + of_nat PGSIZE) perm va = mapped_leaf f a (Suc n) pa perm va"
proof -
  have "pa + of_nat PGSIZE + of_nat ((vpn va - Suc (vpn a)) * PGSIZE) = pa + of_nat ((vpn va - vpn a) * PGSIZE)"
    if "vpn a < vpn va"
  proof -
    have "vpn va - vpn a = Suc (vpn va - Suc (vpn a))" using that by simp
    then show ?thesis by (simp add: algebra_simps)
  qed
  then show ?thesis
    by (auto simp: mapped_leaf_def vpn_next [OF assms] not_less_eq add.assoc simp del: of_nat_diff of_nat_mult)
qed

text \<open>One round of the loop of \<open>mappages\<close>.\<close>

lemma mappages_round:
  assumes "vm_inv s root F" and "a < MAXVA" and "\<not> valid (leaf (mem s) root a)"
  shows "\<exists>pte u F'. walk root a True s = Done pte u \<and>
    (if pte = 0 then grown root s F u {}
     else \<not> valid (rd64 (mem u) pte) \<and>
       kept root s F (u\<lparr>mem := wr64 pte v (mem u)\<rparr>) F' \<and>
       (\<forall>va<MAXVA. leaf (wr64 pte v (mem u)) root va = (if vpn va = vpn a then v else leaf (mem s) root va)))"
proof -
  obtain pte u F' where u: "walk root a True s = Done pte u" "grown root s F u F'"
    "if pte = 0 then F' = {} else \<exists>t'. node (mem u) root a 2 = Some t' \<and> pte = pte_addr t' 0 a"
    using walk_alloc [OF assms(1,2)] by blast
  show ?thesis
  proof (cases "pte = 0")
    case True
    with u show ?thesis by (intro exI [of _ 0] exI [of _ u] exI [of _ F']) simp
  next
    case False
    then obtain t where t: "node (mem u) root a 2 = Some t" "pte = pte_addr t 0 a" using u(3) by auto
    have inv: "vm_inv u root F'" and same: "leaf (mem u) root = leaf (mem s) root"
      using u(2) by (auto simp: grown_def kept_def)
    let ?w = "u\<lparr>mem := wr64 pte v (mem u)\<rparr>"
    have k: "kept root u F' ?w F'"
      "leaf (mem ?w) root va = (if same_to 3 a va then v else leaf (mem u) root va)" for va
      using kept_store(1) [OF inv t(1), of ?w v] kept_store(2) [OF inv t(1), of ?w v va] t(2) by auto
    have "kept root s F ?w F'" using u(2) k(1) by (auto simp: grown_def intro: kept_trans)
    moreover have "rd64 (mem u) pte = leaf (mem s) root a"
      unfolding same [symmetric] using t by (simp add: leaf_def)
    moreover have "leaf (wr64 pte v (mem u)) root va = (if vpn va = vpn a then v else leaf (mem s) root va)"
      if "va < MAXVA" for va
      using k(2) [of va] same same_to_vpn [OF assms(2) that] by auto
    ultimately show ?thesis
      using False u(1) assms(3) by (intro exI [of _ pte] exI [of _ u] exI [of _ F']) simp
  qed
qed

lemma mappages_loop_spec:
  assumes "vm_inv s root F" and "unat a + Suc k * PGSIZE \<le> unat MAXVA"
    and "lst = a + of_nat (k * PGSIZE)"
    and "\<forall>va<MAXVA. vpn a \<le> vpn va \<and> vpn va < vpn a + Suc k \<longrightarrow> \<not> valid (leaf (mem s) root va)"
  shows "\<exists>r u F' j. mappages_loop (Suc k) root a lst pa perm s = Done r u \<and> kept root s F u F' \<and>
    (r = 0 \<and> j = Suc k \<or> r = - 1 \<and> j < Suc k \<and> F' = {}) \<and>
    (\<forall>va<MAXVA. leaf (mem u) root va = mapped_leaf (leaf (mem s) root) a j pa perm va)"
  using assms
proof (induction k arbitrary: s F a pa)
  case 0
  let ?v = "PA2PTE pa OR perm OR PTE_V"
  have a: "a < MAXVA" using 0(2) by (simp add: word_less_nat_alt PGSIZE_def)
  with 0 obtain pte u F' where u: "walk root a True s = Done pte u"
    "if pte = 0 then grown root s F u {}
     else \<not> valid (rd64 (mem u) pte) \<and> kept root s F (u\<lparr>mem := wr64 pte ?v (mem u)\<rparr>) F' \<and>
       (\<forall>va<MAXVA. leaf (wr64 pte ?v (mem u)) root va = (if vpn va = vpn a then ?v else leaf (mem s) root va))"
    using mappages_round [OF 0(1), of a ?v] by auto
  show ?case
  proof (cases "pte = 0")
    case True
    with u show ?thesis
      by (intro exI [of _ "- 1"] exI [of _ u] exI [of _ "{}"] exI [of _ 0])
        (auto simp: Do_def return_def grown_def mapped_leaf_def)
  next
    case False
    with u 0(3) show ?thesis
      by (intro exI [of _ 0] exI [of _ "u\<lparr>mem := wr64 pte ?v (mem u)\<rparr>"] exI [of _ F'] exI [of _ 1])
        (auto simp: Do_def gets_def return_def upd_mem_def modify_def valid_def mapped_leaf_def)
  qed
next
  case (Suc k)
  let ?v = "PA2PTE pa OR perm OR PTE_V" and ?b = "a + of_nat PGSIZE"
  have le: "unat a + PGSIZE \<le> unat MAXVA" using Suc.prems(2) by simp
  have a: "a < MAXVA" using le by (simp add: word_less_nat_alt PGSIZE_def)
  have ne: "a \<noteq> lst"
  proof -
    have "unat lst = unat a + Suc k * PGSIZE"
      unfolding Suc.prems(3) using Suc.prems(2) MAXVA_eq(2) by (intro unat_offset) simp
    then show ?thesis by (auto simp: PGSIZE_def)
  qed
  obtain pte u F' where u: "walk root a True s = Done pte u"
    "if pte = 0 then grown root s F u {}
     else \<not> valid (rd64 (mem u) pte) \<and> kept root s F (u\<lparr>mem := wr64 pte ?v (mem u)\<rparr>) F' \<and>
       (\<forall>va<MAXVA. leaf (wr64 pte ?v (mem u)) root va = (if vpn va = vpn a then ?v else leaf (mem s) root va))"
    using mappages_round [OF Suc.prems(1) a, of ?v] Suc.prems(4) a by auto
  show ?case
  proof (cases "pte = 0")
    case True
    with u show ?thesis
      by (intro exI [of _ "- 1"] exI [of _ u] exI [of _ "{}"] exI [of _ 0])
        (auto simp: Do_def return_def grown_def mapped_leaf_def)
  next
    case False
    define w where "w = u\<lparr>mem := wr64 pte ?v (mem u)\<rparr>"
    have w: "kept root s F w F'" "\<not> valid (rd64 (mem u) pte)"
      "\<forall>va<MAXVA. leaf (mem w) root va = (if vpn va = vpn a then ?v else leaf (mem s) root va)"
      using u(2) False by (auto simp: w_def)
    have next_page: "vpn ?b = Suc (vpn a)" "unat ?b = unat a + PGSIZE"
      using vpn_next [OF le] unat_next_page [OF le] by auto
    have "\<exists>r x G j. mappages_loop (Suc k) root ?b lst (pa + of_nat PGSIZE) perm w = Done r x \<and> kept root w F' x G \<and>
        (r = 0 \<and> j = Suc k \<or> r = - 1 \<and> j < Suc k \<and> G = {}) \<and>
        (\<forall>va<MAXVA. leaf (mem x) root va = mapped_leaf (leaf (mem w) root) ?b j (pa + of_nat PGSIZE) perm va)"
    proof (rule Suc.IH)
      show "vm_inv w root F'" using w(1) by (simp add: kept_def)
      show "unat ?b + Suc k * PGSIZE \<le> unat MAXVA" using Suc.prems(2) next_page(2) by simp
      show "lst = ?b + of_nat (k * PGSIZE)" using Suc.prems(3) by (simp add: algebra_simps)
      show "\<forall>va<MAXVA. vpn ?b \<le> vpn va \<and> vpn va < vpn ?b + Suc k \<longrightarrow> \<not> valid (leaf (mem w) root va)"
        using w(3) Suc.prems(4) next_page(1) by auto
    qed
    then obtain r x G j where x: "mappages_loop (Suc k) root ?b lst (pa + of_nat PGSIZE) perm w = Done r x"
      "kept root w F' x G" "r = 0 \<and> j = Suc k \<or> r = - 1 \<and> j < Suc k \<and> G = {}"
      "\<forall>va<MAXVA. leaf (mem x) root va = mapped_leaf (leaf (mem w) root) ?b j (pa + of_nat PGSIZE) perm va"
      by blast
    have "leaf (mem x) root va = mapped_leaf (leaf (mem s) root) a (Suc j) pa perm va" if "va < MAXVA" for va
    proof -
      have "leaf (mem x) root va = mapped_leaf
          (\<lambda>va. if vpn va = vpn a then ?v else leaf (mem s) root va) ?b j (pa + of_nat PGSIZE) perm va"
        using x(4) w(3) that by (simp add: mapped_leaf_def)
      then show ?thesis by (simp only: mapped_leaf_step [OF le])
    qed
    moreover have "mappages_loop (Suc (Suc k)) root a lst pa perm s = Done r x"
      using u(1) False w(2) ne x(1)
      by (simp add: Do_def gets_def upd_mem_def modify_def valid_def w_def)
    ultimately show ?thesis
      using kept_trans [OF w(1) x(2)] x(3)
      by (intro exI [of _ r] exI [of _ x] exI [of _ G] exI [of _ "Suc j"]) auto
  qed
qed

section \<open>User pages\<close>

definition user_page :: "mem \<Rightarrow> uint64 \<Rightarrow> uint64 \<Rightarrow> uint64 option" where
  "user_page m root va =
     (let e = leaf m root va in
      if va < MAXVA \<and> valid e \<and> e AND PTE_U \<noteq> 0 then Some (PTE2PA e) else None)"

text \<open>The byte a user program reads at \<open>va\<close>.\<close>

definition ubyte :: "mem \<Rightarrow> uint64 \<Rightarrow> uint64 \<Rightarrow> byte option" where
  "ubyte m root va =
     (case user_page m root va of None \<Rightarrow> None | Some pa \<Rightarrow> Some (m (pa + (va - PGROUNDDOWN va))))"

text \<open>User pages are whole pages of managed memory, outside the tables and the free list, and no
  page is mapped twice.\<close>

definition uvm_inv :: "'z kmem_scheme \<Rightarrow> uint64 \<Rightarrow> uint64 set \<Rightarrow> bool" where
  "uvm_inv s root F \<longleftrightarrow> vm_inv s root F \<and>
     (\<forall>va pa. user_page (mem s) root va = Some pa \<longrightarrow>
        page_ok (kend s) pa \<and> pa \<noteq> 0 \<and> pa \<notin> tables (mem s) root \<and> pa \<notin> F) \<and>
     (\<forall>va va' pa. user_page (mem s) root va = Some pa \<longrightarrow> user_page (mem s) root va' = Some pa \<longrightarrow>
        vpn va = vpn va')"

lemma walkaddr_eq:
  assumes "vm_inv s root F"
  shows "walkaddr root va s = Done (case user_page (mem s) root va of None \<Rightarrow> 0 | Some pa \<Rightarrow> pa) s"
proof (cases "va < MAXVA")
  case True
  have nz: "pte_addr t 0 va \<noteq> 0" if "node (mem s) root va 2 = Some t" for t
    using that assms by (intro pte_addr_nonzero) (auto simp: vm_inv_def pt_wf_def)
  show ?thesis
  proof (cases "node (mem s) root va 2")
    case None
    with True show ?thesis
      by (auto simp: walkaddr_def not_le Do_def walk_noalloc return_def user_page_def leaf_def valid_def)
  next
    case (Some t)
    with True nz [OF Some] show ?thesis
      by (auto simp: walkaddr_def not_le Do_def walk_noalloc return_def gets_def user_page_def leaf_def
          valid_def Let_def)
  qed
next
  case False
  then show ?thesis by (simp add: walkaddr_def not_less return_def user_page_def Let_def leD)
qed

lemma PGROUNDDOWN_le: "PGROUNDDOWN va \<le> va"
  by (simp add: word_le_nat_alt unat_PGROUNDDOWN)

lemma unat_page_offset: "unat (va - PGROUNDDOWN va) = unat va mod PGSIZE"
  using PGROUNDDOWN_le by (simp add: unat_sub unat_PGROUNDDOWN)

lemma unat_ROUNDDOWN_vpn: "unat (PGROUNDDOWN va) = vpn va * PGSIZE"
  by (simp add: unat_PGROUNDDOWN vpn_def minus_mod_eq_div_mult)

lemma vpn_ROUNDDOWN [simp]: "vpn (PGROUNDDOWN va) = vpn va"
  by (simp add: vpn_def [of "PGROUNDDOWN va"] unat_ROUNDDOWN_vpn)

lemma ROUNDDOWN_vpn: "vpn va = vpn va' \<Longrightarrow> PGROUNDDOWN va = PGROUNDDOWN va'"
  by (simp add: word_unat_eq_iff unat_ROUNDDOWN_vpn)

lemma user_page_vpn:
  assumes "vpn va = vpn va'" and "va < MAXVA" and "va' < MAXVA"
  shows "user_page m root va = user_page m root va'" "leaf m root va = leaf m root va'"
proof -
  have s: "same_to 3 va va'" using same_to_vpn assms by blast
  then have "same_to 2 va va'" by (simp add: same_to_def)
  moreover have "PX 0 va = PX 0 va'" using s [unfolded same_to_def, rule_format, of 2] by simp
  ultimately
  show "leaf m root va = leaf m root va'"
    by (simp add: leaf_def node_same [of 2 va va'] pte_addr_def split: option.split)
  with assms(2,3) show "user_page m root va = user_page m root va'" by (simp add: user_page_def)
qed

text \<open>The first chunk of a transfer lies in one page, and the rest starts on the next page.\<close>

lemma chunk_le: "chunk va len \<le> len" "chunk va len \<le> PGSIZE"
  by (auto simp: chunk_def Let_def)

lemma chunk_page:
  assumes "i < chunk va len" and "unat va + len \<le> 2 ^ 38"
  shows "vpn (va + of_nat i) = vpn va" "va + of_nat i - PGROUNDDOWN (va + of_nat i) = va - PGROUNDDOWN va + of_nat i"
proof -
  have i: "unat va mod PGSIZE + i < PGSIZE" "i < len"
    using assms(1) by (auto simp: chunk_def Let_def unat_page_offset split: if_splits)
  then have u: "unat (va + of_nat i) = unat va + i"
    using assms(2) by (intro unat_offset) simp
  have "(unat va + i) div PGSIZE = unat va div PGSIZE"
  proof -
    have "unat va + i = unat va div PGSIZE * PGSIZE + (unat va mod PGSIZE + i)" by simp
    then show ?thesis using i(1) by (metis add.commute div_less div_mult_self3 less_nat_zero_code plus_nat.add_0)
  qed
  then show v: "vpn (va + of_nat i) = vpn va" by (simp add: vpn_def u)
  show "va + of_nat i - PGROUNDDOWN (va + of_nat i) = va - PGROUNDDOWN va + of_nat i"
    using ROUNDDOWN_vpn [OF v] by simp
qed

lemma chunk_next:
  assumes "chunk va len < len"
  shows "PGROUNDDOWN va + of_nat PGSIZE = va + of_nat (chunk va len)"
proof -
  have "chunk va len = PGSIZE - unat va mod PGSIZE"
    using assms by (auto simp: chunk_def Let_def unat_page_offset split: if_splits)
  moreover have "unat va mod PGSIZE \<le> PGSIZE" by simp
  moreover have "of_nat (unat va mod PGSIZE) = va - PGROUNDDOWN va"
    by (simp only: unat_page_offset [symmetric]) simp
  ultimately have "of_nat (chunk va len) = of_nat PGSIZE - (va - PGROUNDDOWN va)" by simp
  then show ?thesis by simp
qed

lemma user_offsets:
  assumes "unat va + len \<le> 2 ^ 38" and "i < len"
  shows "va + of_nat i < MAXVA"
proof -
  have "unat (va + of_nat i) = unat va + i" using assms by (intro unat_offset) simp
  with assms show ?thesis by (simp add: word_less_nat_alt MAXVA_eq)
qed

lemma ubyte_chunk:
  assumes "i < chunk va len" and "unat va + len \<le> 2 ^ 38" and "user_page m root (PGROUNDDOWN va) = Some pa"
  shows "ubyte m root (va + of_nat i) = Some (m (pa + (va - PGROUNDDOWN va) + of_nat i))"
proof -
  have lt: "va + of_nat i < MAXVA" using user_offsets [OF assms(2)] assms(1) chunk_le(1) by (meson less_le_trans)
  have "PGROUNDDOWN va < MAXVA" using assms(3) by (auto simp: user_page_def Let_def split: if_splits)
  then have "user_page m root (va + of_nat i) = Some pa"
    using user_page_vpn(1) [of "va + of_nat i" "PGROUNDDOWN va" m root] chunk_page(1) [OF assms(1,2)] lt assms(3)
    by simp
  then show ?thesis by (simp add: ubyte_def chunk_page(2) [OF assms(1,2)] add.assoc)
qed

lemma copyin_spec:
  assumes "uvm_inv s root F" and "unat va + len \<le> 2 ^ 38"
    and "\<forall>i<len. user_page (mem s) root (va + of_nat i) \<noteq> None"
  shows "copyin root va len s = Done (0, map (\<lambda>i. the (ubyte (mem s) root (va + of_nat i))) [0..<len]) s"
  using assms(2,3)
proof (induction len arbitrary: va rule: less_induct)
  case (less len)
  show ?case
  proof (cases "len = 0")
    case True
    then show ?thesis by (simp add: copyin.simps return_def)
  next
    case False
    let ?n = "chunk va len" and ?va0 = "PGROUNDDOWN va"
    have n: "0 < ?n" "?n \<le> len" using False chunk_pos chunk_le by auto
    have "va < MAXVA" using user_offsets [OF less.prems(1), of 0] False by simp
    then have va0: "?va0 < MAXVA" using PGROUNDDOWN_le [of va] by (rule le_less_trans [rotated])
    have "user_page (mem s) root ?va0 \<noteq> None"
      using less.prems(2) False user_page_vpn(1) [of va ?va0 "mem s" root] \<open>va < MAXVA\<close> va0 by force
    then obtain pa where pa: "user_page (mem s) root ?va0 = Some pa" by blast
    have nz: "pa \<noteq> 0" using assms(1) pa by (auto simp: uvm_inv_def)
    have w: "walkaddr root ?va0 s = Done pa s"
      using walkaddr_eq [of s root F ?va0] assms(1) pa by (simp add: uvm_inv_def)
    have first: "mem_read (mem s) (pa + (va - ?va0)) ?n = map (\<lambda>i. the (ubyte (mem s) root (va + of_nat i))) [0..<?n]"
      using ubyte_chunk [OF _ less.prems(1) pa] by (simp add: mem_read_def)
    show ?thesis
    proof (cases "?n = len")
      case True
      then have "copyin root (?va0 + of_nat PGSIZE) (len - ?n) s = Done (0, []) s"
        by (simp add: copyin.simps return_def)
      with False nz w first True show ?thesis
        by (subst copyin.simps) (simp add: Let_def Do_def gets_def return_def)
    next
      case less': False
      let ?vb = "va + of_nat ?n"
      have vb: "?va0 + of_nat PGSIZE = ?vb" using chunk_next less' n by simp
      have ub: "unat ?vb = unat va + ?n" using less.prems(1) n by (intro unat_offset) simp
      have "copyin root ?vb (len - ?n) s =
          Done (0, map (\<lambda>i. the (ubyte (mem s) root (?vb + of_nat i))) [0..<len - ?n]) s"
      proof (rule less.IH)
        show "len - ?n < len" using n False by simp
        show "unat ?vb + (len - ?n) \<le> 2 ^ 38" using ub n less.prems(1) by simp
        show "\<forall>i<len - ?n. user_page (mem s) root (?vb + of_nat i) \<noteq> None"
        proof (intro allI impI)
          fix i assume "i < len - ?n"
          then show "user_page (mem s) root (?vb + of_nat i) \<noteq> None"
            using less.prems(2) [rule_format, of "?n + i"] by (simp add: add.assoc)
        qed
      qed
      moreover have "map (\<lambda>i. the (ubyte (mem s) root (va + of_nat i))) [0..<?n] @
          map (\<lambda>i. the (ubyte (mem s) root (?vb + of_nat i))) [0..<len - ?n] =
          map (\<lambda>i. the (ubyte (mem s) root (va + of_nat i))) [0..<len]"
        using n(2) by (intro nth_equalityI) (auto simp: nth_append add.assoc simp flip: of_nat_add)
      ultimately show ?thesis
        using False nz w first vb
        by (subst copyin.simps) (simp add: Let_def Do_def gets_def return_def)
    qed
  qed
qed

text \<open>A store into a user page changes no translation and no other page.\<close>

lemma user_store:
  assumes "uvm_inv s root F" and "user_page (mem s) root v0 = Some pa"
    and "\<And>b. \<not> in_range pa PGSIZE b \<Longrightarrow> m b = mem s b"
  shows "leaf m root = leaf (mem s) root" "user_page m root = user_page (mem s) root"
    "uvm_inv (s\<lparr>mem := m\<rparr>) root F" "tables m root = tables (mem s) root"
proof -
  have inv: "vm_inv s root F" and pa: "page_ok (kend s) pa" "pa \<notin> tables (mem s) root" "pa \<notin> F"
    using assms(1,2) by (auto simp: uvm_inv_def)
  have wf: "pt_wf (mem s) root" using inv by (simp add: vm_inv_def)
  have out: "m b = mem s b" if "pg_al x" "x \<noteq> pa" "in_range x PGSIZE b" for x b
  proof (rule assms(3))
    show "\<not> in_range pa PGSIZE b"
      using al_apart [OF that(1) page_ok_al [OF pa(1)] that(3)] that(2) by blast
  qed
  have tab: "m b = mem s b" if "t \<in> tables (mem s) root" "in_range t PGSIZE b" for b t
  proof (rule out)
    show "pg_al t" using that(1) inv by (auto simp: vm_inv_def intro: page_ok_al)
    show "t \<noteq> pa" using that(1) pa(2) by blast
  qed (rule that(2))
  have fr: "d \<le> 2 \<Longrightarrow> node m root va d = node (mem s) root va d" "leaf m root va = leaf (mem s) root va" for va d
    using pt_frame(1) [of "mem s" root m d va] pt_frame(2) [of "mem s" root m va] wf tab by fast+
  show lf: "leaf m root = leaf (mem s) root" using fr(2) by blast
  then show up: "user_page m root = user_page (mem s) root" by (simp add: user_page_def fun_eq_iff)
  show tb: "tables m root = tables (mem s) root"
    by (rule tables_cong) (rule fr(1))
  have wf': "pt_wf m root" using wf by (simp only: pt_wf_cong [OF fr(1)])
  have "free_path m (freelist s) xs" if xs: "free_pages s xs" "set xs = F" for xs
  proof -
    have "m b = mem s b" if "x \<in> set xs" "in_range x 8 b" for x b
    proof (rule out)
      show "pg_al x" using that(1) xs by (auto simp: free_pages_def intro: page_ok_al)
      show "x \<noteq> pa" using that(1) xs(2) pa(3) by blast
    qed (rule in_page [OF that(2)])
    then show ?thesis
      using xs(1) free_path_cong [of xs m "mem s" "freelist s"] by (auto simp: free_pages_def)
  qed
  then have "vm_inv (s\<lparr>mem := m\<rparr>) root F"
    using inv tb wf' unfolding vm_inv_def free_pages_def by auto
  moreover have "mem (s\<lparr>mem := m\<rparr>) = m" "kend (s\<lparr>mem := m\<rparr>) = kend s" by simp_all
  ultimately show "uvm_inv (s\<lparr>mem := m\<rparr>) root F"
    using assms(1) unfolding uvm_inv_def by (simp only: up tb) blast
qed

lemma ubyte_store:
  assumes "uvm_inv s root F" and "user_page (mem s) root v0 = Some pa" and "off + length bs \<le> PGSIZE"
    and "m = mem_fill (pa + of_nat off) bs (mem s)"
  shows "ubyte m root va = (let o' = unat va mod PGSIZE in
      if va < MAXVA \<and> vpn va = vpn v0 \<and> off \<le> o' \<and> o' < off + length bs then Some (bs ! (o' - off))
      else ubyte (mem s) root va)"
    "\<not> in_range pa PGSIZE b \<Longrightarrow> m b = mem s b"
proof -
  have pg: "PGSIZE < 2 ^ 64" by (simp add: PGSIZE_def)
  have sub: "unat (b - (pa + of_nat off)) = unat (b - pa) - off \<and> off \<le> unat (b - pa)"
    if "in_range (pa + of_nat off) (length bs) b" for b
  proof -
    let ?k = "unat (b - (pa + of_nat off))"
    have "?k < length bs" using that by (simp add: in_range_def)
    then have "?k + off < 2 ^ 64" using assms(3) pg by linarith
    then have "unat (b - (pa + of_nat off) + of_nat off) = ?k + off" by (rule unat_offset)
    then show ?thesis by simp
  qed
  show out: "m b = mem s b" if "\<not> in_range pa PGSIZE b" for b
  proof -
    have "\<not> in_range (pa + of_nat off) (length bs) b"
      using that sub [of b] assms(3) unfolding in_range_def by linarith
    then show ?thesis by (simp add: assms(4) mem_fill_def)
  qed
  have up: "user_page m root = user_page (mem s) root"
    using user_store(2) [OF assms(1,2), of m] out by blast
  let ?o = "unat va mod PGSIZE"
  have o: "va - PGROUNDDOWN va = of_nat ?o" by (simp only: unat_page_offset [symmetric]) simp
  have ol: "?o < PGSIZE" by simp
  show "ubyte m root va = (let o' = ?o in
      if va < MAXVA \<and> vpn va = vpn v0 \<and> off \<le> o' \<and> o' < off + length bs then Some (bs ! (o' - off))
      else ubyte (mem s) root va)"
  proof (cases "user_page (mem s) root va")
    case None
    have "\<not> (va < MAXVA \<and> vpn va = vpn v0)"
    proof
      assume "va < MAXVA \<and> vpn va = vpn v0"
      moreover have "v0 < MAXVA" using assms(2) by (auto simp: user_page_def Let_def split: if_splits)
      ultimately show False using user_page_vpn(1) [of va v0 "mem s" root] None assms(2) by simp
    qed
    with None show ?thesis by (auto simp: ubyte_def up)
  next
    case (Some pb)
    have lt: "va < MAXVA" "v0 < MAXVA"
      using Some assms(2) by (auto simp: user_page_def Let_def split: if_splits)
    have eq: "pb = pa \<longleftrightarrow> vpn va = vpn v0"
    proof
      assume "pb = pa"
      then show "vpn va = vpn v0" using Some assms(1,2) unfolding uvm_inv_def by blast
    next
      assume "vpn va = vpn v0"
      then show "pb = pa" using user_page_vpn(1) [of va v0 "mem s" root] lt Some assms(2) by simp
    qed
    have al: "pg_al pa" "pg_al pb"
      using assms(1,2) Some by (auto simp: uvm_inv_def intro: page_ok_al)
    show ?thesis
    proof (cases "vpn va = vpn v0")
      case True
      then have "pb = pa" using eq by simp
      have "unat (of_nat ?o :: uint64) = ?o" using ol pg by (intro unat_of_nat64) linarith
      then have "unat (pa + of_nat ?o - pa) = ?o" by simp
      then have rng: "in_range (pa + of_nat off) (length bs) (pa + of_nat ?o) \<Longrightarrow>
          unat (pa + of_nat ?o - (pa + of_nat off)) = ?o - off \<and> off \<le> ?o"
        using sub by metis
      have conv: "in_range (pa + of_nat off) (length bs) (pa + of_nat ?o)" if "off \<le> ?o" "?o < off + length bs"
      proof -
        have "pa + of_nat ?o - (pa + of_nat off) = of_nat (?o - off)" using that(1) by (simp add: of_nat_diff)
        moreover have "unat (of_nat (?o - off) :: uint64) = ?o - off"
          using ol pg by (intro unat_of_nat64) linarith
        ultimately show ?thesis using that by (simp add: in_range_def)
      qed
      have "in_range (pa + of_nat off) (length bs) (pa + of_nat ?o) \<longleftrightarrow> off \<le> ?o \<and> ?o < off + length bs"
      proof
        assume r: "in_range (pa + of_nat off) (length bs) (pa + of_nat ?o)"
        then have "unat (pa + of_nat ?o - (pa + of_nat off)) < length bs" by (simp only: in_range_def)
        with rng [OF r] show "off \<le> ?o \<and> ?o < off + length bs" by linarith
      qed (use conv in blast)
      then have "m (pa + of_nat ?o) = (if off \<le> ?o \<and> ?o < off + length bs then bs ! (?o - off) else mem s (pa + of_nat ?o))"
        using rng by (auto simp: assms(4) mem_fill_def)
      with Some True \<open>pb = pa\<close> lt(1) show ?thesis by (simp add: ubyte_def up o Let_def)
    next
      case False
      then have "pb \<noteq> pa" using eq by simp
      have "?o < 2 ^ 64" using ol pg by linarith
      then have "in_range pb PGSIZE (pb + of_nat ?o)" using in_range_offset [of ?o pb PGSIZE] ol by simp
      then have "\<not> in_range pa PGSIZE (pb + of_nat ?o)" using al_apart [OF al] \<open>pb \<noteq> pa\<close> by blast
      then have "m (pb + of_nat ?o) = mem s (pb + of_nat ?o)" by (rule out)
      with Some False show ?thesis by (simp add: ubyte_def up o Let_def)
    qed
  qed
qed

lemma in_user_range:
  assumes "unat va + len \<le> 2 ^ 38" and "len \<noteq> 0"
  shows "in_range va len va' \<longleftrightarrow> unat va \<le> unat va' \<and> unat va' < unat va + len"
proof
  assume r: "in_range va len va'"
  have "unat va + unat (va' - va) < 2 ^ 64" using r assms(1) by (simp add: in_range_def)
  then have "unat va' = unat va + unat (va' - va)" using unat_add_small [of va "va' - va"] by simp
  with r show "unat va \<le> unat va' \<and> unat va' < unat va + len" by (simp add: in_range_def)
next
  assume "unat va \<le> unat va' \<and> unat va' < unat va + len"
  then show "in_range va len va'" by (simp add: in_range_def unat_sub word_le_nat_alt) linarith
qed

text \<open>What a successful \<open>copyout\<close> of \<open>bs\<close> to \<open>va\<close> does to user memory.\<close>

definition user_written :: "mem \<Rightarrow> mem \<Rightarrow> uint64 \<Rightarrow> uint64 \<Rightarrow> byte list \<Rightarrow> bool" where
  "user_written m m' root va bs \<longleftrightarrow>
     leaf m' root = leaf m root \<and> user_page m' root = user_page m root \<and>
     (\<forall>va'. ubyte m' root va' =
        (if in_range va (length bs) va' then Some (bs ! unat (va' - va)) else ubyte m root va')) \<and>
     (\<forall>b. (\<forall>v pa. user_page m root v = Some pa \<longrightarrow> \<not> in_range pa PGSIZE b) \<longrightarrow> m' b = m b)"

lemma user_written_append:
  assumes "user_written m m1 root va bs" and "user_written m1 m2 root (va + of_nat (length bs)) cs"
    and "unat va + length bs + length cs \<le> 2 ^ 38"
  shows "user_written m m2 root va (bs @ cs)"
proof -
  have "ubyte m2 root va' = (if in_range va (length (bs @ cs)) va'
      then Some ((bs @ cs) ! unat (va' - va)) else ubyte m root va')" for va'
  proof (cases "in_range (va + of_nat (length bs)) (length cs) va'")
    case True
    let ?k = "unat (va' - (va + of_nat (length bs)))"
    have k: "?k < length cs" using True by (simp add: in_range_def)
    then have "?k + length bs < 2 ^ 64" using assms(3) by simp
    then have "unat (va' - (va + of_nat (length bs)) + of_nat (length bs)) = ?k + length bs"
      by (rule unat_offset)
    then have "unat (va' - va) = ?k + length bs" by simp
    with True k assms(2) show ?thesis by (simp add: user_written_def in_range_def nth_append)
  next
    case False
    have "in_range va (length (bs @ cs)) va' \<longleftrightarrow> in_range va (length bs) va'"
    proof (cases "length bs \<le> unat (va' - va)")
      case True
      then have "unat (va' - va - of_nat (length bs)) = unat (va' - va) - length bs"
        using assms(3) unat64_less [of "va' - va"]
        by (subst unat_sub) (simp_all add: word_le_nat_alt unat_of_nat64)
      with False True show ?thesis by (simp add: in_range_def diff_diff_eq)
    qed (simp add: in_range_def)
    with False assms(1,2) show ?thesis by (auto simp: user_written_def in_range_def nth_append)
  qed
  with assms(1,2) show ?thesis by (simp add: user_written_def)
qed

lemma chunk_written:
  assumes "uvm_inv s root F" and "user_page (mem s) root (PGROUNDDOWN va) = Some pa"
    and "unat va + length src \<le> 2 ^ 38" and "src \<noteq> []"
    and "bs = take (chunk va (length src)) src"
    and "m = mem_fill (pa + (va - PGROUNDDOWN va)) bs (mem s)"
  shows "user_written (mem s) m root va bs" "uvm_inv (s\<lparr>mem := m\<rparr>) root F"
proof -
  let ?o = "unat va mod PGSIZE"
  have len: "length bs = chunk va (length src)" "0 < length bs"
    using assms(4,5) chunk_le(1) [of va "length src"] chunk_pos [of "length src" va] by auto
  have off: "?o + length bs \<le> PGSIZE"
    using len(1) by (auto simp: chunk_def Let_def unat_page_offset)
  have o: "va - PGROUNDDOWN va = of_nat ?o" by (simp only: unat_page_offset [symmetric]) simp
  have m: "m = mem_fill (pa + of_nat ?o) bs (mem s)" using assms(6) by (simp add: o)
  note st = ubyte_store [OF assms(1,2) off m]
  note us = user_store [OF assms(1,2) st(2)]
  show "uvm_inv (s\<lparr>mem := m\<rparr>) root F" by (rule us(3))
  have "ubyte m root va' = (if in_range va (length bs) va' then Some (bs ! unat (va' - va)) else ubyte (mem s) root va')"
    for va'
  proof -
    have le: "unat va + length bs \<le> 2 ^ 38" using assms(3) len(1) chunk_le(1) [of va "length src"] by simp
    have "va < MAXVA" using user_offsets [OF assms(3), of 0] assms(4) by simp
    have iff: "va' < MAXVA \<and> vpn va' = vpn va \<and> ?o \<le> unat va' mod PGSIZE \<and> unat va' mod PGSIZE < ?o + length bs \<longleftrightarrow>
        in_range va (length bs) va'"
    proof
      assume h: "va' < MAXVA \<and> vpn va' = vpn va \<and> ?o \<le> unat va' mod PGSIZE \<and> unat va' mod PGSIZE < ?o + length bs"
      have "unat va = vpn va * PGSIZE + ?o" "unat va' = vpn va' * PGSIZE + unat va' mod PGSIZE"
        by (simp_all add: vpn_def)
      with h have "unat va \<le> unat va'" "unat va' < unat va + length bs" by auto
      then show "in_range va (length bs) va'" using in_user_range [OF le] len(2) by auto
    next
      assume r: "in_range va (length bs) va'"
      define i where "i = unat (va' - va)"
      have i: "va' = va + of_nat i" "i < length bs" using r by (auto simp: i_def in_range_def)
      have c: "i < chunk va (length src)" using i(2) len(1) by simp
      have "vpn va' = vpn va" using chunk_page(1) [OF c assms(3)] i(1) by simp
      moreover have "unat va' = unat va + i" unfolding i(1) using le i(2) by (intro unat_offset) simp
      moreover have "va' < MAXVA" using user_offsets [OF le i(2)] i(1) by simp
      moreover have "unat va' = vpn va' * PGSIZE + unat va' mod PGSIZE" "unat va = vpn va * PGSIZE + ?o"
        by (simp_all add: vpn_def)
      ultimately show "va' < MAXVA \<and> vpn va' = vpn va \<and> ?o \<le> unat va' mod PGSIZE \<and> unat va' mod PGSIZE < ?o + length bs"
        using i(2) by simp
    qed
    have "unat va' mod PGSIZE - ?o = unat (va' - va)" if "in_range va (length bs) va'"
    proof -
      have v: "vpn va' = vpn va" "?o \<le> unat va' mod PGSIZE" using iff that by auto
      have "unat va \<le> unat va'" using in_user_range [OF le] len(2) that by auto
      then have "unat (va' - va) = unat va' - unat va" by (simp add: unat_sub word_le_nat_alt)
      moreover have "unat va' = vpn va' * PGSIZE + unat va' mod PGSIZE" "unat va = vpn va * PGSIZE + ?o"
        by (simp_all add: vpn_def)
      ultimately show ?thesis using v by simp
    qed
    with st(1) [of va'] iff show ?thesis by (simp add: Let_def)
  qed
  moreover have "m b = mem s b" if "\<forall>v pa. user_page (mem s) root v = Some pa \<longrightarrow> \<not> in_range pa PGSIZE b" for b
    using that assms(2) st(2) by blast
  ultimately show "user_written (mem s) m root va bs"
    using us(1,2) unfolding user_written_def by blast
qed

definition user_writable :: "mem \<Rightarrow> uint64 \<Rightarrow> uint64 \<Rightarrow> bool" where
  "user_writable m root va \<longleftrightarrow> user_page m root va \<noteq> None \<and> leaf m root va AND PTE_W \<noteq> 0"

lemma user_written_Nil: "user_written m m root va []"
  by (simp add: user_written_def in_range_def)

lemma copyout_spec:
  assumes "uvm_inv s root F" and "unat va + length src \<le> 2 ^ 38"
    and "\<forall>i<length src. user_writable (mem s) root (va + of_nat i)"
  shows "\<exists>m. copyout root va src s = Done 0 (s\<lparr>mem := m\<rparr>) \<and> uvm_inv (s\<lparr>mem := m\<rparr>) root F \<and>
    user_written (mem s) m root va src"
  using assms
proof (induction src arbitrary: va s rule: length_induct)
  case (1 src)
  show ?case
  proof (cases "src = []")
    case True
    with 1 show ?thesis
      by (intro exI [of _ "mem s"]) (simp add: copyout.simps return_def user_written_Nil)
  next
    case False
    let ?n = "chunk va (length src)" and ?va0 = "PGROUNDDOWN va"
    let ?bs = "take ?n src" and ?cs = "drop ?n src" and ?vb = "va + of_nat ?n"
    have n: "0 < ?n" "?n \<le> length src" using False chunk_pos chunk_le by auto
    have va: "va < MAXVA" using user_offsets [OF 1(3), of 0] False by simp
    then have va0: "?va0 < MAXVA" using PGROUNDDOWN_le [of va] by (rule le_less_trans [rotated])
    have w0: "user_writable (mem s) root va" using 1(4) [rule_format, of 0] False by simp
    have "user_page (mem s) root ?va0 \<noteq> None" and W: "leaf (mem s) root ?va0 AND PTE_W \<noteq> 0"
      using w0 user_page_vpn [of va ?va0 "mem s" root] va va0 by (auto simp: user_writable_def)
    then obtain pa where pa: "user_page (mem s) root ?va0 = Some pa" by blast
    have nz: "pa \<noteq> 0" and inv: "vm_inv s root F" using 1(2) pa by (auto simp: uvm_inv_def)
    have wa: "walkaddr root ?va0 s = Done pa s" using walkaddr_eq [OF inv, of ?va0] pa by simp
    obtain t where t: "node (mem s) root ?va0 2 = Some t"
      using pa leaf_nonzero by (auto simp: user_page_def Let_def split: if_splits)
    have wk: "walk root ?va0 False s = Done (pte_addr t 0 ?va0) s" "rd64 (mem s) (pte_addr t 0 ?va0) = leaf (mem s) root ?va0"
      using walk_noalloc [OF va0, of root s] t by (simp_all add: leaf_def)
    define m where "m = mem_fill (pa + (va - ?va0)) ?bs (mem s)"
    note ch = chunk_written [OF 1(2) pa 1(3) False refl m_def]
    have step: "copyout root va src s = copyout root (?va0 + of_nat PGSIZE) ?cs (s\<lparr>mem := m\<rparr>)"
      using False nz wa wk W va0
      by (subst copyout.simps)
        (auto simp: Let_def Do_def gets_def return_def upd_mem_def modify_def m_def dest: leD)
    show ?thesis
    proof (cases "?cs = []")
      case True
      then have "?bs = src" by simp
      with True step ch show ?thesis by (intro exI [of _ m]) (simp add: copyout.simps return_def)
    next
      case more: False
      then have "?n < length src" by simp
      then have vb: "?va0 + of_nat PGSIZE = ?vb" by (rule chunk_next)
      have ub: "unat ?vb = unat va + ?n" using 1(3) n by (intro unat_offset) simp
      have le: "unat ?vb + length ?cs \<le> 2 ^ 38" using ub n 1(3) by simp
      have "\<forall>i<length ?cs. user_writable m root (?vb + of_nat i)"
      proof (intro allI impI)
        fix i assume "i < length ?cs"
        then have "user_writable (mem s) root (va + of_nat (?n + i))" by (intro 1(4) [rule_format]) simp
        then show "user_writable m root (?vb + of_nat i)"
          using ch(1) by (simp add: user_writable_def user_written_def add.assoc)
      qed
      then obtain m2 where m2: "copyout root ?vb ?cs (s\<lparr>mem := m\<rparr>) = Done 0 (s\<lparr>mem := m\<rparr>\<lparr>mem := m2\<rparr>)"
        "uvm_inv (s\<lparr>mem := m\<rparr>\<lparr>mem := m2\<rparr>) root F" "user_written m m2 root ?vb ?cs"
        using 1(1) [rule_format, of ?cs "s\<lparr>mem := m\<rparr>" ?vb] ch(2) le n False by auto
      have "user_written (mem s) m2 root va (?bs @ ?cs)"
        using user_written_append [OF ch(1), of m2 ?cs] m2(3) n 1(3) by simp
      with m2 step vb show ?thesis by (intro exI [of _ m2]) simp
    qed
  qed
qed

text \<open>C15: mapping. With a well-formed page table, \<open>mappages\<close> over \<open>n\<close> unmapped pages below \<open>MAXVA\<close>
  neither panics nor hangs. When it returns 0, exactly those pages translate to consecutive physical
  pages with the requested permissions and every other translation is as before; when it returns
  -1, physical memory is exhausted and a prefix of the pages is mapped. Either way no page is lost
  (the new tables come from the free list), memory outside tables and free pages is untouched, and
  the table is well formed again.\<close>

theorem mappages_maps_exactly:
  assumes "vm_inv s root F" and "unat va mod PGSIZE = 0" and "0 < n" and "unat va + n * PGSIZE \<le> unat MAXVA"
    and "\<forall>va'<MAXVA. vpn va \<le> vpn va' \<and> vpn va' < vpn va + n \<longrightarrow> \<not> valid (leaf (mem s) root va')"
  shows "\<exists>r u F' j. mappages root va (of_nat (n * PGSIZE)) pa perm s = Done r u \<and>
    (r = 0 \<and> j = n \<or> r = - 1 \<and> j < n \<and> F' = {}) \<and>
    (\<forall>va'<MAXVA. leaf (mem u) root va' =
       (if vpn va \<le> vpn va' \<and> vpn va' < vpn va + j
        then PA2PTE (pa + of_nat ((vpn va' - vpn va) * PGSIZE)) OR perm OR PTE_V
        else leaf (mem s) root va')) \<and>
    vm_inv u root F' \<and> tables (mem u) root \<union> F' = tables (mem s) root \<union> F \<and>
    (\<forall>b. (\<forall>q\<in>tables (mem s) root \<union> F. \<not> in_range q PGSIZE b) \<longrightarrow> mem u b = mem s b)"
proof -
  obtain k where k: "n = Suc k" using assms(3) by (cases n) auto
  have lt: "n * PGSIZE < 2 ^ 64" using assms(4) MAXVA_eq(2) by simp
  have un: "unat (of_nat (n * PGSIZE) :: uint64) = n * PGSIZE" using lt by (rule unat_of_nat64)
  have "va + of_nat (n * PGSIZE) - of_nat PGSIZE = va + of_nat (k * PGSIZE)"
    unfolding k by (simp add: algebra_simps)
  moreover have "(of_nat (n * PGSIZE) :: uint64) \<noteq> 0" using un assms(3) by (metis mult_is_0 PGSIZE_pos less_irrefl unat_0)
  moreover have "unat (of_nat (n * PGSIZE) :: uint64) div PGSIZE = Suc k"
    using un k PGSIZE_pos by (metis nonzero_mult_div_cancel_right less_irrefl)
  moreover have "unat (of_nat (n * PGSIZE) :: uint64) mod PGSIZE = 0" unfolding un by simp
  ultimately have "mappages root va (of_nat (n * PGSIZE)) pa perm s =
      mappages_loop (Suc k) root va (va + of_nat (k * PGSIZE)) pa perm s"
    using assms(2) unfolding mappages_def by (simp only: if_False if_True simp_thms)
  moreover obtain r u F' j where "mappages_loop (Suc k) root va (va + of_nat (k * PGSIZE)) pa perm s = Done r u"
    "kept root s F u F'" "r = 0 \<and> j = Suc k \<or> r = - 1 \<and> j < Suc k \<and> F' = {}"
    "\<forall>va'<MAXVA. leaf (mem u) root va' = mapped_leaf (leaf (mem s) root) va j pa perm va'"
    using mappages_loop_spec [OF assms(1) _ refl, of va k pa perm] assms(4,5) unfolding k by blast
  ultimately show ?thesis
    unfolding kept_def mapped_leaf_def k by (intro exI [of _ r] exI [of _ u] exI [of _ F'] exI [of _ j])
      (elim conjE, intro conjI, simp only:, assumption+)
qed

text \<open>C16: user memory. For a user range below \<open>2^38\<close> whose pages are mapped user_writable, \<open>copyout\<close>
  returns 0, the user then reads exactly the bytes copied, every other user byte, every translation
  and all memory outside user pages are unchanged; and \<open>copyin\<close> of the same range returns exactly
  the bytes that \<open>copyout\<close> stored, across page boundaries.\<close>

theorem copyout_copyin_round_trip:
  assumes "uvm_inv s root F" and "unat va + length src \<le> 2 ^ 38"
    and "\<forall>i<length src. user_writable (mem s) root (va + of_nat i)"
  shows "\<exists>u. copyout root va src s = Done 0 u \<and> copyin root va (length src) u = Done (0, src) u \<and>
    (\<forall>va'. ubyte (mem u) root va' =
       (if in_range va (length src) va' then Some (src ! unat (va' - va)) else ubyte (mem s) root va')) \<and>
    leaf (mem u) root = leaf (mem s) root \<and>
    (\<forall>b. (\<forall>v pa. user_page (mem s) root v = Some pa \<longrightarrow> \<not> in_range pa PGSIZE b) \<longrightarrow> mem u b = mem s b)"
proof -
  obtain m where m: "copyout root va src s = Done 0 (s\<lparr>mem := m\<rparr>)" "uvm_inv (s\<lparr>mem := m\<rparr>) root F"
    "user_written (mem s) m root va src"
    using copyout_spec [OF assms] by blast
  have b: "ubyte m root (va + of_nat i) = Some (src ! i)" if "i < length src" for i
  proof -
    have "i < 2 ^ 64" using that assms(2) by simp
    then have "in_range va (length src) (va + of_nat i)" "unat (va + of_nat i - va) = i"
      using that by (simp_all add: in_range_offset unat_of_nat64)
    then show ?thesis using m(3) by (simp add: user_written_def)
  qed
  have "\<forall>i<length src. user_page (mem (s\<lparr>mem := m\<rparr>)) root (va + of_nat i) \<noteq> None"
    using assms(3) m(3) by (auto simp: user_writable_def user_written_def)
  from copyin_spec [OF m(2) assms(2) this]
  have "copyin root va (length src) (s\<lparr>mem := m\<rparr>) = Done (0, src) (s\<lparr>mem := m\<rparr>)"
    using b by (auto intro: nth_equalityI)
  with m show ?thesis by (intro exI [of _ "s\<lparr>mem := m\<rparr>"]) (simp add: user_written_def)
qed

section \<open>Buffers of the running process\<close>

abbreviation my_root :: "'z sched_scheme \<Rightarrow> uint64" where
  "my_root s \<equiv> pagetable (procs s (me s))"

text \<open>The bytes at \<open>va\<close> as the running process sees them, and that all of them are mapped.\<close>

definition user_bytes :: "'z kmem_scheme \<Rightarrow> uint64 \<Rightarrow> nat \<Rightarrow> byte list" where
  "user_bytes s va n = map (\<lambda>i. the (ubyte (mem s) (my_root s) (va + of_nat i))) [0..<n]"

definition user_buffer :: "'z kmem_scheme \<Rightarrow> uint64 \<Rightarrow> nat \<Rightarrow> bool" where
  "user_buffer s va n \<longleftrightarrow> (\<exists>F. uvm_inv s (my_root s) F) \<and> unat va + n \<le> 2 ^ 38 \<and>
     (\<forall>i<n. user_page (mem s) (my_root s) (va + of_nat i) \<noteq> None)"

lemma uvm_inv_ready:
  assumes "uvm_inv s root F" and "kmem_ready u" and "mem u = mem s" "kend u = kend s" "freelist u = freelist s"
  shows "uvm_inv u root F"
  using assms(1,2) unfolding uvm_inv_def vm_inv_def free_pages_def assms(3-5) by blast

lemma uvm_inv_section:
  assumes "in_section lk s u" and "uvm_inv s root F" and "lk \<noteq> KmemLock"
    and "mem u = mem s" "kend u = kend s" "freelist u = freelist s"
  shows "uvm_inv u root F"
proof -
  have "mycpu u = pushed (mycpu s)"
    using assms by (simp add: in_section_def mycpu_def enter_def upd_mycpu_def)
  with assms have "kmem_ready u"
    by (auto simp: kmem_ready_def settled_pushed quiet_settled in_section_def lk_free_def dest: quiet_free)
  from uvm_inv_ready [OF assms(2) this assms(4-6)] show ?thesis .
qed

section \<open>A process with one page\<close>

text \<open>Root table at \<open>0x87FFB000\<close>, the tables below it at \<open>0x87FFC000\<close> and \<open>0x87FFD000\<close>, and the
  user page at \<open>0x87FFE000\<close> mapped readable and user_writable at address 0; no page is free.\<close>

definition root0 :: uint64 where "root0 = 0x87FFB000"
definition tab1 :: uint64 where "tab1 = 0x87FFC000"
definition tab0 :: uint64 where "tab0 = 0x87FFD000"
definition upage :: uint64 where "upage = 0x87FFE000"

lemmas demo_page_defs = root0_def tab1_def tab0_def upage_def

definition m_root :: mem where "m_root = (\<lambda>_. 0)"
definition m_tab1 :: mem where
  "m_tab1 = wr64 (pte_addr root0 2 0) (PA2PTE tab1 OR PTE_V) (memset m_root tab1 0 PGSIZE)"
definition m_tab0 :: mem where
  "m_tab0 = wr64 (pte_addr tab1 1 0) (PA2PTE tab0 OR PTE_V) (memset m_tab1 tab0 0 PGSIZE)"
definition m_page :: mem where
  "m_page = wr64 (pte_addr tab0 0 0) (PA2PTE upage OR (PTE_R OR PTE_W OR PTE_U) OR PTE_V) m_tab0"

definition uvm0 :: kmem where
  "uvm0 = kmem_boot\<lparr>mem := m_page, kend := root0\<rparr>"

lemma demo_al [simp]: "pg_al root0" "pg_al tab1" "pg_al tab0" "pg_al upage"
  by (simp_all add: pg_al_def demo_page_defs PGSIZE_def)

lemma m_root_rd: "pg_al t \<Longrightarrow> rd64 m_root (pte_addr t l va) = 0"
  by (rule rd64_zero_page) (simp_all add: m_root_def)

lemma not_valid_0 [simp]: "\<not> valid 0"
  by (simp add: valid_def)

lemma m_root_node: "node m_root root0 va d = (if d = 0 then Some root0 else None)"
  by (induction d) (simp_all add: m_root_rd)

lemma m_root_wf: "pt_wf m_root root0" "tables m_root root0 = {root0}"
  by (auto simp: pt_wf_def m_root_node tables_def) (simp add: root0_def)

lemma hung_tab1: "hung m_root root0 0 0 root0 tab1 (memset m_root tab1 0 PGSIZE) m_tab1"
  using m_root_wf by (simp add: hung_def m_root_node m_root_rd m_tab1_def) (simp add: demo_page_defs)

lemma hung_tab0: "hung m_tab1 root0 0 1 tab1 tab0 (memset m_tab1 tab0 0 PGSIZE) m_tab0"
proof -
  have "node m_tab1 root0 0 1 = Some tab1" using hung_node_next [OF hung_tab1, of 0] by simp
  moreover have "rd64 m_tab1 (pte_addr tab1 1 0) = 0" by (rule hung_rd_p [OF hung_tab1])
  moreover have "tables m_tab1 root0 = {tab1, root0}" using hung_tables [OF hung_tab1] m_root_wf by simp
  ultimately show ?thesis
    using hung_wf [OF hung_tab1] unfolding hung_def m_tab0_def
    by (simp del: node.simps) (simp add: demo_page_defs)
qed

lemma m_tab0_facts:
  "pt_wf m_tab0 root0" "tables m_tab0 root0 = {tab0, tab1, root0}" "leaf m_tab0 root0 va = 0"
  "node m_tab0 root0 0 2 = Some tab0"
proof -
  show "pt_wf m_tab0 root0" by (rule hung_wf [OF hung_tab0])
  show "tables m_tab0 root0 = {tab0, tab1, root0}"
    using hung_tables [OF hung_tab0] hung_tables [OF hung_tab1] m_root_wf by simp
  have "leaf m_root root0 va = 0" by (simp add: leaf_def m_root_node)
  then show "leaf m_tab0 root0 va = 0" using hung_leaf [OF hung_tab0] hung_leaf [OF hung_tab1] by simp
  show "node m_tab0 root0 0 2 = Some tab0" using hung_node_next [OF hung_tab0, of 0] by (simp only: Suc_1) simp
qed

lemma m_page_facts:
  "pt_wf m_page root0" "tables m_page root0 = {tab0, tab1, root0}"
  "leaf m_page root0 va = (if same_to 3 0 va then PA2PTE upage OR (PTE_R OR PTE_W OR PTE_U) OR PTE_V else 0)"
  using pt_wf_cong [of m_page root0 m_tab0] tables_cong [of m_page root0 m_tab0]
    leaf_store(2) [OF m_tab0_facts(1,4)] leaf_store(1) [OF m_tab0_facts(1,4)] m_tab0_facts
  by (simp_all add: m_page_def)

lemma demo_pte:
  "valid (PA2PTE upage OR (PTE_R OR PTE_W OR PTE_U) OR PTE_V)"
  "(PA2PTE upage OR (PTE_R OR PTE_W OR PTE_U) OR PTE_V) AND PTE_U \<noteq> 0"
  "(PA2PTE upage OR (PTE_R OR PTE_W OR PTE_U) OR PTE_V) AND PTE_W \<noteq> 0"
  "PTE2PA (PA2PTE upage OR (PTE_R OR PTE_W OR PTE_U) OR PTE_V) = upage"
  by (simp_all add: valid_def upage_def pte_flag_defs PA2PTE_def PTE2PA_def)

lemma user_page_demo: "user_page m_page root0 va = (if va < MAXVA \<and> vpn va = 0 then Some upage else None)"
  using same_to_vpn [of 0 va] demo_pte
  by (auto simp: user_page_def m_page_facts Let_def vpn_def MAXVA_eq)

lemma uvm_inv_demo: "uvm_inv uvm0 root0 {}"
proof -
  have "page_ok root0 x" if "x \<in> {tab0, tab1, root0, upage}" for x
    using that by (auto simp: page_ok_def demo_page_defs PHYSTOP_def KERNBASE_def PGSIZE_def)
  then have "vm_inv uvm0 root0 {}"
    using m_page_facts kmem_ready_boot
    by (auto simp: vm_inv_def uvm0_def free_pages_def kmem_ready_def mycpu_def lk_free_def intro!: exI [of _ "[]"])
      (simp add: root0_def)
  moreover have "page_ok root0 upage" "upage \<noteq> 0" "upage \<notin> {tab0, tab1, root0}"
    by (auto simp: page_ok_def demo_page_defs PHYSTOP_def KERNBASE_def PGSIZE_def)
  ultimately show ?thesis
    by (auto simp: uvm_inv_def user_page_demo uvm0_def m_page_facts split: if_splits)
qed

theorem mappages_maps_exactly_witness:
  "\<exists>r u. mappages root0 (of_nat PGSIZE) (of_nat (1 * PGSIZE)) 0x80000000 PTE_R uvm0 = Done r u \<and>
     leaf (mem u) root0 0 = leaf m_page root0 0"
proof -
  have v: "vpn (of_nat PGSIZE) = 1" "vpn 0 = 0" by (simp_all add: vpn_def PGSIZE_def)
  have nv: "\<forall>va'<MAXVA. vpn (of_nat PGSIZE) \<le> vpn va' \<and> vpn va' < vpn (of_nat PGSIZE) + 1 \<longrightarrow>
      \<not> valid (leaf (mem uvm0) root0 va')"
    using same_to_vpn [of 0] by (auto simp: v m_page_facts uvm0_def MAXVA_eq)
  have inv: "vm_inv uvm0 root0 {}" using uvm_inv_demo by (simp add: uvm_inv_def)
  have "unat (of_nat PGSIZE :: uint64) mod PGSIZE = 0"
    "unat (of_nat PGSIZE :: uint64) + 1 * PGSIZE \<le> unat MAXVA"
    by (simp_all add: PGSIZE_def MAXVA_eq)
  from mappages_maps_exactly [OF inv this(1) zero_less_one this(2) nv, of "0x80000000" PTE_R]
  obtain r u where "mappages root0 (of_nat PGSIZE) (of_nat (1 * PGSIZE)) 0x80000000 PTE_R uvm0 = Done r u"
    and "\<forall>va'<MAXVA. \<not> vpn (of_nat PGSIZE) \<le> vpn va' \<longrightarrow> leaf (mem u) root0 va' = leaf (mem uvm0) root0 va'"
    by auto
  then show ?thesis by (auto simp: v uvm0_def MAXVA_eq)
qed

theorem copyout_copyin_round_trip_witness:
  "\<exists>u. copyout root0 100 [1, 2, 3] uvm0 = Done 0 u \<and> copyin root0 100 3 u = Done (0, [1, 2, 3]) u"
proof -
  have "user_writable (mem uvm0) root0 (100 + of_nat i)" if "i < length [1, 2, 3 :: byte]" for i
  proof -
    have "i = 0 \<or> i = 1 \<or> i = 2" using that by auto
    then have "100 + of_nat i < MAXVA" "vpn (100 + of_nat i) = 0"
      by (auto simp: MAXVA_eq vpn_def PGSIZE_def)
    then show ?thesis
      using same_to_vpn [of 0 "100 + of_nat i"] demo_pte
      by (simp add: user_writable_def user_page_demo uvm0_def m_page_facts) (simp add: vpn_def MAXVA_eq)
  qed
  then show ?thesis
    using copyout_copyin_round_trip [OF uvm_inv_demo, of 100 "[1, 2, 3]"] by (auto simp: numeral_3_eq_3)
qed

end
