(* ===== verification/Pipe.thy ===== *)
theory Pipe
  imports Fs Pagetable
begin

text \<open>
  Pipes (\<open>kernel/pipe.c\<close>). A pipe fills a page of the allocator; the model keeps the structures in a
  table indexed by the address of that page, which stays allocated as long as one end is open. The
  two counters run freely and wrap, so the contents are a ring. A writer or reader that sleeps leaves
  its loop with \<open>Swtch\<close>; when it runs again it takes the lock back (\<open>sleep_resume\<close>) and enters the
  same loop, a writer with the number of bytes it has already written.
\<close>

section \<open>State\<close>

definition PIPESIZE :: nat where "PIPESIZE = 512"

record pipe =
  pdata :: "nat \<Rightarrow> byte"
  nread :: uint
  nwrite :: uint
  readopen :: bool
  writeopen :: bool

record pipest = fsst +
  pipes :: "uint64 \<Rightarrow> pipe"

definition upd_pipe :: "uint64 \<Rightarrow> (pipe \<Rightarrow> pipe) \<Rightarrow> ('z pipest_scheme, unit) kern" where
  "upd_pipe pi f = modify (\<lambda>s. s\<lparr>pipes := (pipes s)(pi := f (pipes s pi))\<rparr>)"

abbreviation get_pipe :: "uint64 \<Rightarrow> ('z pipest_scheme, pipe) kern" where
  "get_pipe pi \<equiv> gets (\<lambda>s. pipes s pi)"

section \<open>Operations\<close>

definition pipeclose :: "uint64 \<Rightarrow> bool \<Rightarrow> ('z pipest_scheme, unit) kern" where
  "pipeclose pi writable =
     Seq (acquire (PipeLock pi)) (
     Seq (if writable then
            Seq (upd_pipe pi (\<lambda>x. x\<lparr>writeopen := False\<rparr>)) (wakeup (NreadChan pi))
          else
            Seq (upd_pipe pi (\<lambda>x. x\<lparr>readopen := False\<rparr>)) (wakeup (NwriteChan pi))) (
     Do (get_pipe pi) (\<lambda>x.
     if \<not> readopen x \<and> \<not> writeopen x then
       Seq (release (PipeLock pi)) (kfree pi)
     else release (PipeLock pi))))"

text \<open>The loop of \<open>pipewrite\<close> with the lock held, \<open>i\<close> of \<open>n\<close> bytes written.\<close>

function pipewrite_loop :: "nat \<Rightarrow> uint64 \<Rightarrow> uint64 \<Rightarrow> nat \<Rightarrow> nat \<Rightarrow> ('z pipest_scheme, int) kern" where
  "pipewrite_loop pr pi addr i n =
     (if i < n then
        Do (get_pipe pi) (\<lambda>x.
        Do (if \<not> readopen x then return True else killed pr) (\<lambda>dead.
        if dead then Seq (release (PipeLock pi)) (return (- 1)) else
        if nwrite x = nread x + of_nat PIPESIZE then
          Seq (wakeup (NreadChan pi))
          (sleep (NwriteChan pi) (PipeLock pi))
        else
          Do (gets (\<lambda>s. pagetable (procs s pr))) (\<lambda>pt.
          Do (copyin pt (addr + of_nat i) 1) (\<lambda>(r, bs).
          if r = - 1 then
            Seq (wakeup (NreadChan pi)) (Seq (release (PipeLock pi)) (return (int i)))
          else
            Seq (upd_pipe pi (\<lambda>x. x\<lparr>pdata := (pdata x)(unat (nwrite x) mod PIPESIZE := hd bs), nwrite := nwrite x + 1\<rparr>))
            (pipewrite_loop pr pi addr (i + 1) n)))))
      else
        Seq (wakeup (NreadChan pi)) (
        Seq (release (PipeLock pi))
        (return (int i))))"
  by auto

termination pipewrite_loop
  by (relation "measure (\<lambda>(_, _, _, i, n). n - i)") auto

declare pipewrite_loop.simps [simp del]

definition pipewrite :: "uint64 \<Rightarrow> uint64 \<Rightarrow> int \<Rightarrow> ('z pipest_scheme, int) kern" where
  "pipewrite pi addr n =
     Do cur (\<lambda>pr.
     Seq (acquire (PipeLock pi))
     (pipewrite_loop pr pi addr 0 (nat n)))"

text \<open>The second loop of \<open>piperead\<close>: \<open>k\<close> bytes are still wanted.\<close>

primrec piperead_copy :: "nat \<Rightarrow> uint64 \<Rightarrow> uint64 \<Rightarrow> nat \<Rightarrow> nat \<Rightarrow> ('z pipest_scheme, nat) kern" where
  "piperead_copy pr pi addr i 0 = return i"
| "piperead_copy pr pi addr i (Suc k) =
     Do (get_pipe pi) (\<lambda>x.
     if nread x = nwrite x then return i else
     Seq (upd_pipe pi (\<lambda>x. x\<lparr>nread := nread x + 1\<rparr>)) (
     Do (gets (\<lambda>s. pagetable (procs s pr))) (\<lambda>pt.
     Do (copyout pt (addr + of_nat i) [pdata x (unat (nread x) mod PIPESIZE)]) (\<lambda>r.
     if r = - 1 then return i else
     piperead_copy pr pi addr (Suc i) k))))"

definition piperead_loop :: "nat \<Rightarrow> uint64 \<Rightarrow> uint64 \<Rightarrow> nat \<Rightarrow> ('z pipest_scheme, int) kern" where
  "piperead_loop pr pi addr n =
     Do (get_pipe pi) (\<lambda>x.
     if nread x = nwrite x \<and> writeopen x then
       Do (killed pr) (\<lambda>k.
       if k then Seq (release (PipeLock pi)) (return (- 1)) else
       sleep (NreadChan pi) (PipeLock pi))
     else
       Do (piperead_copy pr pi addr 0 n) (\<lambda>i.
       Seq (wakeup (NwriteChan pi)) (
       Seq (release (PipeLock pi))
       (return (int i)))))"

definition piperead :: "uint64 \<Rightarrow> uint64 \<Rightarrow> int \<Rightarrow> ('z pipest_scheme, int) kern" where
  "piperead pi addr n =
     Do cur (\<lambda>pr.
     Seq (acquire (PipeLock pi))
     (piperead_loop pr pi addr (nat n)))"

section \<open>The contents of a pipe\<close>

interpretation pipe_ring: ring PIPESIZE
  by unfold_locales (simp_all add: PIPESIZE_def)

definition pqueue :: "pipe \<Rightarrow> byte list" where
  "pqueue x = ring_contents PIPESIZE (pdata x) (nread x) (nwrite x)"

definition pipe_room :: "pipe \<Rightarrow> nat" where
  "pipe_room x = PIPESIZE - length (pqueue x)"

definition pipe_ok :: "pipe \<Rightarrow> bool" where
  "pipe_ok x \<longleftrightarrow> length (pqueue x) \<le> PIPESIZE"

definition pipe_put :: "byte \<Rightarrow> pipe \<Rightarrow> pipe" where
  "pipe_put b x = x\<lparr>pdata := (pdata x)(unat (nwrite x) mod PIPESIZE := b), nwrite := nwrite x + 1\<rparr>"

lemma pipe_full:
  assumes "pipe_ok x"
  shows "nwrite x = nread x + of_nat PIPESIZE \<longleftrightarrow> pipe_room x = 0"
proof -
  have "nwrite x = nread x + of_nat PIPESIZE \<longleftrightarrow> unat (nwrite x - nread x) = PIPESIZE"
  proof
    assume "unat (nwrite x - nread x) = PIPESIZE"
    moreover have "word_of_nat (unat (nwrite x - nread x)) = nwrite x - nread x" by simp
    ultimately have "nwrite x - nread x = of_nat PIPESIZE" by simp
    then show "nwrite x = nread x + of_nat PIPESIZE" by (simp add: algebra_simps)
  qed (simp add: PIPESIZE_def)
  with assms show ?thesis by (auto simp: pipe_ok_def pipe_room_def pqueue_def)
qed

lemma pqueue_put:
  assumes "pipe_ok x" and "pipe_room x \<noteq> 0"
  shows "pqueue (pipe_put b x) = pqueue x @ [b]"
  using assms pipe_ring.push [of "nwrite x" "nread x" "pdata x" b]
  by (simp add: pqueue_def pipe_ok_def pipe_room_def pipe_put_def PIPESIZE_def)

lemma pqueue_take:
  assumes "nread x \<noteq> nwrite x"
  shows "pqueue x = pdata x (unat (nread x) mod PIPESIZE) # pqueue (x\<lparr>nread := nread x + 1\<rparr>)"
  using ring_pop [OF assms] by (simp add: pqueue_def)

lemma pqueue_Nil: "pqueue x = [] \<longleftrightarrow> nread x = nwrite x"
proof
  assume "pqueue x = []"
  then have "length (pqueue x) = 0" by simp
  then have "unat (nwrite x - nread x) = 0" by (simp add: pqueue_def)
  then show "nread x = nwrite x" by (simp add: unat_eq_zero)
qed (simp add: pqueue_def)

section \<open>Writing\<close>

lemma section_pipes:
  assumes "quiet s"
  shows "in_section (PipeLock pi) s ((enter (PipeLock pi) s)\<lparr>pipes := P\<rparr>)"
  using assms by (simp add: in_section_def)

lemma copyin_byte:
  assumes "in_section (PipeLock pi) s u" and "user_buffer s va n" and "i < n"
    and "mem u = mem s" "kend u = kend s" "freelist u = freelist s" "procs u = procs s"
  shows "copyin (my_root s) (va + of_nat i) 1 u = Done (0, [user_bytes s va n ! i]) u"
proof -
  obtain F where "uvm_inv s (my_root s) F" using assms(2) by (auto simp: user_buffer_def)
  from uvm_inv_section [OF assms(1) this _ assms(4-6)] have "uvm_inv u (my_root s) F" by simp
  moreover have "unat (va + of_nat i) + 1 \<le> 2 ^ 38"
    using assms(2,3) unat_of_nat64 [of i] unat_add_small [of va "of_nat i"] by (simp add: user_buffer_def)
  ultimately have "copyin (my_root s) (va + of_nat i) 1 u = Done (0, map (\<lambda>j. the (ubyte (mem u) (my_root s) (va + of_nat i + of_nat j))) [0..<1]) u"
    using assms by (intro copyin_spec) (auto simp: user_buffer_def)
  then show ?thesis using assms(3,4) by (simp add: user_bytes_def)
qed

definition pipe_puts :: "byte list \<Rightarrow> pipe \<Rightarrow> pipe" where
  "pipe_puts bs = fold pipe_put bs"

lemma pipe_puts_simps [simp]:
  "pipe_puts [] x = x" "pipe_puts (b # bs) x = pipe_puts bs (pipe_put b x)"
  by (simp_all add: pipe_puts_def)

lemma pipe_put_ok:
  assumes "pipe_ok x" and "pipe_room x \<noteq> 0"
  shows "pipe_ok (pipe_put b x)" "pipe_room (pipe_put b x) = pipe_room x - 1"
  using assms by (simp_all add: pipe_ok_def pipe_room_def pqueue_put)

lemma pipe_put_flags [simp]:
  "readopen (pipe_put b x) = readopen x" "writeopen (pipe_put b x) = writeopen x" "nread (pipe_put b x) = nread x"
  by (simp_all add: pipe_put_def)

lemma pipe_puts_queue:
  "pipe_ok x \<Longrightarrow> length bs \<le> pipe_room x \<Longrightarrow> pqueue (pipe_puts bs x) = pqueue x @ bs"
  by (induction bs arbitrary: x) (simp_all add: pipe_put_ok pqueue_put)

lemma pipewrite_loop_spec:
  fixes s :: "'z pipest_scheme"
  assumes q: "quiet s" and b: "user_buffer s va n" and k: "\<not> pkilled (procs s (me s))"
    and "pipe_ok (P pi)" and "readopen (P pi)" and "i \<le> n"
  defines "T \<equiv> \<lambda>Q. s\<lparr>pipes := Q, procs := woken (NreadChan pi) (Some (me s)) (procs s)\<rparr>"
  shows "pipewrite_loop (me s) pi va i n ((enter (PipeLock pi) s)\<lparr>pipes := P\<rparr>) =
     (let bs = drop i (user_bytes s va n); Q = P(pi := pipe_puts (take (pipe_room (P pi)) bs) (P pi)) in
      if length bs \<le> pipe_room (P pi) then Done (int n) (T Q) else Stop Swtch (asleep (NwriteChan pi) (T Q)))"
  using assms(4-6)
proof (induction "n - i" arbitrary: i P)
  case 0
  let ?u = "(enter (PipeLock pi) s)\<lparr>pipes := P\<rparr>"
  have "wakeup (NreadChan pi) ?u = Done () (?u\<lparr>procs := woken (NreadChan pi) (Some (me s)) (procs ?u)\<rparr>)"
    using q by (rule wakeup_in_section [where lk = "PipeLock pi"]) simp_all
  moreover have e: "drop i (user_bytes s va n) = []" using 0 by (simp add: user_bytes_def)
  ultimately show ?case
    using 0 q unfolding Let_def e take_Nil pipe_puts_simps fun_upd_triv
    by (simp add: pipewrite_loop.simps [of _ _ _ i] Do_def return_def quiet_release [of s] T_def)
      (simp add: enter_def upd_mycpu_def)
next
  case (Suc j)
  let ?u = "(enter (PipeLock pi) s)\<lparr>pipes := P\<rparr>" and ?bs = "user_bytes s va n"
  have i: "i < n" using Suc by simp
  have sec: "in_section (PipeLock pi) s ?u" using q by (rule section_pipes)
  have same: "mem ?u = mem s" "kend ?u = kend s" "freelist ?u = freelist s" "procs ?u = procs s"
    by (simp_all add: enter_def upd_mycpu_def)
  have kl: "killed (me s) ?u = Done False ?u" using killed_in_section [OF sec, of "me s"] k same by simp
  have ci: "copyin (my_root s) (va + of_nat i) 1 ?u = Done (0, [?bs ! i]) ?u"
    using copyin_byte [OF sec b i same] .
  have d: "drop i ?bs = ?bs ! i # drop (Suc i) ?bs"
    using i Cons_nth_drop_Suc [of i ?bs] by (simp add: user_bytes_def)
  show ?case
  proof (cases "pipe_room (P pi) = 0")
    case True
    let ?v = "s\<lparr>pipes := P, procs := woken (NreadChan pi) (Some (me s)) (procs s)\<rparr>"
    have "wakeup (NreadChan pi) ?u = Done () (?u\<lparr>procs := woken (NreadChan pi) (Some (me s)) (procs ?u)\<rparr>)"
      using q by (rule wakeup_in_section [where lk = "PipeLock pi"]) simp_all
    moreover have "?u\<lparr>procs := woken (NreadChan pi) (Some (me s)) (procs ?u)\<rparr> = enter (PipeLock pi) ?v"
      by (simp add: enter_def upd_mycpu_def)
    moreover have "quiet ?v" using q by (simp add: quiet_def mycpu_def lk_free_def)
    ultimately show ?thesis
      using i True Suc.prems pipe_full [OF Suc.prems(1)] kl d sleep_asleep [of ?v "PipeLock pi"]
      by (simp add: pipewrite_loop.simps [of _ _ _ i] kern_simps T_def)
  next
    case False
    let ?P = "P(pi := pipe_put (?bs ! i) (P pi))"
    have "pipewrite_loop (me s) pi va i n ?u = pipewrite_loop (me s) pi va (Suc i) n ((enter (PipeLock pi) s)\<lparr>pipes := ?P\<rparr>)"
      using i False Suc.prems pipe_full [OF Suc.prems(1)] kl ci same
      by (subst pipewrite_loop.simps) (simp add: kern_simps upd_pipe_def pipe_put_def)
    moreover obtain r where "pipe_room (P pi) = Suc r" using False by (cases "pipe_room (P pi)") auto
    ultimately show ?thesis
      using Suc(1) [of "Suc i" ?P] Suc(2-) i False pipe_put_ok [OF Suc.prems(1) False]
      by (simp add: d Let_def)
  qed
qed

section \<open>Reading\<close>

definition pipe_drop :: "nat \<Rightarrow> pipe \<Rightarrow> pipe" where
  "pipe_drop j x = x\<lparr>nread := nread x + of_nat j\<rparr>"

lemma pipe_drop_0 [simp]: "pipe_drop 0 x = x"
  by (simp add: pipe_drop_def)

lemma pipe_drop_Suc: "pipe_drop (Suc j) x = pipe_drop j (x\<lparr>nread := nread x + 1\<rparr>)"
  by (simp add: pipe_drop_def)

lemma pqueue_drop: "j \<le> length (pqueue x) \<Longrightarrow> pqueue (pipe_drop j x) = drop j (pqueue x)"
proof (induction j arbitrary: x)
  case (Suc j)
  then have ne: "nread x \<noteq> nwrite x" using pqueue_Nil [of x] by auto
  show ?case using Suc pqueue_take [OF ne] by (simp add: pipe_drop_Suc)
qed simp

lemma mem_before_pipes: "s\<lparr>mem := m, pipes := P\<rparr> = s\<lparr>pipes := P, mem := m\<rparr>"
  by simp

lemma piperead_copy_spec:
  fixes s :: "'z pipest_scheme"
  assumes q: "quiet s"
    and "uvm_inv (s\<lparr>mem := m\<rparr>) (my_root s) F" and "unat va + i + k \<le> 2 ^ 38"
    and "\<forall>j<i + k. user_writable m (my_root s) (va + of_nat j)"
  shows "\<exists>m'. piperead_copy (me s) pi va i k ((enter (PipeLock pi) s)\<lparr>pipes := P, mem := m\<rparr>) =
      Done (i + length (take k (pqueue (P pi))))
        ((enter (PipeLock pi) s)\<lparr>pipes := P(pi := pipe_drop (length (take k (pqueue (P pi)))) (P pi)), mem := m'\<rparr>) \<and>
      uvm_inv (s\<lparr>mem := m'\<rparr>) (my_root s) F \<and>
      user_written m m' (my_root s) (va + of_nat i) (take k (pqueue (P pi)))"
  using assms(2-4)
proof (induction k arbitrary: i m P)
  case 0
  then show ?case by (intro exI [of _ m]) (simp add: return_def user_written_Nil)
next
  case (Suc k)
  show ?case
  proof (cases "nread (P pi) = nwrite (P pi)")
    case True
    then have "pqueue (P pi) = []" by (simp add: pqueue_Nil)
    with True Suc.prems(1) show ?thesis
      by (intro exI [of _ m]) (simp add: kern_simps user_written_Nil)
  next
    case False
    let ?b = "pdata (P pi) (unat (nread (P pi)) mod PIPESIZE)" and ?e = "enter (PipeLock pi) s"
    define x where "x = (P pi)\<lparr>nread := nread (P pi) + 1\<rparr>"
    define P1 where "P1 = P(pi := x)"
    have P1: "P1 pi = x" "P1(pi := y) = P(pi := y)" for y by (simp_all add: P1_def)
    let ?u = "?e\<lparr>pipes := P1, mem := m\<rparr>" and ?r = "take k (pqueue x)"
    have sec: "in_section (PipeLock pi) (s\<lparr>mem := m\<rparr>) ?u"
      using q by (simp add: in_section_def quiet_def mycpu_def lk_free_def enter_def upd_mycpu_def)
    have inv: "uvm_inv ?u (my_root s) F"
      by (rule uvm_inv_section [OF sec Suc.prems(1)]) (simp_all add: enter_def upd_mycpu_def)
    have len: "unat (va + of_nat i) + 1 \<le> 2 ^ 38" "unat (va + of_nat i) = unat va + i"
      using Suc.prems(2) unat_of_nat64 [of i] unat_add_small [of va "of_nat i"] by simp_all
    obtain m1 where m1: "copyout (my_root s) (va + of_nat i) [?b] ?u = Done 0 (?u\<lparr>mem := m1\<rparr>)"
      "uvm_inv (?u\<lparr>mem := m1\<rparr>) (my_root s) F" "user_written m m1 (my_root s) (va + of_nat i) [?b]"
      using copyout_spec [OF inv, of "va + of_nat i" "[?b]"] len Suc.prems(3) by auto
    have inv1: "uvm_inv (s\<lparr>mem := m1\<rparr>) (my_root s) F"
      by (rule uvm_inv_ready [OF m1(2)]) (use Suc.prems(1) in \<open>simp_all add: enter_def upd_mycpu_def uvm_inv_def vm_inv_def kmem_ready_def mycpu_def lk_free_def\<close>)
    have w1: "\<forall>j<Suc i + k. user_writable m1 (my_root s) (va + of_nat j)"
      using m1(3) Suc.prems(3) by (simp add: user_written_def user_writable_def)
    have "unat va + Suc i + k \<le> 2 ^ 38" using Suc.prems(2) by simp
    from Suc.IH [OF inv1 this w1, of P1] obtain m' where m':
      "piperead_copy (me s) pi va (Suc i) k (?e\<lparr>pipes := P1, mem := m1\<rparr>) =
         Done (Suc i + length ?r) (?e\<lparr>pipes := P(pi := pipe_drop (length ?r) x), mem := m'\<rparr>)"
      "uvm_inv (s\<lparr>mem := m'\<rparr>) (my_root s) F"
      "user_written m1 m' (my_root s) (va + of_nat (Suc i)) ?r"
      unfolding P1 by (elim exE conjE)
    have e: "va + of_nat (Suc i) = va + of_nat i + of_nat (length [?b])" by simp
    have "unat (va + of_nat i) + length [?b] + length ?r \<le> 2 ^ 38" using Suc.prems(2) len(2) by simp
    from user_written_append [OF m1(3) m'(3) [unfolded e] this]
    have uw: "user_written m m' (my_root s) (va + of_nat i) (?b # ?r)" by simp
    have c1: "piperead_copy (me s) pi va i (Suc k) (?e\<lparr>pipes := P, mem := m\<rparr>) =
      piperead_copy (me s) pi va (Suc i) k (?e\<lparr>pipes := P1, mem := m1\<rparr>)"
      using False m1(1) by (simp add: Do_def gets_def modify_def upd_pipe_def x_def [symmetric] P1_def [symmetric])
        (simp add: enter_def upd_mycpu_def mem_before_pipes)
    have c2: "take (Suc k) (pqueue (P pi)) = ?b # ?r" using pqueue_take [OF False] by (simp add: x_def)
    have c3: "pipe_drop (length (?b # ?r)) (P pi) = pipe_drop (length ?r) x"
      by (simp only: list.size x_def pipe_drop_Suc add_Suc_right add_0_right)
    have c4: "i + length (?b # ?r) = Suc i + length ?r" by simp
    show ?thesis unfolding c1 c2 c3 c4 using m'(1,2) uw by (intro exI [of _ m'] conjI)
  qed
qed

lemma user_buffer_quiet: "quiet s \<Longrightarrow> in_section (PipeLock pi) s (enter (PipeLock pi) s)"
  by (simp add: in_section_def)

text \<open>C20: \<open>pipewrite\<close> is an append to a bounded queue. From a mapped buffer the bytes that fit are
  appended, in order and across the wrap of the counters; when all of them fit, the call returns their
  number, and otherwise the writer ends up asleep on the pipe with the queue full. Either way the
  readers asleep on the pipe become runnable, and nothing else of the state changes.\<close>

theorem pipewrite_appends:
  fixes s :: "'z pipest_scheme"
  assumes "quiet s" and "user_buffer s addr n" and "\<not> pkilled (procs s (me s))"
    and "pipe_ok (pipes s pi)" and "readopen (pipes s pi)"
  shows "\<exists>x. pqueue x = pqueue (pipes s pi) @ take (pipe_room (pipes s pi)) (user_bytes s addr n) \<and>
    (let t = s\<lparr>pipes := (pipes s)(pi := x), procs := woken (NreadChan pi) (Some (me s)) (procs s)\<rparr> in
     pipewrite pi addr (int n) s =
       (if n \<le> pipe_room (pipes s pi) then Done (int n) t else Stop Swtch (asleep (NwriteChan pi) t)))"
proof -
  let ?bs = "user_bytes s addr n"
  let ?x = "pipe_puts (take (pipe_room (pipes s pi)) ?bs) (pipes s pi)"
  have "pqueue ?x = pqueue (pipes s pi) @ take (pipe_room (pipes s pi)) ?bs"
    using assms(4) by (intro pipe_puts_queue) simp_all
  moreover have "pipewrite pi addr (int n) s = pipewrite_loop (me s) pi addr 0 n ((enter (PipeLock pi) s)\<lparr>pipes := pipes s\<rparr>)"
    using assms(1) by (simp add: pipewrite_def Do_def quiet_cur quiet_acquire) (simp add: enter_def upd_mycpu_def)
  moreover have "length ?bs = n" by (simp add: user_bytes_def)
  ultimately show ?thesis
    using pipewrite_loop_spec [of s addr n "pipes s" pi 0, OF assms]
    by (intro exI [of _ ?x]) (simp add: Let_def)
qed

text \<open>C21: \<open>piperead\<close> removes from the front of the queue. When there is something to read, or the
  write end is closed, the first \<open>n\<close> bytes, or all if there are fewer, arrive in order in the caller's
  buffer and only there, their number is returned, the rest stays queued, and the sleeping writers
  become runnable.\<close>

theorem piperead_takes:
  fixes s :: "'z pipest_scheme"
  assumes "quiet s" and "uvm_inv s (my_root s) F" and "unat addr + n \<le> 2 ^ 38"
    and "\<forall>i<n. user_writable (mem s) (my_root s) (addr + of_nat i)"
    and "pqueue (pipes s pi) \<noteq> [] \<or> \<not> writeopen (pipes s pi)"
  shows "\<exists>x m. piperead pi addr (int n) s = Done (int (length (take n (pqueue (pipes s pi)))))
      (s\<lparr>pipes := (pipes s)(pi := x), mem := m, procs := woken (NwriteChan pi) (Some (me s)) (procs s)\<rparr>) \<and>
    pqueue x = drop n (pqueue (pipes s pi)) \<and>
    user_written (mem s) m (my_root s) addr (take n (pqueue (pipes s pi)))"
proof -
  let ?q = "pqueue (pipes s pi)" and ?e = "enter (PipeLock pi) s"
  let ?x = "pipe_drop (length (take n ?q)) (pipes s pi)"
  have e: "?e\<lparr>pipes := pipes s, mem := mem s\<rparr> = ?e" by (simp add: enter_def upd_mycpu_def)
  have "uvm_inv (s\<lparr>mem := mem s\<rparr>) (my_root s) F" "unat addr + 0 + n \<le> 2 ^ 38"
    "\<forall>i<0 + n. user_writable (mem s) (my_root s) (addr + of_nat i)" using assms by simp_all
  from piperead_copy_spec [OF assms(1) this, of pi "pipes s"] obtain m where
    m: "piperead_copy (me s) pi addr 0 n ?e = Done (length (take n ?q)) (?e\<lparr>pipes := (pipes s)(pi := ?x), mem := m\<rparr>)"
      "user_written (mem s) m (my_root s) addr (take n ?q)"
    unfolding e by auto
  let ?u = "?e\<lparr>pipes := (pipes s)(pi := ?x), mem := m\<rparr>"
  have g: "(nread (pipes s pi) = nwrite (pipes s pi) \<and> writeopen (pipes s pi)) = False"
    using assms(5) by (simp add: pqueue_Nil)
  have "wakeup (NwriteChan pi) ?u = Done () (?u\<lparr>procs := woken (NwriteChan pi) (Some (me s)) (procs ?u)\<rparr>)"
    using assms(1) by (rule wakeup_in_section [where lk = "PipeLock pi"]) simp_all
  moreover have "pipes ?e = pipes s" by (simp add: enter_def upd_mycpu_def)
  moreover have "pqueue ?x = drop n ?q" using pqueue_drop [of "length (take n ?q)" "pipes s pi"] by (simp add: min_def)
  moreover have "?u\<lparr>procs := W, cpus := cpus s, locks := locks s\<rparr> =
      s\<lparr>pipes := (pipes s)(pi := ?x), mem := m, procs := W\<rparr>" for W
    by (simp add: enter_def upd_mycpu_def)
  ultimately show ?thesis
    using m assms(1)
    by (intro exI [of _ ?x] exI [of _ m]) (simp add: piperead_def piperead_loop_def Do_def return_def gets_def
        quiet_cur quiet_acquire quiet_release [of s] g del: length_take)
qed

lemma copyout_beyond:
  assumes "src \<noteq> []" and "MAXVA \<le> PGROUNDDOWN va"
  shows "copyout root va src s = Done (- 1) s"
  using assms by (subst copyout.simps) (simp add: return_def)

text \<open>C28: a byte that \<open>piperead\<close> can not deliver is lost. With a destination beyond the address space the
  call returns 0, as at the end of the stream, but the counter has moved and the head of the queue
  is gone.\<close>

theorem piperead_loses_a_byte:
  fixes s :: "'z pipest_scheme"
  assumes "quiet s" and "pqueue (pipes s pi) = b # q" and "MAXVA \<le> PGROUNDDOWN addr" and "0 < n"
  shows "\<exists>t. piperead pi addr n s = Done 0 t \<and> pqueue (pipes t pi) = q"
proof -
  let ?e = "enter (PipeLock pi) s"
  define x where "x = (pipes s pi)\<lparr>nread := nread (pipes s pi) + 1\<rparr>"
  have ne: "nread (pipes s pi) \<noteq> nwrite (pipes s pi)" using assms(2) pqueue_Nil [of "pipes s pi"] by simp
  obtain k where k: "nat n = Suc k" using assms(4) by (cases "nat n") auto
  let ?u = "?e\<lparr>pipes := (pipes s)(pi := x)\<rparr>"
  have p: "pipes ?e = pipes s" by (simp add: enter_def upd_mycpu_def)
  have "piperead_copy (me s) pi addr 0 (nat n) ?e = Done 0 ?u"
    using ne assms(3) by (simp add: k Do_def gets_def upd_pipe_def modify_def return_def copyout_beyond p x_def)
  moreover have "wakeup (NwriteChan pi) ?u = Done () (?u\<lparr>procs := woken (NwriteChan pi) (Some (me s)) (procs ?u)\<rparr>)"
    using assms(1) by (rule wakeup_in_section [where lk = "PipeLock pi"]) simp_all
  moreover have "pqueue x = q" using pqueue_take [OF ne] assms(2) by (simp add: x_def)
  ultimately show ?thesis
    using ne assms(1)
    by (simp add: piperead_def piperead_loop_def Do_def return_def gets_def quiet_cur quiet_acquire
        quiet_release [of s] p)
qed

section \<open>Process 0 and a pipe whose counters are about to wrap\<close>

definition wrapping_pipe :: pipe where
  "wrapping_pipe = \<lparr>pdata = of_nat, nread = 0xFFFFFFFE, nwrite = 1, readopen = True, writeopen = True\<rparr>"

definition fs0 :: fsst where
  "fs0 = logst.extend (log0\<lparr>mem := m_page, kend := root0, procs := procs0(0 := (procs0 0)\<lparr>pagetable := root0\<rparr>)\<rparr>)
     (fsst.fields \<lparr>sb_magic = FSMAGIC, sb_size = 2000, sb_nblocks = 1952, sb_ninodes = 200, sb_nlog = 31,
        sb_logstart = 2, sb_inodestart = 33, sb_bmapstart = 46\<rparr>
      (\<lambda>_. \<lparr>idev = 0, inum = 0, iref = 0, ivalid = False, itype = 0, imajor = 0, iminor = 0, inlink = 0, isize = 0,
        iaddrs = replicate 13 0\<rparr>))"

definition pipe0 :: pipest where
  "pipe0 = fsst.extend fs0 (pipest.fields (\<lambda>_. wrapping_pipe))"

lemma fs0_proj [simp]:
  "tp fs0 = tp uart0" "cpus fs0 = cpus uart0" "locks fs0 = locks uart0"
  "procs fs0 = procs0(0 := (procs0 0)\<lparr>pagetable := root0\<rparr>)" "mem fs0 = m_page" "kend fs0 = root0" "freelist fs0 = 0"
  by (simp_all add: fs0_def logst.defs log0_def bio0_def cons0_def cons.defs bio.defs uart.defs uart0_def kvm.defs
      kmem.defs kvm0_def del: uart0_proj)

lemma pipe0_proj [simp]:
  "tp pipe0 = tp uart0" "cpus pipe0 = cpus uart0" "locks pipe0 = locks uart0"
  "procs pipe0 = procs0(0 := (procs0 0)\<lparr>pagetable := root0\<rparr>)" "mem pipe0 = m_page" "kend pipe0 = root0"
  "freelist pipe0 = 0" "pipes pipe0 = (\<lambda>_. wrapping_pipe)"
  using fs0_proj by (simp_all add: pipe0_def fsst.defs pipest.defs del: fs0_proj)

lemma pipe0_quiet: "quiet pipe0" and me_pipe0: "me pipe0 = 0"
  using quiet_uart0 me_sched0 by (simp_all add: quiet_def me_def mycpu_def lk_free_def)

lemma wrapping_queue: "pqueue wrapping_pipe = [254, 255, 0]" 
  by (simp add: pqueue_def ring_contents_def wrapping_pipe_def PIPESIZE_def upt_rec [of 0] upt_rec [of "Suc 0"] upt_rec [of "Suc (Suc 0)"])

lemma demo_writable:
  assumes "unat va < 4096"
  shows "user_writable m_page root0 va"
proof -
  have "va < MAXVA" "vpn va = 0" using assms by (simp_all add: vpn_def MAXVA_eq PGSIZE_def word_less_nat_alt)
  then show ?thesis
    using same_to_vpn [of 0 va] demo_pte
    by (simp add: user_writable_def user_page_demo m_page_facts) (simp add: vpn_def MAXVA_eq)
qed

lemma uvm_inv_pipe0: "uvm_inv pipe0 (my_root pipe0) {}"
proof -
  have "kmem_ready pipe0" using pipe0_quiet by (simp add: kmem_ready_def quiet_def)
  moreover have "my_root pipe0 = root0" by (simp add: me_pipe0)
  ultimately show ?thesis
    using uvm_inv_ready [OF uvm_inv_demo, of pipe0] by (simp add: uvm0_def)
qed

theorem pipewrite_appends_witness:
  "\<exists>x t. pipewrite 0x87FFA000 0 600 pipe0 = Stop Swtch (asleep (NwriteChan 0x87FFA000) t) \<and>
     pipes t 0x87FFA000 = x \<and> length (pqueue x) = 512 \<and> take 3 (pqueue x) = [254, 255, 0]"
proof -
  have "user_buffer pipe0 0 600"
    using uvm_inv_pipe0 demo_writable by (auto simp: user_buffer_def me_pipe0 user_writable_def unat_of_nat64)
  moreover have "pipe_ok (pipes pipe0 0x87FFA000)" "pipe_room wrapping_pipe = 509"
    by (simp_all add: pipe_ok_def pipe_room_def wrapping_queue PIPESIZE_def)
  moreover have "\<not> pkilled (procs pipe0 (me pipe0))" "readopen wrapping_pipe"
    by (simp_all add: me_pipe0 procs0_def proc0_def wrapping_pipe_def)
  moreover have "length (user_bytes pipe0 0 600) = 600" by (simp add: user_bytes_def)
  ultimately show ?thesis
    using pipewrite_appends [of pipe0 0 600 "0x87FFA000"] pipe0_quiet by (auto simp: Let_def wrapping_queue)
qed

theorem piperead_takes_witness:
  "\<exists>t. piperead 0x87FFA000 16 2 pipe0 = Done 2 t \<and> ubyte (mem t) root0 16 = Some 254 \<and>
     ubyte (mem t) root0 17 = Some 255 \<and> pqueue (pipes t 0x87FFA000) = [0]"
proof -
  have "\<forall>i<2. user_writable (mem pipe0) (my_root pipe0) (16 + of_nat i)"
    using demo_writable by (auto simp: me_pipe0 less_2_cases_iff)
  then show ?thesis
    using piperead_takes [of pipe0 "{}" 16 2 "0x87FFA000"] pipe0_quiet uvm_inv_pipe0
    by (auto simp: wrapping_queue me_pipe0 user_written_def in_range_def)
qed

theorem piperead_loses_a_byte_witness:
  "\<exists>t. piperead 0x87FFA000 0x4000000000 10 pipe0 = Done 0 t \<and> pqueue (pipes t 0x87FFA000) = [255, 0]"
  using piperead_loses_a_byte [of pipe0 "0x87FFA000" 254 "[255, 0]" "0x4000000000" 10] pipe0_quiet
  by (simp add: wrapping_queue MAXVA_eq PGROUNDDOWN_def PGSIZE_def)

end
