(* ===== verification/File.thy ===== *)
theory File
  imports Pipe
begin

text \<open>
  The open-file table (\<open>kernel/file.c\<close>, \<open>kernel/file.h\<close>) and \<open>pipealloc\<close> of \<open>kernel/pipe.c\<close>. A pointer
  to an open file is its index in the table. The device switch has the one device that \<open>consoleinit\<close>
  installs.
\<close>

section \<open>State\<close>

datatype fdtype = FD_NONE | FD_PIPE | FD_INODE | FD_DEVICE

record open_file =
  ftype :: fdtype
  fref :: int
  readable :: bool
  writable :: bool
  fpipe :: uint64
  fip :: nat
  foff :: uint
  fmajor :: ushort

text \<open>\<open>stack_junk\<close> is what uninitialised bytes of a local structure happen to hold.\<close>

record filest = pipest +
  ftable :: "nat \<Rightarrow> open_file"
  stack_junk :: "nat \<Rightarrow> byte"

definition CONSOLE :: nat where "CONSOLE = 1"

definition devsw_read :: "nat \<Rightarrow> (bool \<Rightarrow> uint64 \<Rightarrow> int \<Rightarrow> ('z cons_scheme, int) kern) option" where
  "devsw_read major = (if major = CONSOLE then Some consoleread else None)"

definition devsw_write :: "nat \<Rightarrow> (bool \<Rightarrow> uint64 \<Rightarrow> int \<Rightarrow> ('z uart_scheme, int) kern) option" where
  "devsw_write major = (if major = CONSOLE then Some consolewrite else None)"

definition upd_file :: "nat \<Rightarrow> (open_file \<Rightarrow> open_file) \<Rightarrow> ('z filest_scheme, unit) kern" where
  "upd_file f g = modify (\<lambda>s. s\<lparr>ftable := (ftable s)(f := g (ftable s f))\<rparr>)"

abbreviation get_file :: "nat \<Rightarrow> ('z filest_scheme, open_file) kern" where
  "get_file f \<equiv> gets (\<lambda>s. ftable s f)"

section \<open>References\<close>

definition fileinit :: "('z filest_scheme, unit) kern" where
  "fileinit = initlock FtableLock ''ftable''"

definition filealloc :: "('z filest_scheme, nat option) kern" where
  "filealloc =
     Seq (acquire FtableLock) (
     Do (gets ftable) (\<lambda>t.
     case find (\<lambda>f. fref (t f) = 0) [0..<NFILE] of
       Some f \<Rightarrow>
         Seq (upd_file f (\<lambda>x. x\<lparr>fref := 1\<rparr>)) (
         Seq (release FtableLock)
         (return (Some f)))
     | None \<Rightarrow> Seq (release FtableLock) (return None)))"

definition filedup :: "nat \<Rightarrow> ('z filest_scheme, nat) kern" where
  "filedup f =
     Seq (acquire FtableLock) (
     Do (get_file f) (\<lambda>x.
     if fref x < 1 then panic ''filedup'' else
     Seq (upd_file f (\<lambda>x. x\<lparr>fref := fref x + 1\<rparr>)) (
     Seq (release FtableLock)
     (return f))))"

definition fileclose :: "nat \<Rightarrow> ('z filest_scheme, unit) kern" where
  "fileclose f =
     Seq (acquire FtableLock) (
     Do (get_file f) (\<lambda>x.
     if fref x < 1 then panic ''fileclose'' else
     Seq (upd_file f (\<lambda>x. x\<lparr>fref := fref x - 1\<rparr>)) (
     Do (get_file f) (\<lambda>ff.
     if fref ff > 0 then release FtableLock else
     Seq (upd_file f (\<lambda>x. x\<lparr>fref := 0, ftype := FD_NONE\<rparr>)) (
     Seq (release FtableLock) (
     if ftype ff = FD_PIPE then pipeclose (fpipe ff) (writable ff)
     else if ftype ff = FD_INODE \<or> ftype ff = FD_DEVICE then
       Seq begin_op (
       Seq (iput (fip ff))
       end_op)
     else skip))))))"

section \<open>Metadata, reading and writing\<close>

text \<open>\<open>struct stat\<close> as it lies in memory: the last field is aligned to 8 bytes, behind four bytes of
  padding that nobody sets.\<close>

definition stat_bytes :: "(nat \<Rightarrow> byte) \<Rightarrow> stat \<Rightarrow> byte list" where
  "stat_bytes junk st = word_bytes 4 (st_dev st) @ word_bytes 4 (st_ino st) @ word_bytes 2 (st_type st) @
     word_bytes 2 (st_nlink st) @ map junk [0..<4] @ word_bytes 8 (st_size st)"

definition filestat :: "nat \<Rightarrow> uint64 \<Rightarrow> ('z filest_scheme, int) kern" where
  "filestat f addr =
     Do cur (\<lambda>p.
     Do (get_file f) (\<lambda>x.
     if ftype x = FD_INODE \<or> ftype x = FD_DEVICE then
       Seq (ilock (fip x)) (
       Do (stati (fip x)) (\<lambda>st.
       Seq (iunlock (fip x)) (
       Do (gets stack_junk) (\<lambda>junk.
       Do (gets (\<lambda>s. pagetable (procs s p))) (\<lambda>pt.
       Do (copyout pt addr (stat_bytes junk st)) (\<lambda>r.
       return (if r < 0 then - 1 else 0)))))))
     else return (- 1)))"

definition fileread :: "nat \<Rightarrow> uint64 \<Rightarrow> int \<Rightarrow> ('z filest_scheme, int) kern" where
  "fileread f addr n =
     Do (get_file f) (\<lambda>x.
     if \<not> readable x then return (- 1) else
     case ftype x of
       FD_PIPE \<Rightarrow> piperead (fpipe x) addr n
     | FD_DEVICE \<Rightarrow>
         (if sint (fmajor x) < 0 \<or> sint (fmajor x) \<ge> int NDEV then return (- 1) else
          case devsw_read (unat (fmajor x)) of None \<Rightarrow> return (- 1) | Some dev_read \<Rightarrow> dev_read True addr n)
     | FD_INODE \<Rightarrow>
         Seq (ilock (fip x)) (
         Do (readi (fip x) (UserDst addr) (foff x) (word_of_int n)) (\<lambda>(r, _).
         Seq (kwhen (r > 0) (upd_file f (\<lambda>x. x\<lparr>foff := foff x + word_of_int r\<rparr>))) (
         Seq (iunlock (fip x))
         (return r))))
     | FD_NONE \<Rightarrow> panic ''fileread'')"

text \<open>How many bytes \<open>filewrite\<close> writes in one transaction.\<close>

definition write_chunk :: nat where
  "write_chunk = ((MAXOPBLOCKS - 1 - 1 - 2) div 2) * BSIZE"

lemma write_chunk_pos: "0 < write_chunk"
  by (simp add: write_chunk_def MAXOPBLOCKS_def BSIZE_def)

text \<open>The loop of \<open>filewrite\<close>, with \<open>i\<close> of \<open>n\<close> bytes written; it returns the final \<open>i\<close>.\<close>

function filewrite_loop :: "nat \<Rightarrow> uint64 \<Rightarrow> nat \<Rightarrow> nat \<Rightarrow> ('z filest_scheme, nat) kern" where
  "filewrite_loop f addr i n =
     (if i < n then
        let n1 = (if n - i > write_chunk then write_chunk else n - i) in
        Do (gets (\<lambda>s. fip (ftable s f))) (\<lambda>ip.
        Seq begin_op (
        Seq (ilock ip) (
        Do (gets (\<lambda>s. foff (ftable s f))) (\<lambda>off.
        Do (writei ip (UserSrc (addr + of_nat i)) off (of_nat n1)) (\<lambda>r.
        Seq (kwhen (r > 0) (upd_file f (\<lambda>x. x\<lparr>foff := foff x + word_of_int r\<rparr>))) (
        Seq (iunlock ip) (
        Seq end_op (
        if r \<noteq> int n1 then return i else filewrite_loop f addr (i + n1) n))))))))
      else return i)"
  by auto

termination filewrite_loop
  by (relation "measure (\<lambda>(_, _, i, n). n - i)") (use write_chunk_pos in auto)

declare filewrite_loop.simps [simp del]

definition filewrite :: "nat \<Rightarrow> uint64 \<Rightarrow> int \<Rightarrow> ('z filest_scheme, int) kern" where
  "filewrite f addr n =
     Do (get_file f) (\<lambda>x.
     if \<not> writable x then return (- 1) else
     case ftype x of
       FD_PIPE \<Rightarrow> pipewrite (fpipe x) addr n
     | FD_DEVICE \<Rightarrow>
         (if sint (fmajor x) < 0 \<or> sint (fmajor x) \<ge> int NDEV then return (- 1) else
          case devsw_write (unat (fmajor x)) of None \<Rightarrow> return (- 1) | Some dev_write \<Rightarrow> dev_write True addr n)
     | FD_INODE \<Rightarrow>
         Do (filewrite_loop f addr 0 (nat n)) (\<lambda>i.
         return (if int i = n then n else - 1))
     | FD_NONE \<Rightarrow> panic ''filewrite'')"

section \<open>Creating a pipe\<close>

text \<open>\<open>pipealloc\<close> returns the two files, or nothing where the source returns -1. The first \<open>goto bad\<close>
  leaves \<open>pi\<close> null, so its \<open>kfree\<close> never runs.\<close>

definition pipealloc_bad :: "nat option \<Rightarrow> nat option \<Rightarrow> ('z filest_scheme, (nat \<times> nat) option) kern" where
  "pipealloc_bad f0 f1 =
     Seq (case f0 of None \<Rightarrow> skip | Some f \<Rightarrow> fileclose f) (
     Seq (case f1 of None \<Rightarrow> skip | Some f \<Rightarrow> fileclose f)
     (return None))"

definition pipealloc :: "('z filest_scheme, (nat \<times> nat) option) kern" where
  "pipealloc =
     Do filealloc (\<lambda>r0. case r0 of None \<Rightarrow> pipealloc_bad None None | Some f0 \<Rightarrow>
     Do filealloc (\<lambda>r1. case r1 of None \<Rightarrow> pipealloc_bad (Some f0) None | Some f1 \<Rightarrow>
     Do kalloc (\<lambda>pi.
     if pi = 0 then pipealloc_bad (Some f0) (Some f1) else
     Seq (upd_pipe pi (\<lambda>x. x\<lparr>readopen := True, writeopen := True, nwrite := 0, nread := 0\<rparr>)) (
     Seq (initlock (PipeLock pi) ''pipe'') (
     Seq (upd_file f0 (\<lambda>x. x\<lparr>ftype := FD_PIPE, readable := True, writable := False, fpipe := pi\<rparr>)) (
     Seq (upd_file f1 (\<lambda>x. x\<lparr>ftype := FD_PIPE, readable := False, writable := True, fpipe := pi\<rparr>))
     (return (Some (f0, f1)))))))))"

end
