(* ===== verification/Proc.thy ===== *)
theory Proc
  imports File
begin

text \<open>
  Processes (\<open>kernel/proc.c\<close>): creating, copying, freeing, exiting and waiting. The trapframe is a
  page of physical memory; its registers are read and written at the offsets of \<open>struct trapframe\<close>
  (\<open>kernel/proc.h\<close>). Addresses of kernel code (\<open>forkret\<close>, \<open>usertrap\<close> and the entry points of the
  assembly files) are constant fields, like the linker's other symbols. The functions of \<open>proc.c\<close>
  that need neither memory nor files are in the theory of the scheduler.
\<close>

section \<open>The trapframe\<close>

datatype trapframe_reg =
    Kernel_satp | Kernel_sp | Kernel_trap | Epc | Kernel_hartid
  | Ra | Sp | Gp | Tp | T0 | T1 | T2 | S0 | S1
  | A0 | A1 | A2 | A3 | A4 | A5 | A6 | A7
  | S2 | S3 | S4 | S5 | S6 | S7 | S8 | S9 | S10 | S11
  | T3 | T4 | T5 | T6

definition trapframe_regs :: "trapframe_reg list" where
  "trapframe_regs =
     [Kernel_satp, Kernel_sp, Kernel_trap, Epc, Kernel_hartid, Ra, Sp, Gp, Tp, T0, T1, T2, S0, S1,
      A0, A1, A2, A3, A4, A5, A6, A7, S2, S3, S4, S5, S6, S7, S8, S9, S10, S11, T3, T4, T5, T6]"

definition tf_off :: "trapframe_reg \<Rightarrow> uint64" where
  "tf_off r = 8 * of_nat (length (takeWhile (\<lambda>x. x \<noteq> r) trapframe_regs))"

definition sizeof_trapframe :: nat where
  "sizeof_trapframe = 8 * length trapframe_regs"

record procst = filest +
  forkret_sym :: uint64
  usertrap_sym :: uint64
  kernelvec_sym :: uint64
  uservec_sym :: uint64
  userret_sym :: uint64

definition tf_get :: "nat \<Rightarrow> trapframe_reg \<Rightarrow> ('z kmem_scheme, uint64) kern" where
  "tf_get p r = gets (\<lambda>s. rd64 (mem s) (trapframe (procs s p) + tf_off r))"

definition tf_set :: "nat \<Rightarrow> trapframe_reg \<Rightarrow> uint64 \<Rightarrow> ('z kmem_scheme, unit) kern" where
  "tf_set p r v = modify (\<lambda>s. s\<lparr>mem := wr64 (trapframe (procs s p) + tf_off r) v (mem s)\<rparr>)"

section \<open>Process page tables\<close>

definition procinit :: "('z sched_scheme, unit) kern" where
  "procinit =
     Seq (initlock PidLock ''nextpid'') (
     Seq (initlock WaitLock ''wait_lock'') (
     for_each [0..<NPROC] (\<lambda>p.
       Seq (initlock (ProcLock p) ''proc'')
       (upd_proc p (\<lambda>q. q\<lparr>pstate := UNUSED, kstack := KSTACK p\<rparr>)))))"

definition proc_pagetable :: "nat \<Rightarrow> ('z kvm_scheme, uint64) kern" where
  "proc_pagetable p =
     Do uvmcreate (\<lambda>pt.
     if pt = 0 then return 0 else
     Do (gets trampoline) (\<lambda>tr.
     Do (mappages pt TRAMPOLINE (of_nat PGSIZE) tr (PTE_R OR PTE_X)) (\<lambda>r.
     if r < 0 then Seq (uvmfree pt 0) (return 0) else
     Do (gets (\<lambda>s. trapframe (procs s p))) (\<lambda>tf.
     Do (mappages pt TRAPFRAME (of_nat PGSIZE) tf (PTE_R OR PTE_W)) (\<lambda>r.
     if r < 0 then
       Seq (uvmunmap pt TRAMPOLINE 1 False) (
       Seq (uvmfree pt 0)
       (return 0))
     else return pt)))))"

definition proc_freepagetable :: "uint64 \<Rightarrow> uint64 \<Rightarrow> ('z kmem_scheme, unit) kern" where
  "proc_freepagetable pt len =
     Seq (uvmunmap pt TRAMPOLINE 1 False) (
     Seq (uvmunmap pt TRAPFRAME 1 False)
     (uvmfree pt len))"

section \<open>Allocating and freeing\<close>

definition freeproc :: "nat \<Rightarrow> ('z kmem_scheme, unit) kern" where
  "freeproc p =
     Do (gets (\<lambda>s. procs s p)) (\<lambda>q.
     Seq (kwhen (trapframe q \<noteq> 0) (kfree (trapframe q))) (
     Seq (upd_proc p (\<lambda>q. q\<lparr>trapframe := 0\<rparr>)) (
     Seq (kwhen (pagetable q \<noteq> 0) (proc_freepagetable (pagetable q) (sz q)))
     (upd_proc p (\<lambda>q. q\<lparr>pagetable := 0, sz := 0, pid := 0, parent := None, pname := [], pchan := None,
        pkilled := False, xstate := 0, pstate := UNUSED\<rparr>)))))"

text \<open>What follows the label \<open>found\<close> in \<open>allocproc\<close>.\<close>

definition allocproc_found :: "nat \<Rightarrow> ('z procst_scheme, nat option) kern" where
  "allocproc_found p =
     Do allocpid (\<lambda>n.
     Seq (upd_proc p (\<lambda>q. q\<lparr>pid := n, pstate := USED\<rparr>)) (
     Do kalloc (\<lambda>tf.
     Seq (upd_proc p (\<lambda>q. q\<lparr>trapframe := tf\<rparr>)) (
     if tf = 0 then
       Seq (freeproc p) (
       Seq (release (ProcLock p))
       (return None))
     else
     Do (proc_pagetable p) (\<lambda>pt.
     Seq (upd_proc p (\<lambda>q. q\<lparr>pagetable := pt\<rparr>)) (
     if pt = 0 then
       Seq (freeproc p) (
       Seq (release (ProcLock p))
       (return None))
     else
     Do (gets forkret_sym) (\<lambda>fr.
     Seq (upd_proc p (\<lambda>q. q\<lparr>pcontext := \<lparr>ra = fr, sp = kstack q + of_nat PGSIZE, callee_saved = (\<lambda>_. 0)\<rparr>\<rparr>))
     (return (Some p)))))))))"

definition allocproc :: "('z procst_scheme, nat option) kern" where
  "allocproc =
     Do (for_find [0..<NPROC] (\<lambda>p.
       Seq (acquire (ProcLock p)) (
       Do (gets (\<lambda>s. pstate (procs s p))) (\<lambda>st.
       if st = UNUSED then return (Some p)
       else Seq (release (ProcLock p)) (return None))))) (\<lambda>r. case r of
       None \<Rightarrow> return None
     | Some p \<Rightarrow> allocproc_found p)"

text \<open>\<open>userinit\<close> uses the result of \<open>allocproc\<close> without testing it.\<close>

definition userinit :: "('z procst_scheme, unit) kern" where
  "userinit =
     Do allocproc (\<lambda>r.
     Seq (modify (\<lambda>s. s\<lparr>initproc := r\<rparr>)) (
     Do (namei [slash]) (\<lambda>d. case r of
       None \<Rightarrow> stop (Fault ''userinit'')
     | Some p \<Rightarrow>
         Seq (upd_proc p (\<lambda>q. q\<lparr>cwd := d\<rparr>)) (
         Seq (upd_proc p (\<lambda>q. q\<lparr>pstate := RUNNABLE\<rparr>))
         (release (ProcLock p))))))"

definition growproc :: "int \<Rightarrow> ('z kmem_scheme, int) kern" where
  "growproc n =
     Do cur (\<lambda>p.
     Do (gets (\<lambda>s. procs s p)) (\<lambda>q.
     if n > 0 then
       Do (uvmalloc (pagetable q) (sz q) (sz q + word_of_int n) PTE_W) (\<lambda>sz'.
       if sz' = 0 then return (- 1) else
       Seq (upd_proc p (\<lambda>q. q\<lparr>sz := sz'\<rparr>)) (return 0))
     else if n < 0 then
       Do (uvmdealloc (pagetable q) (sz q) (sz q + word_of_int n)) (\<lambda>sz'.
       Seq (upd_proc p (\<lambda>q. q\<lparr>sz := sz'\<rparr>)) (return 0))
     else Seq (upd_proc p (\<lambda>q'. q'\<lparr>sz := sz q\<rparr>)) (return 0)))"

section \<open>Fork, exit and wait\<close>

definition kfork :: "('z procst_scheme, int) kern" where
  "kfork =
     Do cur (\<lambda>p.
     Do allocproc (\<lambda>r. case r of None \<Rightarrow> return (- 1) | Some np \<Rightarrow>
     Do (gets (\<lambda>s. procs s p)) (\<lambda>q.
     Do (gets (\<lambda>s. pagetable (procs s np))) (\<lambda>npt.
     Do (uvmcopy (pagetable q) npt (sz q)) (\<lambda>c.
     if c < 0 then
       Seq (freeproc np) (
       Seq (release (ProcLock np))
       (return (- 1)))
     else
     Seq (upd_proc np (\<lambda>x. x\<lparr>sz := sz q\<rparr>)) (
     Seq (modify (\<lambda>s. s\<lparr>mem := mem_fill (trapframe (procs s np))
            (mem_read (mem s) (trapframe (procs s p)) sizeof_trapframe) (mem s)\<rparr>)) (
     Seq (tf_set np A0 0) (
     Seq (for_each [0..<NOFILE] (\<lambda>i. case ofile q i of
            None \<Rightarrow> skip
          | Some f \<Rightarrow> Do (filedup f) (\<lambda>f. upd_proc np (\<lambda>x. x\<lparr>ofile := (ofile x)(i := Some f)\<rparr>)))) (
     Do (case cwd q of None \<Rightarrow> stop (Fault ''idup'') | Some ip \<Rightarrow> idup ip) (\<lambda>ip.
     Seq (upd_proc np (\<lambda>x. x\<lparr>cwd := Some ip\<rparr>)) (
     Seq (upd_proc np (\<lambda>x. x\<lparr>pname := safestrcpy_l 16 (pname q)\<rparr>)) (
     Do (gets (\<lambda>s. pid (procs s np))) (\<lambda>n.
     Seq (release (ProcLock np)) (
     Seq (acquire WaitLock) (
     Seq (upd_proc np (\<lambda>x. x\<lparr>parent := Some p\<rparr>)) (
     Seq (release WaitLock) (
     Seq (acquire (ProcLock np)) (
     Seq (upd_proc np (\<lambda>x. x\<lparr>pstate := RUNNABLE\<rparr>)) (
     Seq (release (ProcLock np))
     (return (sint n)))))))))))))))))))))"

text \<open>\<open>kexit\<close> ends in \<open>sched\<close>, from which a zombie never comes back.\<close>

definition kexit :: "uint \<Rightarrow> ('z procst_scheme, 'a) kern" where
  "kexit status =
     Do cur (\<lambda>p.
     Do (gets initproc) (\<lambda>ini.
     if ini = Some p then panic ''init exiting'' else
     Seq (for_each [0..<NOFILE] (\<lambda>fd.
       Do (gets (\<lambda>s. ofile (procs s p) fd)) (\<lambda>fo. case fo of
         None \<Rightarrow> skip
       | Some f \<Rightarrow>
           Seq (fileclose f)
           (upd_proc p (\<lambda>q. q\<lparr>ofile := (ofile q)(fd := None)\<rparr>))))) (
     Seq begin_op (
     Do (gets (\<lambda>s. cwd (procs s p))) (\<lambda>d.
     Seq (case d of None \<Rightarrow> stop (Fault ''iput'') | Some ip \<Rightarrow> iput ip) (
     Seq end_op (
     Seq (upd_proc p (\<lambda>q. q\<lparr>cwd := None\<rparr>)) (
     Seq (acquire WaitLock) (
     Seq (reparent p) (
     Do (gets (\<lambda>s. parent (procs s p))) (\<lambda>par.
     Seq (case par of None \<Rightarrow> skip | Some pp \<Rightarrow> wakeup (ProcChan pp)) (
     Seq (acquire (ProcLock p)) (
     Seq (upd_proc p (\<lambda>q. q\<lparr>xstate := status, pstate := ZOMBIE\<rparr>)) (
     Seq (release WaitLock) (
     Seq (sched :: (_, unit) kern)
     (panic ''zombie exit''))))))))))))))))"

text \<open>One pass over the table: \<open>Inl r\<close> when \<open>kwait\<close> returns \<open>r\<close>, otherwise whether there are children.\<close>

primrec kwait_scan :: "nat list \<Rightarrow> bool \<Rightarrow> nat \<Rightarrow> uint64 \<Rightarrow> ('z procst_scheme, int + bool) kern" where
  "kwait_scan [] havekids p addr = return (Inr havekids)"
| "kwait_scan (pp # pps) havekids p addr =
     Do (gets (\<lambda>s. parent (procs s pp))) (\<lambda>par.
     if par = Some p then
       Seq (acquire (ProcLock pp)) (
       Do (gets (\<lambda>s. procs s pp)) (\<lambda>q.
       if pstate q = ZOMBIE then
         Do (gets (\<lambda>s. pagetable (procs s p))) (\<lambda>pt.
         Do (if addr \<noteq> 0 then copyout pt addr (word_bytes 4 (xstate q)) else return 0) (\<lambda>r.
         if r < 0 then
           Seq (release (ProcLock pp)) (
           Seq (release WaitLock)
           (return (Inl (- 1))))
         else
           Seq (freeproc pp) (
           Seq (release (ProcLock pp)) (
           Seq (release WaitLock)
           (return (Inl (sint (pid q))))))))
       else
         Seq (release (ProcLock pp))
         (kwait_scan pps True p addr)))
     else kwait_scan pps havekids p addr)"

text \<open>The loop of \<open>kwait\<close> with \<open>wait_lock\<close> held; a parent that slept runs \<open>sleep_resume\<close> and enters it
  again.\<close>

definition kwait_loop :: "nat \<Rightarrow> uint64 \<Rightarrow> ('z procst_scheme, int) kern" where
  "kwait_loop p addr =
     Do (kwait_scan [0..<NPROC] False p addr) (\<lambda>r. case r of
       Inl v \<Rightarrow> return v
     | Inr havekids \<Rightarrow>
         Do (if \<not> havekids then return True else killed p) (\<lambda>quit.
         if quit then Seq (release WaitLock) (return (- 1))
         else sleep (ProcChan p) WaitLock))"

definition kwait :: "uint64 \<Rightarrow> ('z procst_scheme, int) kern" where
  "kwait addr =
     Do cur (\<lambda>p.
     Seq (acquire WaitLock)
     (kwait_loop p addr))"

end
