(* ===== verification/Syscall.thy ===== *)
theory Syscall
  imports Proc
begin

text \<open>
  Arguments of system calls (\<open>kernel/syscall.c\<close>). A function that fills a variable of the caller
  returns its value; one that can fail returns an option. The dispatch table is in the theory of traps.
\<close>

definition fetchaddr :: "uint64 \<Rightarrow> ('z procst_scheme, uint64 option) kern" where
  "fetchaddr addr =
     Do cur (\<lambda>p.
     Do (gets (\<lambda>s. procs s p)) (\<lambda>q.
     if addr \<ge> sz q \<or> addr + 8 > sz q then return None else
     Do (copyin (pagetable q) addr 8) (\<lambda>(r, bs).
     return (if r \<noteq> 0 then None else Some (bytes_word bs)))))"

text \<open>The string without its NUL; the source returns its length.\<close>

definition fetchstr :: "uint64 \<Rightarrow> nat \<Rightarrow> ('z procst_scheme, byte list option) kern" where
  "fetchstr addr maxlen =
     Do cur (\<lambda>p.
     Do (gets (\<lambda>s. pagetable (procs s p))) (\<lambda>pt.
     copyinstr pt addr maxlen))"

definition argraw :: "nat \<Rightarrow> ('z procst_scheme, uint64) kern" where
  "argraw n =
     Do cur (\<lambda>p.
     if n = 0 then tf_get p A0
     else if n = 1 then tf_get p A1
     else if n = 2 then tf_get p A2
     else if n = 3 then tf_get p A3
     else if n = 4 then tf_get p A4
     else if n = 5 then tf_get p A5
     else panic ''argraw'')"

definition argint :: "nat \<Rightarrow> ('z procst_scheme, int) kern" where
  "argint n = Do (argraw n) (\<lambda>x. return (sint (ucast x :: uint)))"

definition argaddr :: "nat \<Rightarrow> ('z procst_scheme, uint64) kern" where
  "argaddr n = argraw n"

definition argstr :: "nat \<Rightarrow> nat \<Rightarrow> ('z procst_scheme, byte list option) kern" where
  "argstr n maxlen = Do (argaddr n) (\<lambda>addr. fetchstr addr maxlen)"

end
