(* ===== verification/Exec.thy ===== *)
theory Exec
  imports Syscall
begin

text \<open>
  Loading a program (\<open>kernel/exec.c\<close>, \<open>kernel/elf.h\<close>). The headers are read into local variables, so
  they are decoded from the bytes of the file. The argument strings are lists of bytes without NUL.
\<close>

section \<open>The ELF headers\<close>

definition ELF_MAGIC :: uint where "ELF_MAGIC = 0x464C457F"
definition ELF_PROG_LOAD :: uint where "ELF_PROG_LOAD = 1"

record elfhdr =
  eh_magic :: uint
  eh_entry :: uint64
  eh_phoff :: uint64
  eh_phnum :: ushort

record proghdr =
  ph_type :: uint
  ph_flags :: uint
  ph_off :: uint64
  ph_vaddr :: uint64
  ph_filesz :: uint64
  ph_memsz :: uint64

definition sizeof_elfhdr :: nat where "sizeof_elfhdr = 64"
definition sizeof_proghdr :: nat where "sizeof_proghdr = 56"

definition rd_elfhdr :: "byte list \<Rightarrow> elfhdr" where
  "rd_elfhdr bs = \<lparr>eh_magic = bytes_word (sub bs 0 4), eh_entry = bytes_word (sub bs 24 8),
     eh_phoff = bytes_word (sub bs 32 8), eh_phnum = bytes_word (sub bs 56 2)\<rparr>"

definition rd_proghdr :: "byte list \<Rightarrow> proghdr" where
  "rd_proghdr bs = \<lparr>ph_type = bytes_word (sub bs 0 4), ph_flags = bytes_word (sub bs 4 4),
     ph_off = bytes_word (sub bs 8 8), ph_vaddr = bytes_word (sub bs 16 8),
     ph_filesz = bytes_word (sub bs 32 8), ph_memsz = bytes_word (sub bs 40 8)\<rparr>"

section \<open>Loading\<close>

definition flags2perm :: "uint \<Rightarrow> uint64" where
  "flags2perm flags =
     (let perm = (if flags AND 1 \<noteq> 0 then PTE_X else 0)
      in if flags AND 2 \<noteq> 0 then perm OR PTE_W else perm)"

definition loadseg :: "uint64 \<Rightarrow> uint64 \<Rightarrow> nat \<Rightarrow> uint \<Rightarrow> uint \<Rightarrow> ('z fsst_scheme, int) kern" where
  "loadseg pt va ip offset len =
     Do (for_find (map (\<lambda>k. k * PGSIZE) [0..<(unat len + PGSIZE - 1) div PGSIZE]) (\<lambda>i.
       Do (walkaddr pt (va + of_nat i)) (\<lambda>pa.
       if pa = 0 then panic ''loadseg: address should exist'' else
       let n = (if unat len - i < PGSIZE then unat len - i else PGSIZE) in
       Do (readi ip (KernDst pa) (offset + of_nat i) (of_nat n)) (\<lambda>(r, _).
       return (if r \<noteq> int n then Some (- 1) else None))))) (\<lambda>r.
     return (case r of Some v \<Rightarrow> v | None \<Rightarrow> 0))"

text \<open>The loop over the program headers, from header \<open>i\<close> at offset \<open>off\<close>; \<open>len\<close> is the size so far. The
  result is the size, and whether every segment was loaded.\<close>

primrec load_segments :: "nat \<Rightarrow> uint \<Rightarrow> uint64 \<Rightarrow> nat \<Rightarrow> uint64 \<Rightarrow> ('z fsst_scheme, uint64 \<times> bool) kern" where
  "load_segments 0 off pt ip len = return (len, True)"
| "load_segments (Suc k) off pt ip len =
     Do (readi ip LocalDst off (of_nat sizeof_proghdr)) (\<lambda>(r, bs).
     if r \<noteq> int sizeof_proghdr then return (len, False) else
     let ph = rd_proghdr bs in
     if ph_type ph \<noteq> ELF_PROG_LOAD then load_segments k (off + of_nat sizeof_proghdr) pt ip len
     else if ph_memsz ph < ph_filesz ph then return (len, False)
     else if ph_vaddr ph + ph_memsz ph < ph_vaddr ph then return (len, False)
     else if unat (ph_vaddr ph) mod PGSIZE \<noteq> 0 then return (len, False)
     else
       Do (uvmalloc pt len (ph_vaddr ph + ph_memsz ph) (flags2perm (ph_flags ph))) (\<lambda>sz1.
       if sz1 = 0 then return (len, False) else
       Do (loadseg pt (ph_vaddr ph) ip (ucast (ph_off ph)) (ucast (ph_filesz ph))) (\<lambda>r.
       if r < 0 then return (sz1, False) else
       load_segments k (off + of_nat sizeof_proghdr) pt ip sz1)))"

section \<open>The user stack\<close>

text \<open>Rounding the stack pointer down to a multiple of 16.\<close>

definition align16 :: "uint64 \<Rightarrow> uint64" where
  "align16 x = x - x mod 16"

text \<open>The loop over the arguments: \<open>argc\<close> of them are on the stack, at the addresses \<open>ustack\<close>. Nothing is
  returned where the source goes to \<open>bad\<close>.\<close>

primrec push_args :: "byte list list \<Rightarrow> uint64 \<Rightarrow> uint64 \<Rightarrow> uint64 \<Rightarrow> uint64 list
    \<Rightarrow> ('z kmem_scheme, (uint64 \<times> uint64 list) option) kern" where
  "push_args [] pt stackbase sptr ustack = return (Some (sptr, ustack))"
| "push_args (a # as) pt stackbase sptr ustack =
     (if length ustack \<ge> MAXARG then return None else
      let sptr = align16 (sptr - of_nat (length a + 1)) in
      if sptr < stackbase then return None else
      Do (copyout pt sptr (a @ [0])) (\<lambda>r.
      if r < 0 then return None else
      push_args as pt stackbase sptr (ustack @ [sptr])))"

text \<open>The part of the path behind the last slash.\<close>

definition path_last :: "byte list \<Rightarrow> byte list" where
  "path_last path = rev (takeWhile (\<lambda>c. c \<noteq> slash) (rev path))"

text \<open>The label \<open>bad\<close>, with \<open>ip\<close> null once the file has been closed.\<close>

definition kexec_bad :: "uint64 \<Rightarrow> uint64 \<Rightarrow> nat option \<Rightarrow> ('z procst_scheme, int) kern" where
  "kexec_bad pt len ip =
     Seq (kwhen (pt \<noteq> 0) (proc_freepagetable pt len)) (
     Seq (case ip of None \<Rightarrow> skip | Some ip \<Rightarrow> Seq (iunlockput ip) end_op)
     (return (- 1)))"

text \<open>From the allocation of the stack on: the file is closed and \<open>pt\<close> holds \<open>len\<close> bytes of program.\<close>

definition kexec_stack :: "byte list \<Rightarrow> byte list list \<Rightarrow> elfhdr \<Rightarrow> uint64 \<Rightarrow> uint64 \<Rightarrow> ('z procst_scheme, int) kern" where
  "kexec_stack path argv elf pt len0 =
     Do cur (\<lambda>p.
     Do (gets (\<lambda>s. sz (procs s p))) (\<lambda>oldsz.
     let len = PGROUNDUP len0 in
     Do (uvmalloc pt len (len + of_nat ((USERSTACK + 1) * PGSIZE)) PTE_W) (\<lambda>sz1.
     if sz1 = 0 then kexec_bad pt len None else
     let len = sz1 in
     Seq (uvmclear pt (len - of_nat ((USERSTACK + 1) * PGSIZE))) (
     let stackbase = len - of_nat (USERSTACK * PGSIZE) in
     Do (push_args argv pt stackbase len []) (\<lambda>r. case r of None \<Rightarrow> kexec_bad pt len None | Some (sptr, ustack) \<Rightarrow>
     let argc = length ustack;
         sptr = align16 (sptr - of_nat ((argc + 1) * 8))
     in
     if sptr < stackbase then kexec_bad pt len None else
     Do (copyout pt sptr (concat (map (word_bytes 8) (ustack @ [0])))) (\<lambda>r.
     if r < 0 then kexec_bad pt len None else
     Seq (tf_set p A1 sptr) (
     Seq (upd_proc p (\<lambda>q. q\<lparr>pname := safestrcpy_l 16 (path_last path)\<rparr>)) (
     Do (gets (\<lambda>s. pagetable (procs s p))) (\<lambda>oldpt.
     Seq (upd_proc p (\<lambda>q. q\<lparr>pagetable := pt, sz := len\<rparr>)) (
     Seq (tf_set p Epc (eh_entry elf)) (
     Seq (tf_set p Sp sptr) (
     Seq (proc_freepagetable oldpt oldsz)
     (return (int argc))))))))))))))"

definition kexec :: "byte list \<Rightarrow> byte list list \<Rightarrow> ('z procst_scheme, int) kern" where
  "kexec path argv =
     Do cur (\<lambda>p.
     Seq begin_op (
     Do (namei path) (\<lambda>r. case r of None \<Rightarrow> Seq end_op (return (- 1)) | Some ip \<Rightarrow>
     Seq (ilock ip) (
     Do (readi ip LocalDst 0 (of_nat sizeof_elfhdr)) (\<lambda>(r, bs).
     if r \<noteq> int sizeof_elfhdr then kexec_bad 0 0 (Some ip) else
     let elf = rd_elfhdr bs in
     if eh_magic elf \<noteq> ELF_MAGIC then kexec_bad 0 0 (Some ip) else
     Do (proc_pagetable p) (\<lambda>pt.
     if pt = 0 then kexec_bad 0 0 (Some ip) else
     Do (load_segments (unat (eh_phnum elf)) (ucast (eh_phoff elf)) pt ip 0) (\<lambda>(len, ok).
     if \<not> ok then kexec_bad pt len (Some ip) else
     Seq (iunlockput ip) (
     Seq end_op
     (kexec_stack path argv elf pt len)))))))))"

end
