(* ===== verification/Sysfile.thy ===== *)
theory Sysfile
  imports Exec
begin

text \<open>
  The file system calls (\<open>kernel/sysfile.c\<close>, \<open>kernel/fcntl.h\<close>), with symbolic links and append mode. A
  call returns the 64-bit value that goes into register \<open>a0\<close>.
\<close>

definition O_RDONLY :: uint where "O_RDONLY = 0x000"
definition O_WRONLY :: uint where "O_WRONLY = 0x001"
definition O_RDWR :: uint where "O_RDWR = 0x002"
definition O_CREATE :: uint where "O_CREATE = 0x200"
definition O_TRUNC :: uint where "O_TRUNC = 0x400"
definition O_APPEND :: uint where "O_APPEND = 0x800"
definition O_NOFOLLOW :: uint where "O_NOFOLLOW = 0x1000"

section \<open>File descriptors\<close>

definition argfd :: "nat \<Rightarrow> ('z procst_scheme, (nat \<times> nat) option) kern" where
  "argfd n =
     Do (argint n) (\<lambda>fd.
     if fd < 0 \<or> fd \<ge> int NOFILE then return None else
     Do cur (\<lambda>p.
     Do (gets (\<lambda>s. ofile (procs s p) (nat fd))) (\<lambda>f.
     return (map_option (Pair (nat fd)) f))))"

definition fdalloc :: "nat \<Rightarrow> ('z procst_scheme, nat option) kern" where
  "fdalloc f =
     Do cur (\<lambda>p.
     Do (gets (\<lambda>s. ofile (procs s p))) (\<lambda>t.
     case find (\<lambda>fd. t fd = None) [0..<NOFILE] of
       Some fd \<Rightarrow>
         Seq (upd_proc p (\<lambda>q. q\<lparr>ofile := (ofile q)(fd := Some f)\<rparr>))
         (return (Some fd))
     | None \<Rightarrow> return None))"

definition sys_dup :: "('z procst_scheme, uint64) kern" where
  "sys_dup =
     Do (argfd 0) (\<lambda>r. case r of None \<Rightarrow> return (- 1) | Some (_, f) \<Rightarrow>
     Do (fdalloc f) (\<lambda>r. case r of None \<Rightarrow> return (- 1) | Some fd \<Rightarrow>
     Seq (filedup f)
     (return (of_nat fd))))"

definition sys_read :: "('z procst_scheme, uint64) kern" where
  "sys_read =
     Do (argaddr 1) (\<lambda>p.
     Do (argint 2) (\<lambda>n.
     Do (argfd 0) (\<lambda>r. case r of None \<Rightarrow> return (- 1) | Some (_, f) \<Rightarrow>
     Do (fileread f p n) (\<lambda>v. return (word_of_int v)))))"

definition sys_write :: "('z procst_scheme, uint64) kern" where
  "sys_write =
     Do (argaddr 1) (\<lambda>p.
     Do (argint 2) (\<lambda>n.
     Do (argfd 0) (\<lambda>r. case r of None \<Rightarrow> return (- 1) | Some (_, f) \<Rightarrow>
     Do (filewrite f p n) (\<lambda>v. return (word_of_int v)))))"

definition sys_close :: "('z procst_scheme, uint64) kern" where
  "sys_close =
     Do (argfd 0) (\<lambda>r. case r of None \<Rightarrow> return (- 1) | Some (fd, f) \<Rightarrow>
     Do cur (\<lambda>p.
     Seq (upd_proc p (\<lambda>q. q\<lparr>ofile := (ofile q)(fd := None)\<rparr>)) (
     Seq (fileclose f)
     (return 0))))"

definition sys_fstat :: "('z procst_scheme, uint64) kern" where
  "sys_fstat =
     Do (argaddr 1) (\<lambda>st.
     Do (argfd 0) (\<lambda>r. case r of None \<Rightarrow> return (- 1) | Some (_, f) \<Rightarrow>
     Do (filestat f st) (\<lambda>v. return (word_of_int v))))"

section \<open>Links\<close>

definition sys_link_bad :: "nat \<Rightarrow> ('z procst_scheme, uint64) kern" where
  "sys_link_bad ip =
     Seq (ilock ip) (
     Seq (upd_inode ip (\<lambda>x. x\<lparr>inlink := inlink x - 1\<rparr>)) (
     Seq (iupdate ip) (
     Seq (iunlockput ip) (
     Seq end_op
     (return (- 1))))))"

definition sys_link :: "('z procst_scheme, uint64) kern" where
  "sys_link =
     Do (argstr 0 MAXPATH) (\<lambda>r. case r of None \<Rightarrow> return (- 1) | Some old \<Rightarrow>
     Do (argstr 1 MAXPATH) (\<lambda>r. case r of None \<Rightarrow> return (- 1) | Some new \<Rightarrow>
     Seq begin_op (
     Do (namei old) (\<lambda>r. case r of None \<Rightarrow> Seq end_op (return (- 1)) | Some ip \<Rightarrow>
     Seq (ilock ip) (
     Do (get_inode ip) (\<lambda>x.
     if itype x = T_DIR then
       Seq (iunlockput ip) (
       Seq end_op
       (return (- 1)))
     else
     Seq (upd_inode ip (\<lambda>x. x\<lparr>inlink := inlink x + 1\<rparr>)) (
     Seq (iupdate ip) (
     Seq (iunlock ip) (
     Do (nameiparent new) (\<lambda>r. case r of None \<Rightarrow> sys_link_bad ip | Some (dp, name) \<Rightarrow>
     Seq (ilock dp) (
     Do (get_inode dp) (\<lambda>d.
     Do (get_inode ip) (\<lambda>x.
     Do (if idev d \<noteq> idev x then return (- 1) else dirlink dp name (inum x)) (\<lambda>l.
     if l < 0 then
       Seq (iunlockput dp)
       (sys_link_bad ip)
     else
       Seq (iunlockput dp) (
       Seq (iput ip) (
       Seq end_op
       (return 0)))))))))))))))))"

text \<open>\<open>off\<close> runs from the third entry on.\<close>

definition isdirempty :: "nat \<Rightarrow> ('z fsst_scheme, bool) kern" where
  "isdirempty dp =
     Do (gets (\<lambda>s. unat (isize (itable s dp)))) (\<lambda>size.
     Do (for_find (drop 2 (dir_offsets size)) (\<lambda>off.
       Do (read_dirent dp off ''isdirempty: readi'') (\<lambda>de.
       return (if de_inum de \<noteq> 0 then Some () else None)))) (\<lambda>r.
     return (r = None)))"

definition sys_unlink_bad :: "nat \<Rightarrow> ('z procst_scheme, uint64) kern" where
  "sys_unlink_bad dp =
     Seq (iunlockput dp) (
     Seq end_op
     (return (- 1)))"

abbreviation dot :: byte where
  "dot \<equiv> of_char (CHR ''.'')"

definition sys_unlink :: "('z procst_scheme, uint64) kern" where
  "sys_unlink =
     Do (argstr 0 MAXPATH) (\<lambda>r. case r of None \<Rightarrow> return (- 1) | Some path \<Rightarrow>
     Seq begin_op (
     Do (nameiparent path) (\<lambda>r. case r of None \<Rightarrow> Seq end_op (return (- 1)) | Some (dp, name) \<Rightarrow>
     Seq (ilock dp) (
     if namecmp name [dot] = 0 \<or> namecmp name [dot, dot] = 0 then sys_unlink_bad dp else
     Do (dirlookup dp name) (\<lambda>r. case r of None \<Rightarrow> sys_unlink_bad dp | Some (ip, off) \<Rightarrow>
     Seq (ilock ip) (
     Do (get_inode ip) (\<lambda>x.
     if sint (inlink x) < 1 then panic ''unlink: nlink < 1'' else
     Do (if itype x = T_DIR then Do (isdirempty ip) (\<lambda>e. return (\<not> e)) else return False) (\<lambda>nonempty.
     if nonempty then
       Seq (iunlockput ip)
       (sys_unlink_bad dp)
     else
     Do (writei dp (LocalSrc (replicate sizeof_dirent 0)) (of_nat off) (of_nat sizeof_dirent)) (\<lambda>w.
     if w \<noteq> int sizeof_dirent then panic ''unlink: writei'' else
     Do (get_inode ip) (\<lambda>x.
     Seq (kwhen (itype x = T_DIR) (
       Seq (upd_inode dp (\<lambda>x. x\<lparr>inlink := inlink x - 1\<rparr>))
       (iupdate dp))) (
     Seq (iunlockput dp) (
     Seq (upd_inode ip (\<lambda>x. x\<lparr>inlink := inlink x - 1\<rparr>)) (
     Seq (iupdate ip) (
     Seq (iunlockput ip) (
     Seq end_op
     (return 0))))))))))))))))"

section \<open>Creating\<close>

definition create_fail :: "nat \<Rightarrow> nat \<Rightarrow> ('z fsst_scheme, nat option) kern" where
  "create_fail ip dp =
     Seq (upd_inode ip (\<lambda>x. x\<lparr>inlink := 0\<rparr>)) (
     Seq (iupdate ip) (
     Seq (iunlockput ip) (
     Seq (iunlockput dp)
     (return None))))"

definition create :: "byte list \<Rightarrow> ushort \<Rightarrow> ushort \<Rightarrow> ushort \<Rightarrow> ('z fsst_scheme, nat option) kern" where
  "create path ty major minor =
     Do (nameiparent path) (\<lambda>r. case r of None \<Rightarrow> return None | Some (dp, name) \<Rightarrow>
     Seq (ilock dp) (
     Do (dirlookup dp name) (\<lambda>r. case r of
       Some (ip, _) \<Rightarrow>
         Seq (iunlockput dp) (
         Seq (ilock ip) (
         Do (get_inode ip) (\<lambda>x.
         if ty = T_FILE \<and> (itype x = T_FILE \<or> itype x = T_DEVICE) then return (Some ip) else
         Seq (iunlockput ip)
         (return None))))
     | None \<Rightarrow>
     Do (get_inode dp) (\<lambda>d.
     Do (ialloc (idev d) ty) (\<lambda>r. case r of None \<Rightarrow> Seq (iunlockput dp) (return None) | Some ip \<Rightarrow>
     Seq (ilock ip) (
     Seq (upd_inode ip (\<lambda>x. x\<lparr>imajor := major, iminor := minor, inlink := 1\<rparr>)) (
     Seq (iupdate ip) (
     Do (get_inode ip) (\<lambda>x.
     Do (if ty \<noteq> T_DIR then return 0 else
         Do (dirlink ip [dot] (inum x)) (\<lambda>l1.
         if l1 < 0 then return l1 else
         dirlink ip [dot, dot] (inum d))) (\<lambda>l.
     if l < 0 then create_fail ip dp else
     Do (dirlink dp name (inum x)) (\<lambda>l.
     if l < 0 then create_fail ip dp else
     Seq (kwhen (ty = T_DIR) (
       Seq (upd_inode dp (\<lambda>x. x\<lparr>inlink := inlink x + 1\<rparr>))
       (iupdate dp))) (
     Seq (iunlockput dp)
     (return (Some ip))))))))))))))"

section \<open>Opening\<close>

text \<open>
  The loop that follows symbolic links, with \<open>10 - depth\<close> links left. \<open>None\<close> stands for the error
  returns. \<open>path[len] = 0\<close> lies outside of the array when the link holds \<open>MAXPATH\<close> bytes.
\<close>

definition open_fail :: "nat \<Rightarrow> ('z fsst_scheme, 'a option) kern" where
  "open_fail ip = Seq (iunlockput ip) (Seq end_op (return None))"

primrec follow_links :: "nat \<Rightarrow> uint \<Rightarrow> byte list \<Rightarrow> ('z fsst_scheme, nat option) kern" where
  "follow_links 0 omode path =
     Do (namei path) (\<lambda>r. case r of None \<Rightarrow> Seq end_op (return None) | Some ip \<Rightarrow>
     Seq (ilock ip) (
     Do (get_inode ip) (\<lambda>x.
     if itype x = T_SYMLINK \<and> omode AND O_NOFOLLOW = 0 then open_fail ip
     else return (Some ip))))"
| "follow_links (Suc k) omode path =
     Do (namei path) (\<lambda>r. case r of None \<Rightarrow> Seq end_op (return None) | Some ip \<Rightarrow>
     Seq (ilock ip) (
     Do (get_inode ip) (\<lambda>x.
     if itype x = T_SYMLINK \<and> omode AND O_NOFOLLOW = 0 then
       Do (readi ip LocalDst 0 (of_nat MAXPATH)) (\<lambda>(len, bs).
       if len \<le> 0 then open_fail ip else
       if len \<ge> int MAXPATH then stop (Fault ''sys_open: path'') else
       Seq (iunlockput ip)
       (follow_links k omode (takeWhile (\<lambda>c. c \<noteq> 0) bs)))
     else return (Some ip))))"

text \<open>What \<open>sys_open\<close> does with the locked inode.\<close>

definition open_inode :: "uint \<Rightarrow> nat \<Rightarrow> ('z procst_scheme, nat option) kern" where
  "open_inode omode ip =
     Do (get_inode ip) (\<lambda>x.
     if itype x = T_DEVICE \<and> (sint (imajor x) < 0 \<or> sint (imajor x) \<ge> int NDEV) then open_fail ip else
     Do filealloc (\<lambda>r. case r of None \<Rightarrow> open_fail ip | Some f \<Rightarrow>
     Do (fdalloc f) (\<lambda>r. case r of None \<Rightarrow> Seq (fileclose f) (open_fail ip) | Some fd \<Rightarrow>
     Seq (if itype x = T_DEVICE
          then upd_file f (\<lambda>y. y\<lparr>ftype := FD_DEVICE, fmajor := imajor x\<rparr>)
          else upd_file f (\<lambda>y. y\<lparr>ftype := FD_INODE, foff := 0\<rparr>)) (
     Seq (kwhen (omode AND O_APPEND \<noteq> 0 \<and> itype x = T_FILE) (upd_file f (\<lambda>y. y\<lparr>foff := isize x\<rparr>))) (
     Seq (upd_file f (\<lambda>y. y\<lparr>fip := ip, readable := (omode AND O_WRONLY = 0),
            writable := (omode AND O_WRONLY \<noteq> 0 \<or> omode AND O_RDWR \<noteq> 0)\<rparr>)) (
     Seq (kwhen (omode AND O_TRUNC \<noteq> 0 \<and> itype x = T_FILE \<and> omode AND O_APPEND = 0) (itrunc ip)) (
     Seq (iunlock ip) (
     Seq end_op
     (return (Some fd))))))))))"

definition sys_open :: "('z procst_scheme, uint64) kern" where
  "sys_open =
     Do (argstr 0 MAXPATH) (\<lambda>r. case r of None \<Rightarrow> return (- 1) | Some path \<Rightarrow>
     Do (argint 1) (\<lambda>m.
     let omode = word_of_int m in
     Seq begin_op (
     Do (if omode AND O_CREATE \<noteq> 0 then
           Do (create path T_FILE 0 0) (\<lambda>r. case r of
             None \<Rightarrow> Seq end_op (return None) | Some ip \<Rightarrow> return (Some ip))
         else
           Do (follow_links 10 omode path) (\<lambda>r. case r of None \<Rightarrow> return None | Some ip \<Rightarrow>
           Do (get_inode ip) (\<lambda>x.
           if itype x = T_DIR \<and> omode \<noteq> O_RDONLY then open_fail ip else return (Some ip)))) (\<lambda>r. case r of
       None \<Rightarrow> return (- 1)
     | Some ip \<Rightarrow>
         Do (open_inode omode ip) (\<lambda>r.
         return (case r of None \<Rightarrow> - 1 | Some fd \<Rightarrow> of_nat fd))))))"

section \<open>Directories, devices and symbolic links\<close>

definition sys_mkdir :: "('z procst_scheme, uint64) kern" where
  "sys_mkdir =
     Seq begin_op (
     Do (argstr 0 MAXPATH) (\<lambda>r. case r of None \<Rightarrow> Seq end_op (return (- 1)) | Some path \<Rightarrow>
     Do (create path T_DIR 0 0) (\<lambda>r. case r of None \<Rightarrow> Seq end_op (return (- 1)) | Some ip \<Rightarrow>
     Seq (iunlockput ip) (
     Seq end_op
     (return 0)))))"

definition sys_mknod :: "('z procst_scheme, uint64) kern" where
  "sys_mknod =
     Seq begin_op (
     Do (argint 1) (\<lambda>major.
     Do (argint 2) (\<lambda>minor.
     Do (argstr 0 MAXPATH) (\<lambda>r. case r of None \<Rightarrow> Seq end_op (return (- 1)) | Some path \<Rightarrow>
     Do (create path T_DEVICE (word_of_int major) (word_of_int minor)) (\<lambda>r. case r of
       None \<Rightarrow> Seq end_op (return (- 1))
     | Some ip \<Rightarrow>
         Seq (iunlockput ip) (
         Seq end_op
         (return 0)))))))"

definition sys_chdir :: "('z procst_scheme, uint64) kern" where
  "sys_chdir =
     Do cur (\<lambda>p.
     Seq begin_op (
     Do (argstr 0 MAXPATH) (\<lambda>r. case r of None \<Rightarrow> Seq end_op (return (- 1)) | Some path \<Rightarrow>
     Do (namei path) (\<lambda>r. case r of None \<Rightarrow> Seq end_op (return (- 1)) | Some ip \<Rightarrow>
     Seq (ilock ip) (
     Do (get_inode ip) (\<lambda>x.
     if itype x \<noteq> T_DIR then
       Seq (iunlockput ip) (
       Seq end_op
       (return (- 1)))
     else
     Seq (iunlock ip) (
     Do (gets (\<lambda>s. cwd (procs s p))) (\<lambda>d.
     Seq (case d of None \<Rightarrow> stop (Fault ''iput'') | Some old \<Rightarrow> iput old) (
     Seq end_op (
     Seq (upd_proc p (\<lambda>q. q\<lparr>cwd := Some ip\<rparr>))
     (return 0)))))))))))"

text \<open>A link whose target could not be written stays behind.\<close>

definition sys_symlink :: "('z procst_scheme, uint64) kern" where
  "sys_symlink =
     Do (argstr 0 MAXPATH) (\<lambda>r. case r of None \<Rightarrow> return (- 1) | Some target \<Rightarrow>
     Do (argstr 1 MAXPATH) (\<lambda>r. case r of None \<Rightarrow> return (- 1) | Some path \<Rightarrow>
     Seq begin_op (
     Do (create path T_SYMLINK 0 0) (\<lambda>r. case r of None \<Rightarrow> Seq end_op (return (- 1)) | Some ip \<Rightarrow>
     Do (writei ip (LocalSrc target) 0 (of_nat (length target))) (\<lambda>w.
     if w \<noteq> int (length target) then
       Seq (iunlockput ip) (
       Seq end_op
       (return (- 1)))
     else
       Seq (iunlockput ip) (
       Seq end_op
       (return 0)))))))"

section \<open>Programs and pipes\<close>

text \<open>The loop of \<open>sys_exec\<close> that fetches the arguments into pages of their own, with \<open>k\<close> entries of
  \<open>argv\<close> left. The result says whether it succeeded, with the pages and strings so far.\<close>

primrec exec_args :: "nat \<Rightarrow> uint64 \<Rightarrow> (uint64 \<times> byte list) list
    \<Rightarrow> ('z procst_scheme, bool \<times> (uint64 \<times> byte list) list) kern" where
  "exec_args 0 uargv args = return (False, args)"
| "exec_args (Suc k) uargv args =
     Do (fetchaddr (uargv + 8 * of_nat (length args))) (\<lambda>r. case r of None \<Rightarrow> return (False, args) | Some uarg \<Rightarrow>
     if uarg = 0 then return (True, args) else
     Do kalloc (\<lambda>page.
     if page = 0 then return (False, args) else
     Do (fetchstr uarg PGSIZE) (\<lambda>r. case r of
       None \<Rightarrow> return (False, args @ [(page, [])])
     | Some a \<Rightarrow>
         Seq (upd_mem (mem_fill page (a @ [0])))
         (exec_args k uargv (args @ [(page, a)])))))"

definition sys_exec :: "('z procst_scheme, uint64) kern" where
  "sys_exec =
     Do (argaddr 1) (\<lambda>uargv.
     Do (argstr 0 MAXPATH) (\<lambda>r. case r of None \<Rightarrow> return (- 1) | Some path \<Rightarrow>
     Do (exec_args MAXARG uargv []) (\<lambda>(ok, args).
     Do (if ok then kexec path (map snd args) else return (- 1)) (\<lambda>ret.
     Seq (for_each (map fst args) kfree)
     (return (word_of_int ret))))))"

definition close_pair :: "nat \<Rightarrow> nat \<Rightarrow> ('z procst_scheme, uint64) kern" where
  "close_pair rfile wfile = Seq (fileclose rfile) (Seq (fileclose wfile) (return (- 1)))"

definition clear_fd :: "nat \<Rightarrow> nat \<Rightarrow> ('z procst_scheme, unit) kern" where
  "clear_fd p fd = upd_proc p (\<lambda>q. q\<lparr>ofile := (ofile q)(fd := None)\<rparr>)"

definition sys_pipe :: "('z procst_scheme, uint64) kern" where
  "sys_pipe =
     Do cur (\<lambda>p.
     Do (argaddr 0) (\<lambda>fdarray.
     Do pipealloc (\<lambda>r. case r of None \<Rightarrow> return (- 1) | Some (rfile, wfile) \<Rightarrow>
     Do (fdalloc rfile) (\<lambda>r. case r of None \<Rightarrow> close_pair rfile wfile | Some fd0 \<Rightarrow>
     Do (fdalloc wfile) (\<lambda>r. case r of None \<Rightarrow> Seq (clear_fd p fd0) (close_pair rfile wfile) | Some fd1 \<Rightarrow>
     Do (gets (\<lambda>s. pagetable (procs s p))) (\<lambda>pt.
     Do (copyout pt fdarray (word_bytes 4 (of_nat fd0 :: uint))) (\<lambda>r0.
     Do (if r0 < 0 then return r0 else copyout pt (fdarray + 4) (word_bytes 4 (of_nat fd1 :: uint))) (\<lambda>r1.
     if r1 < 0 then
       Seq (clear_fd p fd0) (
       Seq (clear_fd p fd1)
       (close_pair rfile wfile))
     else return 0))))))))"

end
