(* ===== verification/Virtio.thy ===== *)
theory Virtio
  imports Proc
begin

text \<open>
  The disk driver (\<open>kernel/virtio_disk.c\<close>, \<open>kernel/virtio.h\<close>). The queue shared with the device is kept
  as typed tables; the address in a descriptor is the kernel object it points to. Registers of the
  device are cells that keep what is written to them, except that the status register keeps only the
  bits the device accepts. The device itself is not part of the program: it advances
  \<open>vused_idx\<close> and fills \<open>vused_ring\<close> and \<open>info_status\<close> when it has served a request.

  A call of \<open>virtio_disk_rw\<close> consists of \<open>virtio_alloc\<close> (which may sleep until descriptors are free),
  \<open>virtio_submit\<close> and \<open>virtio_wait\<close> (which sleeps until the interrupt handler has marked the buffer).
\<close>

section \<open>Constants of the interface\<close>

definition VIRTIO_MMIO_MAGIC_VALUE :: nat where "VIRTIO_MMIO_MAGIC_VALUE = 0x000"
definition VIRTIO_MMIO_VERSION :: nat where "VIRTIO_MMIO_VERSION = 0x004"
definition VIRTIO_MMIO_DEVICE_ID :: nat where "VIRTIO_MMIO_DEVICE_ID = 0x008"
definition VIRTIO_MMIO_VENDOR_ID :: nat where "VIRTIO_MMIO_VENDOR_ID = 0x00c"
definition VIRTIO_MMIO_DEVICE_FEATURES :: nat where "VIRTIO_MMIO_DEVICE_FEATURES = 0x010"
definition VIRTIO_MMIO_DRIVER_FEATURES :: nat where "VIRTIO_MMIO_DRIVER_FEATURES = 0x020"
definition VIRTIO_MMIO_QUEUE_SEL :: nat where "VIRTIO_MMIO_QUEUE_SEL = 0x030"
definition VIRTIO_MMIO_QUEUE_NUM_MAX :: nat where "VIRTIO_MMIO_QUEUE_NUM_MAX = 0x034"
definition VIRTIO_MMIO_QUEUE_NUM :: nat where "VIRTIO_MMIO_QUEUE_NUM = 0x038"
definition VIRTIO_MMIO_QUEUE_READY :: nat where "VIRTIO_MMIO_QUEUE_READY = 0x044"
definition VIRTIO_MMIO_QUEUE_NOTIFY :: nat where "VIRTIO_MMIO_QUEUE_NOTIFY = 0x050"
definition VIRTIO_MMIO_INTERRUPT_STATUS :: nat where "VIRTIO_MMIO_INTERRUPT_STATUS = 0x060"
definition VIRTIO_MMIO_INTERRUPT_ACK :: nat where "VIRTIO_MMIO_INTERRUPT_ACK = 0x064"
definition VIRTIO_MMIO_STATUS :: nat where "VIRTIO_MMIO_STATUS = 0x070"
definition VIRTIO_MMIO_QUEUE_DESC_LOW :: nat where "VIRTIO_MMIO_QUEUE_DESC_LOW = 0x080"
definition VIRTIO_MMIO_QUEUE_DESC_HIGH :: nat where "VIRTIO_MMIO_QUEUE_DESC_HIGH = 0x084"
definition VIRTIO_MMIO_DRIVER_DESC_LOW :: nat where "VIRTIO_MMIO_DRIVER_DESC_LOW = 0x090"
definition VIRTIO_MMIO_DRIVER_DESC_HIGH :: nat where "VIRTIO_MMIO_DRIVER_DESC_HIGH = 0x094"
definition VIRTIO_MMIO_DEVICE_DESC_LOW :: nat where "VIRTIO_MMIO_DEVICE_DESC_LOW = 0x0a0"
definition VIRTIO_MMIO_DEVICE_DESC_HIGH :: nat where "VIRTIO_MMIO_DEVICE_DESC_HIGH = 0x0a4"

definition VIRTIO_CONFIG_S_ACKNOWLEDGE :: uint where "VIRTIO_CONFIG_S_ACKNOWLEDGE = 1"
definition VIRTIO_CONFIG_S_DRIVER :: uint where "VIRTIO_CONFIG_S_DRIVER = 2"
definition VIRTIO_CONFIG_S_DRIVER_OK :: uint where "VIRTIO_CONFIG_S_DRIVER_OK = 4"
definition VIRTIO_CONFIG_S_FEATURES_OK :: uint where "VIRTIO_CONFIG_S_FEATURES_OK = 8"

definition VIRTIO_BLK_F_RO :: nat where "VIRTIO_BLK_F_RO = 5"
definition VIRTIO_BLK_F_SCSI :: nat where "VIRTIO_BLK_F_SCSI = 7"
definition VIRTIO_BLK_F_CONFIG_WCE :: nat where "VIRTIO_BLK_F_CONFIG_WCE = 11"
definition VIRTIO_BLK_F_MQ :: nat where "VIRTIO_BLK_F_MQ = 12"
definition VIRTIO_F_ANY_LAYOUT :: nat where "VIRTIO_F_ANY_LAYOUT = 27"
definition VIRTIO_RING_F_INDIRECT_DESC :: nat where "VIRTIO_RING_F_INDIRECT_DESC = 28"
definition VIRTIO_RING_F_EVENT_IDX :: nat where "VIRTIO_RING_F_EVENT_IDX = 29"

definition NUM :: nat where "NUM = 8"
definition VRING_DESC_F_NEXT :: ushort where "VRING_DESC_F_NEXT = 1"
definition VRING_DESC_F_WRITE :: ushort where "VRING_DESC_F_WRITE = 2"
definition VIRTIO_BLK_T_IN :: uint where "VIRTIO_BLK_T_IN = 0"
definition VIRTIO_BLK_T_OUT :: uint where "VIRTIO_BLK_T_OUT = 1"

section \<open>State\<close>

datatype dma = DmaNull | DmaOp nat | DmaData nat | DmaStatus nat

record virtq_desc =
  vd_addr :: dma
  vd_len :: uint
  vd_flags :: ushort
  vd_next :: ushort

record virtio_blk_req =
  vr_type :: uint
  vr_reserved :: uint
  vr_sector :: uint64

record virtio = procst +
  mmio :: "nat \<Rightarrow> uint"
  accepted :: uint                        \<comment> \<open>status bits the device accepts\<close>
  vdesc :: "nat \<Rightarrow> virtq_desc"
  avail_idx :: ushort
  avail_ring :: "nat \<Rightarrow> ushort"
  vused_idx :: ushort                     \<comment> \<open>\<open>used->idx\<close>, written by the device\<close>
  vused_ring :: "nat \<Rightarrow> uint"
  vfree :: "nat \<Rightarrow> bool"
  used_idx :: ushort                      \<comment> \<open>how far the driver has looked\<close>
  info_b :: "nat \<Rightarrow> nat option"
  info_status :: "nat \<Rightarrow> byte"
  ops :: "nat \<Rightarrow> virtio_blk_req"

definition mmio_read :: "nat \<Rightarrow> ('z virtio_scheme, uint) kern" where
  "mmio_read r = gets (\<lambda>s. mmio s r)"

definition mmio_write :: "nat \<Rightarrow> uint \<Rightarrow> ('z virtio_scheme, unit) kern" where
  "mmio_write r v = modify (\<lambda>s. s\<lparr>mmio := (mmio s)(r := (if r = VIRTIO_MMIO_STATUS then v AND accepted s else v))\<rparr>)"

definition upd_desc :: "nat \<Rightarrow> (virtq_desc \<Rightarrow> virtq_desc) \<Rightarrow> ('z virtio_scheme, unit) kern" where
  "upd_desc i f = modify (\<lambda>s. s\<lparr>vdesc := (vdesc s)(i := f (vdesc s i))\<rparr>)"

section \<open>Initialisation\<close>

text \<open>The features the driver does not want; \<open>features\<close> is 64 bits wide, the masks are sign-extended
  ints.\<close>

definition negotiate :: "uint \<Rightarrow> uint" where
  "negotiate features =
     features AND NOT (push_bit VIRTIO_BLK_F_RO 1) AND NOT (push_bit VIRTIO_BLK_F_SCSI 1)
       AND NOT (push_bit VIRTIO_BLK_F_CONFIG_WCE 1) AND NOT (push_bit VIRTIO_BLK_F_MQ 1)
       AND NOT (push_bit VIRTIO_F_ANY_LAYOUT 1) AND NOT (push_bit VIRTIO_RING_F_EVENT_IDX 1)
       AND NOT (push_bit VIRTIO_RING_F_INDIRECT_DESC 1)"

definition virtio_disk_init :: "('z virtio_scheme, unit) kern" where
  "virtio_disk_init =
     Seq (initlock VdiskLock ''virtio_disk'') (
     Do (gets mmio) (\<lambda>R.
     if R VIRTIO_MMIO_MAGIC_VALUE \<noteq> 0x74726976 \<or> R VIRTIO_MMIO_VERSION \<noteq> 2 \<or>
        R VIRTIO_MMIO_DEVICE_ID \<noteq> 2 \<or> R VIRTIO_MMIO_VENDOR_ID \<noteq> 0x554d4551
     then panic ''could not find virtio disk'' else
     Seq (mmio_write VIRTIO_MMIO_STATUS 0) (
     let status = VIRTIO_CONFIG_S_ACKNOWLEDGE in
     Seq (mmio_write VIRTIO_MMIO_STATUS status) (
     let status = status OR VIRTIO_CONFIG_S_DRIVER in
     Seq (mmio_write VIRTIO_MMIO_STATUS status) (
     Do (mmio_read VIRTIO_MMIO_DEVICE_FEATURES) (\<lambda>features.
     Seq (mmio_write VIRTIO_MMIO_DRIVER_FEATURES (negotiate features)) (
     let status = status OR VIRTIO_CONFIG_S_FEATURES_OK in
     Seq (mmio_write VIRTIO_MMIO_STATUS status) (
     Do (mmio_read VIRTIO_MMIO_STATUS) (\<lambda>status.
     if status AND VIRTIO_CONFIG_S_FEATURES_OK = 0 then panic ''virtio disk FEATURES_OK unset'' else
     Seq (mmio_write VIRTIO_MMIO_QUEUE_SEL 0) (
     Do (mmio_read VIRTIO_MMIO_QUEUE_READY) (\<lambda>ready.
     if ready \<noteq> 0 then panic ''virtio disk should not be ready'' else
     Do (mmio_read VIRTIO_MMIO_QUEUE_NUM_MAX) (\<lambda>most.
     if most = 0 then panic ''virtio disk has no queue 0'' else
     if most < of_nat NUM then panic ''virtio disk max queue too short'' else
     Do kalloc (\<lambda>desc.
     Do kalloc (\<lambda>avail.
     Do kalloc (\<lambda>used.
     if desc = 0 \<or> avail = 0 \<or> used = 0 then panic ''virtio disk kalloc'' else
     Seq (upd_mem (\<lambda>m. memset (memset (memset m desc 0 PGSIZE) avail 0 PGSIZE) used 0 PGSIZE)) (
     Seq (modify (\<lambda>s. s\<lparr>vdesc := (\<lambda>_. \<lparr>vd_addr = DmaNull, vd_len = 0, vd_flags = 0, vd_next = 0\<rparr>),
            avail_idx := 0, avail_ring := (\<lambda>_. 0), vused_idx := 0, vused_ring := (\<lambda>_. 0)\<rparr>)) (
     Seq (mmio_write VIRTIO_MMIO_QUEUE_NUM (of_nat NUM)) (
     Seq (mmio_write VIRTIO_MMIO_QUEUE_DESC_LOW (ucast desc)) (
     Seq (mmio_write VIRTIO_MMIO_QUEUE_DESC_HIGH (ucast (drop_bit 32 desc))) (
     Seq (mmio_write VIRTIO_MMIO_DRIVER_DESC_LOW (ucast avail)) (
     Seq (mmio_write VIRTIO_MMIO_DRIVER_DESC_HIGH (ucast (drop_bit 32 avail))) (
     Seq (mmio_write VIRTIO_MMIO_DEVICE_DESC_LOW (ucast used)) (
     Seq (mmio_write VIRTIO_MMIO_DEVICE_DESC_HIGH (ucast (drop_bit 32 used))) (
     Seq (mmio_write VIRTIO_MMIO_QUEUE_READY 1) (
     Seq (for_each [0..<NUM] (\<lambda>i. modify (\<lambda>s. s\<lparr>vfree := (vfree s)(i := True)\<rparr>)))
     (mmio_write VIRTIO_MMIO_STATUS (status OR VIRTIO_CONFIG_S_DRIVER_OK)))))))))))))))))))))))))))"

section \<open>Descriptors\<close>

definition alloc_desc :: "('z virtio_scheme, nat option) kern" where
  "alloc_desc =
     Do (gets vfree) (\<lambda>fr. case find fr [0..<NUM] of
       Some i \<Rightarrow> Seq (modify (\<lambda>s. s\<lparr>vfree := (vfree s)(i := False)\<rparr>)) (return (Some i))
     | None \<Rightarrow> return None)"

definition free_desc :: "nat \<Rightarrow> ('z virtio_scheme, unit) kern" where
  "free_desc i =
     (if i \<ge> NUM then panic ''free_desc 1'' else
      Do (gets (\<lambda>s. vfree s i)) (\<lambda>fr.
      if fr then panic ''free_desc 2'' else
      Seq (upd_desc i (\<lambda>_. \<lparr>vd_addr = DmaNull, vd_len = 0, vd_flags = 0, vd_next = 0\<rparr>)) (
      Seq (modify (\<lambda>s. s\<lparr>vfree := (vfree s)(i := True)\<rparr>))
      (wakeup DiskFreeChan))))"

text \<open>A chain visits each descriptor at most once, since \<open>free_desc\<close> panics on a free one; the bound
  \<open>NUM + 1\<close> is never the reason to stop.\<close>

primrec free_chain :: "nat \<Rightarrow> nat \<Rightarrow> ('z virtio_scheme, unit) kern" where
  "free_chain 0 i = stop Hang"
| "free_chain (Suc k) i =
     Do (gets (\<lambda>s. vdesc s i)) (\<lambda>d.
     Seq (free_desc i) (
     if vd_flags d AND VRING_DESC_F_NEXT \<noteq> 0 then free_chain k (unat (vd_next d)) else skip))"

definition alloc3_desc :: "('z virtio_scheme, (nat \<times> nat \<times> nat) option) kern" where
  "alloc3_desc =
     Do alloc_desc (\<lambda>r. case r of None \<Rightarrow> return None | Some i0 \<Rightarrow>
     Do alloc_desc (\<lambda>r. case r of None \<Rightarrow> Seq (free_desc i0) (return None) | Some i1 \<Rightarrow>
     Do alloc_desc (\<lambda>r. case r of None \<Rightarrow> Seq (free_desc i0) (Seq (free_desc i1) (return None)) | Some i2 \<Rightarrow>
     return (Some (i0, i1, i2)))))"

section \<open>Requests\<close>

definition virtio_alloc :: "('z virtio_scheme, nat \<times> nat \<times> nat) kern" where
  "virtio_alloc =
     Do alloc3_desc (\<lambda>r. case r of Some idx \<Rightarrow> return idx | None \<Rightarrow> sleep DiskFreeChan VdiskLock)"

definition virtio_submit :: "nat \<Rightarrow> bool \<Rightarrow> nat \<times> nat \<times> nat \<Rightarrow> ('z virtio_scheme, unit) kern" where
  "virtio_submit b write idx = (case idx of (i0, i1, i2) \<Rightarrow>
     Do (gets (\<lambda>s. bblockno (bufs s b) * of_nat (BSIZE div 512))) (\<lambda>sector.
     Seq (modify (\<lambda>s. s\<lparr>ops := (ops s)(i0 := \<lparr>vr_type = (if write then VIRTIO_BLK_T_OUT else VIRTIO_BLK_T_IN),
            vr_reserved = 0, vr_sector = ucast sector\<rparr>)\<rparr>)) (
     Seq (upd_desc i0 (\<lambda>_. \<lparr>vd_addr = DmaOp i0, vd_len = 16, vd_flags = VRING_DESC_F_NEXT, vd_next = of_nat i1\<rparr>)) (
     Seq (upd_desc i1 (\<lambda>_. \<lparr>vd_addr = DmaData b, vd_len = of_nat BSIZE,
            vd_flags = (if write then 0 else VRING_DESC_F_WRITE) OR VRING_DESC_F_NEXT, vd_next = of_nat i2\<rparr>)) (
     Seq (modify (\<lambda>s. s\<lparr>info_status := (info_status s)(i0 := 0xff)\<rparr>)) (
     Seq (upd_desc i2 (\<lambda>_. \<lparr>vd_addr = DmaStatus i0, vd_len = 1, vd_flags = VRING_DESC_F_WRITE, vd_next = 0\<rparr>)) (
     Seq (upd_buf b (\<lambda>x. x\<lparr>bdisk := True\<rparr>)) (
     Seq (modify (\<lambda>s. s\<lparr>info_b := (info_b s)(i0 := Some b)\<rparr>)) (
     Seq (modify (\<lambda>s. s\<lparr>avail_ring := (avail_ring s)(unat (avail_idx s) mod NUM := of_nat i0)\<rparr>)) (
     Seq (modify (\<lambda>s. s\<lparr>avail_idx := avail_idx s + 1\<rparr>))
     (mmio_write VIRTIO_MMIO_QUEUE_NOTIFY 0)))))))))))"

definition virtio_wait :: "nat \<Rightarrow> nat \<Rightarrow> ('z virtio_scheme, unit) kern" where
  "virtio_wait b i0 =
     Do (gets (\<lambda>s. bdisk (bufs s b))) (\<lambda>busy.
     if busy then sleep (BufChan b) VdiskLock else
     Seq (modify (\<lambda>s. s\<lparr>info_b := (info_b s)(i0 := None)\<rparr>)) (
     Seq (free_chain (NUM + 1) i0)
     (release VdiskLock)))"

definition virtio_disk_rw :: "nat \<Rightarrow> bool \<Rightarrow> ('z virtio_scheme, unit) kern" where
  "virtio_disk_rw b write =
     Seq (acquire VdiskLock) (
     Do virtio_alloc (\<lambda>idx.
     Seq (virtio_submit b write idx)
     (virtio_wait b (fst idx))))"

section \<open>Interrupts\<close>

definition virtio_complete :: "('z virtio_scheme, unit) kern" where
  "virtio_complete =
     Do (gets (\<lambda>s. unat (vused_ring s (unat (used_idx s) mod NUM)))) (\<lambda>h.
     Do (gets (\<lambda>s. info_status s h)) (\<lambda>st.
     if st \<noteq> 0 then panic ''virtio_disk_intr status'' else
     Do (gets (\<lambda>s. info_b s h)) (\<lambda>b. case b of None \<Rightarrow> stop (Fault ''virtio_disk_intr'') | Some b \<Rightarrow>
     Seq (upd_buf b (\<lambda>x. x\<lparr>bdisk := False\<rparr>)) (
     Seq (wakeup (BufChan b))
     (modify (\<lambda>s. s\<lparr>used_idx := used_idx s + 1\<rparr>))))))"

text \<open>The loop runs once for each entry the device has added to the used ring.\<close>

definition virtio_disk_intr :: "('z virtio_scheme, unit) kern" where
  "virtio_disk_intr =
     Seq (acquire VdiskLock) (
     Do (mmio_read VIRTIO_MMIO_INTERRUPT_STATUS) (\<lambda>st.
     Seq (mmio_write VIRTIO_MMIO_INTERRUPT_ACK (st AND 3)) (
     Do (gets (\<lambda>s. unat (vused_idx s - used_idx s))) (\<lambda>n.
     Seq (for_each [0..<n] (\<lambda>_. virtio_complete))
     (release VdiskLock)))))"

end
