(* ===== verification/Riscv.thy ===== *)
theory Riscv
  imports Spinlock
begin

text \<open>
  The privileged registers of \<open>kernel/riscv.h\<close>: one accessor per inline function of the header, each
  on the register of the hart the code runs on. A register keeps what is written to it; which bits of
  it the hardware fixes is not modelled.
\<close>

definition MSTATUS_MPP_MASK :: uint64 where "MSTATUS_MPP_MASK = push_bit 11 3"
definition MSTATUS_MPP_S :: uint64 where "MSTATUS_MPP_S = push_bit 11 1"
definition SSTATUS_SPP :: uint64 where "SSTATUS_SPP = push_bit 8 1"
definition SSTATUS_SPIE :: uint64 where "SSTATUS_SPIE = push_bit 5 1"
definition SIE_SEIE :: uint64 where "SIE_SEIE = push_bit 9 1"
definition SIE_STIE :: uint64 where "SIE_STIE = push_bit 5 1"
definition MIE_STIE :: uint64 where "MIE_STIE = push_bit 5 1"

definition r_sstatus :: "('z mach_scheme, uint64) kern" where "r_sstatus = r_csr Sstatus"
definition w_sstatus :: "uint64 \<Rightarrow> ('z mach_scheme, unit) kern" where "w_sstatus x = w_csr Sstatus x"
definition r_mstatus :: "('z mach_scheme, uint64) kern" where "r_mstatus = r_csr Mstatus"
definition w_mstatus :: "uint64 \<Rightarrow> ('z mach_scheme, unit) kern" where "w_mstatus x = w_csr Mstatus x"
definition w_mepc :: "uint64 \<Rightarrow> ('z mach_scheme, unit) kern" where "w_mepc x = w_csr Mepc x"
definition r_sip :: "('z mach_scheme, uint64) kern" where "r_sip = r_csr Sip"
definition w_sip :: "uint64 \<Rightarrow> ('z mach_scheme, unit) kern" where "w_sip x = w_csr Sip x"
definition r_sie :: "('z mach_scheme, uint64) kern" where "r_sie = r_csr Sie"
definition w_sie :: "uint64 \<Rightarrow> ('z mach_scheme, unit) kern" where "w_sie x = w_csr Sie x"
definition r_mie :: "('z mach_scheme, uint64) kern" where "r_mie = r_csr Mie"
definition w_mie :: "uint64 \<Rightarrow> ('z mach_scheme, unit) kern" where "w_mie x = w_csr Mie x"
definition r_sepc :: "('z mach_scheme, uint64) kern" where "r_sepc = r_csr Sepc"
definition w_sepc :: "uint64 \<Rightarrow> ('z mach_scheme, unit) kern" where "w_sepc x = w_csr Sepc x"
definition r_medeleg :: "('z mach_scheme, uint64) kern" where "r_medeleg = r_csr Medeleg"
definition w_medeleg :: "uint64 \<Rightarrow> ('z mach_scheme, unit) kern" where "w_medeleg x = w_csr Medeleg x"
definition r_mideleg :: "('z mach_scheme, uint64) kern" where "r_mideleg = r_csr Mideleg"
definition w_mideleg :: "uint64 \<Rightarrow> ('z mach_scheme, unit) kern" where "w_mideleg x = w_csr Mideleg x"
definition r_stvec :: "('z mach_scheme, uint64) kern" where "r_stvec = r_csr Stvec"
definition w_stvec :: "uint64 \<Rightarrow> ('z mach_scheme, unit) kern" where "w_stvec x = w_csr Stvec x"
definition r_stimecmp :: "('z mach_scheme, uint64) kern" where "r_stimecmp = r_csr Stimecmp"
definition w_stimecmp :: "uint64 \<Rightarrow> ('z mach_scheme, unit) kern" where "w_stimecmp x = w_csr Stimecmp x"
definition r_menvcfg :: "('z mach_scheme, uint64) kern" where "r_menvcfg = r_csr Menvcfg"
definition w_menvcfg :: "uint64 \<Rightarrow> ('z mach_scheme, unit) kern" where "w_menvcfg x = w_csr Menvcfg x"
definition w_pmpcfg0 :: "uint64 \<Rightarrow> ('z mach_scheme, unit) kern" where "w_pmpcfg0 x = w_csr Pmpcfg0 x"
definition w_pmpaddr0 :: "uint64 \<Rightarrow> ('z mach_scheme, unit) kern" where "w_pmpaddr0 x = w_csr Pmpaddr0 x"
definition r_satp :: "('z mach_scheme, uint64) kern" where "r_satp = r_csr Satp"
definition w_satp :: "uint64 \<Rightarrow> ('z mach_scheme, unit) kern" where "w_satp x = w_csr Satp x"
definition r_scause :: "('z mach_scheme, uint64) kern" where "r_scause = r_csr Scause"
definition r_stval :: "('z mach_scheme, uint64) kern" where "r_stval = r_csr Stval"
definition r_mcounteren :: "('z mach_scheme, uint64) kern" where "r_mcounteren = r_csr Mcounteren"
definition w_mcounteren :: "uint64 \<Rightarrow> ('z mach_scheme, unit) kern" where "w_mcounteren x = w_csr Mcounteren x"
definition r_time :: "('z mach_scheme, uint64) kern" where "r_time = r_csr Time"
definition r_mhartid :: "('z mach_scheme, uint64) kern" where "r_mhartid = r_csr Mhartid"

text \<open>\<open>tp\<close> holds the number of the hart.\<close>

definition r_tp :: "('z mach_scheme, uint64) kern" where "r_tp = gets (\<lambda>s. of_nat (tp s))"
definition w_tp :: "uint64 \<Rightarrow> ('z mach_scheme, unit) kern" where "w_tp x = modify (\<lambda>s. s\<lparr>tp := unat x\<rparr>)"

lemmas csr_defs =
  r_sstatus_def w_sstatus_def r_mstatus_def w_mstatus_def w_mepc_def r_sip_def w_sip_def r_sie_def w_sie_def r_mie_def w_mie_def r_sepc_def w_sepc_def r_medeleg_def w_medeleg_def r_mideleg_def w_mideleg_def r_stvec_def w_stvec_def r_stimecmp_def w_stimecmp_def r_menvcfg_def w_menvcfg_def w_pmpcfg0_def w_pmpaddr0_def r_satp_def w_satp_def r_scause_def  r_stval_def  r_mcounteren_def w_mcounteren_def r_time_def  r_mhartid_def 

end
