(* ===== verification/Trap.thy ===== *)
theory Trap
  imports Sysfile Virtio Riscv
begin

text \<open>
  Traps, interrupts and the remaining system calls: \<open>kernel/trap.c\<close>, \<open>kernel/plic.c\<close>,
  \<open>kernel/sysproc.c\<close>, the dispatch of \<open>kernel/syscall.c\<close> and \<open>forkret\<close> of \<open>kernel/proc.c\<close>. The registers
  of the interrupt controller are cells; what a claim returns is the contents of the claim register.
  A handler that gives up the CPU leaves with \<open>Swtch\<close>; \<open>usertrap_return\<close> and \<open>kerneltrap_return\<close> are what it
  does when it runs again.
\<close>

section \<open>State\<close>

definition UART0_IRQ :: nat where "UART0_IRQ = 10"
definition VIRTIO0_IRQ :: nat where "VIRTIO0_IRQ = 1"
definition PLIC_SENABLE :: "nat \<Rightarrow> uint64" where "PLIC_SENABLE hart = PLIC + 0x2080 + of_nat hart * 0x100"
definition PLIC_SPRIORITY :: "nat \<Rightarrow> uint64" where "PLIC_SPRIORITY hart = PLIC + 0x201000 + of_nat hart * 0x2000"
definition PLIC_SCLAIM :: "nat \<Rightarrow> uint64" where "PLIC_SCLAIM hart = PLIC + 0x201004 + of_nat hart * 0x2000"

record trapst = virtio +
  ticks :: uint
  plic :: "uint64 \<Rightarrow> uint"
  forkret_first :: bool
  started :: bool

section \<open>The interrupt controller\<close>

definition plic_set :: "uint64 \<Rightarrow> uint \<Rightarrow> ('z trapst_scheme, unit) kern" where
  "plic_set a v = modify (\<lambda>s. s\<lparr>plic := (plic s)(a := v)\<rparr>)"

definition plicinit :: "('z trapst_scheme, unit) kern" where
  "plicinit =
     Seq (plic_set (PLIC + of_nat (UART0_IRQ * 4)) 1)
     (plic_set (PLIC + of_nat (VIRTIO0_IRQ * 4)) 1)"

definition plicinithart :: "('z trapst_scheme, unit) kern" where
  "plicinithart =
     Do cpuid (\<lambda>hart.
     Seq (plic_set (PLIC_SENABLE hart) (push_bit UART0_IRQ 1 OR push_bit VIRTIO0_IRQ 1))
     (plic_set (PLIC_SPRIORITY hart) 0))"

definition plic_claim :: "('z trapst_scheme, uint) kern" where
  "plic_claim = Do cpuid (\<lambda>hart. gets (\<lambda>s. plic s (PLIC_SCLAIM hart)))"

definition plic_complete :: "uint \<Rightarrow> ('z trapst_scheme, unit) kern" where
  "plic_complete irq = Do cpuid (\<lambda>hart. plic_set (PLIC_SCLAIM hart) irq)"

section \<open>Interrupts\<close>

definition trapinit :: "('z trapst_scheme, unit) kern" where
  "trapinit = initlock TicksLock ''time''"

definition trapinithart :: "('z trapst_scheme, unit) kern" where
  "trapinithart = Do (gets kernelvec_sym) w_stvec"

definition clockintr :: "('z trapst_scheme, unit) kern" where
  "clockintr =
     Do cpuid (\<lambda>hart.
     Seq (kwhen (hart = 0) (
       Seq (acquire TicksLock) (
       Seq (modify (\<lambda>s. s\<lparr>ticks := ticks s + 1\<rparr>)) (
       Seq (wakeup TicksChan)
       (release TicksLock))))) (
     Do r_time (\<lambda>t. w_stimecmp (t + 1000000))))"

definition devintr :: "('z trapst_scheme, nat) kern" where
  "devintr =
     Do r_scause (\<lambda>scause.
     if scause = 0x8000000000000009 then
       Do plic_claim (\<lambda>irq.
       Seq (if irq = of_nat UART0_IRQ then uartintr
            else if irq = of_nat VIRTIO0_IRQ then virtio_disk_intr
            else kwhen (irq \<noteq> 0) (Seq (printf ''unexpected interrupt irq=%d\<newline>'' [VInt (ucast irq)]) skip)) (
       Seq (kwhen (irq \<noteq> 0) (plic_complete irq))
       (return 1)))
     else if scause = 0x8000000000000005 then
       Seq clockintr
       (return 2)
     else return 0)"

section \<open>Returning to user space\<close>

definition prepare_return :: "('z trapst_scheme, unit) kern" where
  "prepare_return =
     Do cur (\<lambda>p.
     Seq intr_off (
     Do (gets (\<lambda>s. TRAMPOLINE + (uservec_sym s - trampoline s))) (\<lambda>trampoline_uservec.
     Seq (w_stvec trampoline_uservec) (
     Do r_satp (\<lambda>satp.
     Seq (tf_set p Kernel_satp satp) (
     Do (gets (\<lambda>s. kstack (procs s p))) (\<lambda>ks.
     Seq (tf_set p Kernel_sp (ks + of_nat PGSIZE)) (
     Do (gets usertrap_sym) (\<lambda>ut.
     Seq (tf_set p Kernel_trap ut) (
     Do r_tp (\<lambda>hart.
     Seq (tf_set p Kernel_hartid hart) (
     Do r_sstatus (\<lambda>x.
     Seq (w_sstatus ((x AND NOT SSTATUS_SPP) OR SSTATUS_SPIE)) (
     Do (tf_get p Epc) w_sepc))))))))))))))"

definition forkret :: "('z trapst_scheme, uint64 \<times> uint64) kern" where
  "forkret =
     Do cur (\<lambda>p.
     Seq (release (ProcLock p)) (
     Do (gets forkret_first) (\<lambda>first.
     Seq (kwhen first (
       Seq (fsinit ROOTDEV) (
       Seq (modify (\<lambda>s. s\<lparr>forkret_first := False\<rparr>)) (
       let init = map of_char ''/init'' in
       Do (kexec init [init]) (\<lambda>argc.
       Seq (tf_set p A0 (word_of_int argc)) (
       Do (tf_get p A0) (\<lambda>a.
       if a = - 1 then panic ''exec'' else skip))))))) (
     Seq prepare_return (
     Do (gets (\<lambda>s. (TRAMPOLINE + (userret_sym s - trampoline s), MAKE_SATP (pagetable (procs s p)))))
     return)))))"

section \<open>System calls on processes\<close>

definition sys_exit :: "('z trapst_scheme, uint64) kern" where
  "sys_exit = Do (argint 0) (\<lambda>n. kexit (word_of_int n))"

definition sys_getpid :: "('z trapst_scheme, uint64) kern" where
  "sys_getpid = Do cur (\<lambda>p. gets (\<lambda>s. scast (pid (procs s p))))"

definition sys_fork :: "('z trapst_scheme, uint64) kern" where
  "sys_fork = Do kfork (\<lambda>r. return (word_of_int r))"

definition sys_wait :: "('z trapst_scheme, uint64) kern" where
  "sys_wait = Do (argaddr 0) (\<lambda>p. Do (kwait p) (\<lambda>r. return (word_of_int r)))"

definition SBRK_EAGER :: int where "SBRK_EAGER = 1"
definition SBRK_LAZY :: int where "SBRK_LAZY = 2"

definition sys_sbrk :: "('z trapst_scheme, uint64) kern" where
  "sys_sbrk =
     Do (argint 0) (\<lambda>n.
     Do (argint 1) (\<lambda>t.
     Do cur (\<lambda>p.
     Do (gets (\<lambda>s. sz (procs s p))) (\<lambda>addr.
     if t = SBRK_EAGER \<or> n < 0 then
       Do (growproc n) (\<lambda>r.
       return (if r < 0 then - 1 else addr))
     else if addr + word_of_int n < addr then return (- 1)
     else
       Seq (upd_proc p (\<lambda>q. q\<lparr>sz := sz q + word_of_int n\<rparr>))
       (return addr)))))"

text \<open>The loop of \<open>sys_pause\<close> with \<open>tickslock\<close> held; a sleeper runs \<open>sleep_resume\<close> and enters it again.\<close>

definition sys_pause_loop :: "uint \<Rightarrow> uint \<Rightarrow> ('z trapst_scheme, uint64) kern" where
  "sys_pause_loop ticks0 n =
     Do (gets ticks) (\<lambda>t.
     if t - ticks0 < n then
       Do cur (\<lambda>p.
       Do (killed p) (\<lambda>k.
       if k then Seq (release TicksLock) (return (- 1))
       else sleep TicksChan TicksLock))
     else Seq (release TicksLock) (return 0))"

definition sys_pause :: "('z trapst_scheme, uint64) kern" where
  "sys_pause =
     Do (argint 0) (\<lambda>n.
     let n = (if n < 0 then 0 else n) in
     Seq (acquire TicksLock) (
     Do (gets ticks) (\<lambda>ticks0.
     sys_pause_loop ticks0 (word_of_int n))))"

definition sys_kill :: "('z trapst_scheme, uint64) kern" where
  "sys_kill = Do (argint 0) (\<lambda>n. Do (kkill (word_of_int n)) (\<lambda>r. return (word_of_int r)))"

definition sys_uptime :: "('z trapst_scheme, uint64) kern" where
  "sys_uptime =
     Seq (acquire TicksLock) (
     Do (gets ticks) (\<lambda>xticks.
     Seq (release TicksLock)
     (return (ucast xticks))))"

section \<open>Dispatch\<close>

definition syscalls :: "(int \<times> ('z trapst_scheme, uint64) kern) list" where
  "syscalls =
     [(1, sys_fork), (2, sys_exit), (3, sys_wait), (4, sys_pipe), (5, sys_read), (6, sys_kill), (7, sys_exec),
      (8, sys_fstat), (9, sys_chdir), (10, sys_dup), (11, sys_getpid), (12, sys_sbrk), (13, sys_pause),
      (14, sys_uptime), (15, sys_open), (16, sys_write), (17, sys_mknod), (18, sys_unlink), (19, sys_link),
      (20, sys_mkdir), (21, sys_close), (22, sys_symlink)]"

definition syscall :: "('z trapst_scheme, unit) kern" where
  "syscall =
     Do cur (\<lambda>p.
     Do (tf_get p A7) (\<lambda>a7.
     let num = sint (ucast a7 :: uint) in
     case map_of syscalls num of
       Some f \<Rightarrow> Do f (tf_set p A0)
     | None \<Rightarrow>
         Do (gets (\<lambda>s. procs s p)) (\<lambda>q.
         Seq (printf ''%d %s: unknown sys call %d\<newline>'' [VInt (ucast (pid q)), VStr (Some (pname q)), VInt (word_of_int num)])
         (tf_set p A0 (- 1)))))"

section \<open>Traps\<close>

definition usertrap_return :: "nat \<Rightarrow> ('z trapst_scheme, uint64) kern" where
  "usertrap_return p =
     Seq prepare_return
     (gets (\<lambda>s. MAKE_SATP (pagetable (procs s p))))"

text \<open>The branches of \<open>usertrap\<close> after the program counter is saved; the value is \<open>which_dev\<close>.\<close>

definition usertrap_handle :: "nat \<Rightarrow> ('z trapst_scheme, nat) kern" where
  "usertrap_handle p =
     Do r_scause (\<lambda>scause.
     if scause = 8 then
       Do (killed p) (\<lambda>k.
       Seq (kwhen k (kexit (- 1))) (
       Do (tf_get p Epc) (\<lambda>pc.
       Seq (tf_set p Epc (pc + 4)) (
       Seq intr_on (
       Seq syscall
       (return 0))))))
     else
     Do devintr (\<lambda>which_dev.
     if which_dev \<noteq> 0 then return which_dev else
     Do r_stval (\<lambda>stval.
     Do (if scause = 15 \<or> scause = 13 then
           Do (gets (\<lambda>s. pagetable (procs s p))) (\<lambda>pt. vmfault pt stval)
         else return 0) (\<lambda>pa.
     if pa \<noteq> 0 then return 0 else
     Do (gets (\<lambda>s. pid (procs s p))) (\<lambda>n.
     Seq (printf ''usertrap(): unexpected scause 0x%lx pid=%d\<newline>'' [VInt scause, VInt (ucast n)]) (
     Do r_sepc (\<lambda>sepc.
     Seq (printf ''            sepc=0x%lx stval=0x%lx\<newline>'' [VInt sepc, VInt stval]) (
     Seq (setkilled p)
     (return 0)))))))))"

definition usertrap :: "('z trapst_scheme, uint64) kern" where
  "usertrap =
     Do r_sstatus (\<lambda>st.
     if st AND SSTATUS_SPP \<noteq> 0 then panic ''usertrap: not from user mode'' else
     Do (gets kernelvec_sym) (\<lambda>kv.
     Seq (w_stvec kv) (
     Do cur (\<lambda>p.
     Do r_sepc (\<lambda>pc.
     Seq (tf_set p Epc pc) (
     Do (usertrap_handle p) (\<lambda>which_dev.
     Do (killed p) (\<lambda>k.
     Seq (kwhen k (kexit (- 1))) (
     Seq (kwhen (which_dev = 2) yield)
     (usertrap_return p))))))))))"

definition kerneltrap_return :: "uint64 \<Rightarrow> uint64 \<Rightarrow> ('z trapst_scheme, unit) kern" where
  "kerneltrap_return sepc sstatus = Seq (w_sepc sepc) (w_sstatus sstatus)"

definition kerneltrap :: "('z trapst_scheme, unit) kern" where
  "kerneltrap =
     Do r_sepc (\<lambda>sepc.
     Do r_sstatus (\<lambda>sstatus.
     Do r_scause (\<lambda>scause.
     if sstatus AND SSTATUS_SPP = 0 then panic ''kerneltrap: not from supervisor mode'' else
     Do intr_get (\<lambda>on.
     if on then panic ''kerneltrap: interrupts enabled'' else
     Do devintr (\<lambda>which_dev.
     if which_dev = 0 then
       Do r_stval (\<lambda>stval.
       Do r_sepc (\<lambda>pc.
       Seq (printf ''scause=0x%lx sepc=0x%lx stval=0x%lx\<newline>'' [VInt scause, VInt pc, VInt stval])
       (panic ''kerneltrap'')))
     else
     Do (if which_dev = 2 then myproc else return None) (\<lambda>p.
     Seq (kwhen (p \<noteq> None) yield)
     (kerneltrap_return sepc sstatus)))))))"

section \<open>Starting\<close>

definition timerinit :: "('z trapst_scheme, unit) kern" where
  "timerinit =
     Do r_mie (\<lambda>x.
     Seq (w_mie (x OR MIE_STIE)) (
     Do r_menvcfg (\<lambda>x.
     Seq (w_menvcfg (x OR push_bit 63 1)) (
     Do r_mcounteren (\<lambda>x.
     Seq (w_mcounteren (x OR 2)) (
     Do r_time (\<lambda>t. w_stimecmp (t + 1000000))))))))"

text \<open>\<open>start\<close> up to its \<open>mret\<close>, which continues at \<open>main\<close> in supervisor mode.\<close>

definition start :: "uint64 \<Rightarrow> ('z trapst_scheme, unit) kern" where
  "start main_sym =
     Do r_mstatus (\<lambda>x.
     Seq (w_mstatus ((x AND NOT MSTATUS_MPP_MASK) OR MSTATUS_MPP_S)) (
     Seq (w_mepc main_sym) (
     Seq (w_satp 0) (
     Seq (w_medeleg 0xffff) (
     Seq (w_mideleg 0xffff) (
     Do r_sie (\<lambda>x.
     Seq (w_sie (x OR SIE_SEIE OR SIE_STIE)) (
     Seq (w_pmpaddr0 0x3fffffffffffff) (
     Seq (w_pmpcfg0 0xf) (
     Seq timerinit (
     Do r_mhartid (\<lambda>hart. w_tp (ucast (ucast hart :: uint))))))))))))))"

text \<open>\<open>main\<close> up to its call of \<open>scheduler\<close>. A hart other than the first one spins until the first one
  has set \<open>started\<close>.\<close>

definition kmain :: "('z trapst_scheme, unit) kern" where
  "kmain =
     Do cpuid (\<lambda>hart.
     if hart = 0 then
       Seq consoleinit (
       Seq printfinit (
       Seq (printf ''\<newline>'' []) (
       Seq (printf ''xv6 kernel is booting\<newline>'' []) (
       Seq (printf ''\<newline>'' []) (
       Seq kinit (
       Seq kvminit (
       Seq kvminithart (
       Seq procinit (
       Seq trapinit (
       Seq trapinithart (
       Seq plicinit (
       Seq plicinithart (
       Seq binit (
       Seq iinit (
       Seq fileinit (
       Seq virtio_disk_init (
       Seq userinit
       (modify (\<lambda>s. s\<lparr>started := True\<rparr>)))))))))))))))))))
     else
       Do (gets started) (\<lambda>go.
       if \<not> go then stop Hang else
       Seq (printf ''hart %d starting\<newline>'' [VInt (of_nat hart)]) (
       Seq kvminithart (
       Seq trapinithart
       plicinithart))))"

section \<open>Pausing\<close>

lemma ticks_enter [simp]: "ticks (enter lk s) = ticks s"
  by (simp add: enter_def upd_mycpu_def)

lemma sys_pause_loop_eq:
  assumes "quiet s" and "\<not> pkilled (procs s (me s))"
  shows "sys_pause_loop ticks0 n (enter TicksLock s) =
    (if ticks s - ticks0 < n then Stop Swtch (asleep TicksChan s) else Done 0 s)"
proof -
  have sec: "in_section TicksLock s (enter TicksLock s)" using assms(1) by (simp add: in_section_def)
  have "cur (enter TicksLock s) = Done (me s) (enter TicksLock s)"
    using assms(1) by (rule cur_in_section) simp_all
  moreover have "killed (me s) (enter TicksLock s) = Done False (enter TicksLock s)"
    using killed_in_section [OF sec, of "me s"] assms(2) by simp
  moreover have "release TicksLock (enter TicksLock s) = Done () s"
    using assms(1) by (simp add: release_enter leave_enter quiet_settled quiet_free)
  ultimately show ?thesis
    using assms(1) by (simp add: sys_pause_loop_def Do_def gets_def return_def sleep_asleep)
qed

text \<open>A tick on hart 0 while it idles, after which it runs process \<open>p\<close>, asleep in \<open>sys_pause\<close>, until
  \<open>p\<close> returns from the call or sleeps again.\<close>

definition pause_round :: "nat \<Rightarrow> bool \<Rightarrow> uint \<Rightarrow> uint \<Rightarrow> ('z trapst_scheme, uint64) kern" where
  "pause_round p saved ticks0 n =
     Seq clockintr (
     Seq (Do (scheduler_try p) (\<lambda>ran. if ran then sleep_resume p saved TicksLock else stop Hang))
     (sys_pause_loop ticks0 n))"

primrec pause_rounds :: "nat \<Rightarrow> nat \<Rightarrow> bool \<Rightarrow> uint \<Rightarrow> uint \<Rightarrow> 'z trapst_scheme \<Rightarrow> (uint64, 'z trapst_scheme) res" where
  "pause_rounds 0 p saved ticks0 n s = Stop Hang s"
| "pause_rounds (Suc k) p saved ticks0 n s = (case pause_round p saved ticks0 n s of
       Stop Swtch t \<Rightarrow> (case scheduler_back p t of
           Done _ u \<Rightarrow> pause_rounds k p saved ticks0 n u
         | Stop r u \<Rightarrow> Stop r u)
     | r \<Rightarrow> r)"

lemma idle_wakeup:
  assumes "hart_idle s" and "lk \<noteq> lk'" and "\<And>q. lk \<noteq> ProcLock q"
    and "u = (enter lk s)\<lparr>ticks := t\<rparr>"
  shows "wakeup chn u = Done () (u\<lparr>procs := woken chn None (procs s)\<rparr>)"
proof -
  have c: "mycpu u = pushed (mycpu s)" using assms(4) by (simp add: mycpu_def enter_def upd_mycpu_def)
  have "lk_free u (ProcLock p)" for p
    using assms(1,4) not_sym [OF assms(3) [of p]] by (simp add: hart_idle_def lk_free_def)
  then show ?thesis
    using assms(1,4) c by (subst wakeup_eq) (simp_all add: hart_idle_def settled_pushed)
qed

lemma clockintr_idle:
  assumes "hart_idle s" and "tp s = 0"
  shows "\<exists>C. clockintr s = Done () (s\<lparr>ticks := ticks s + 1, procs := woken TicksChan None (procs s), cpus := C\<rparr>) \<and>
    hart_idle (s\<lparr>cpus := C\<rparr>)"
proof -
  let ?u = "(enter TicksLock s)\<lparr>ticks := ticks s + 1\<rparr>"
  let ?s1 = "s\<lparr>ticks := ticks s + 1, procs := woken TicksChan None (procs s)\<rparr>"
  let ?C = "(cpus s)(tp s := (mycpu s)\<lparr>csrs := (csrs (mycpu s))(Stimecmp := csrs (mycpu s) Time + 1000000)\<rparr>)"
  have f: "lk_free s TicksLock" "settled (mycpu s)" using assms(1) by (simp_all add: hart_idle_def)
  have "acquire TicksLock s = Done () (enter TicksLock s)" using f by (intro acquire_free) (simp add: lk_free_def)
  moreover have "wakeup TicksChan ?u = Done () (?u\<lparr>procs := woken TicksChan None (procs s)\<rparr>)"
    by (rule idle_wakeup [OF assms(1), of TicksLock KmemLock]) simp_all
  moreover have "release TicksLock (?u\<lparr>procs := woken TicksChan None (procs s)\<rparr>) = Done () ?s1"
    using f by (subst release_from [of s]) (simp_all add: enter_def upd_mycpu_def)
  ultimately have "clockintr s = Done () (?s1\<lparr>cpus := ?C\<rparr>)"
    using assms(2) by (simp add: clockintr_def Do_def cpuid_def gets_def modify_def r_time_def w_stimecmp_def
        r_csr_def w_csr_def upd_mycpu_def mycpu_def)
  moreover have "hart_idle (s\<lparr>cpus := ?C\<rparr>)"
    using assms(1) by (simp add: hart_idle_def mycpu_def settled_def ints_on_def lk_free_def)
  ultimately show ?thesis by (intro exI [of _ ?C]) simp
qed

definition pausing :: "nat \<Rightarrow> 'z trapst_scheme \<Rightarrow> bool" where
  "pausing p s \<longleftrightarrow> hart_idle s \<and> tp s = 0 \<and> p < NPROC \<and> pstate (procs s p) = SLEEPING \<and>
     pchan (procs s p) = Some TicksChan \<and> \<not> pkilled (procs s p)"

lemma pause_round_eq:
  assumes "pausing p s"
  obtains t where "quiet t" and "me t = p" and "tp t = 0" and "ticks t = ticks s + 1" and "\<not> pkilled (procs t p)"
    and "pause_round p saved ticks0 n s =
      (if ticks t - ticks0 < n then Stop Swtch (asleep TicksChan t) else Done 0 t)"
proof -
  obtain C where C: "clockintr s = Done () (s\<lparr>ticks := ticks s + 1, procs := woken TicksChan None (procs s), cpus := C\<rparr>)"
    "hart_idle (s\<lparr>cpus := C\<rparr>)"
    using clockintr_idle [of s] assms by (auto simp: pausing_def)
  let ?s1 = "s\<lparr>ticks := ticks s + 1, procs := woken TicksChan None (procs s), cpus := C\<rparr>"
  have "hart_idle ?s1" using C(2) by (simp add: hart_idle_def mycpu_def lk_free_def)
  moreover have "pstate (procs ?s1 p) = RUNNABLE" using assms by (simp add: pausing_def woken_def)
  moreover have "p < NPROC" using assms by (simp add: pausing_def)
  ultimately obtain t where t:
    "Do (scheduler_try p) (\<lambda>ran. if ran then sleep_resume p saved TicksLock else stop Hang) ?s1 = Done () (enter TicksLock t)"
    "quiet t" "me t = p" "t = ?s1\<lparr>cpus := cpus t, procs := (procs ?s1)(p := (procs ?s1 p)\<lparr>pstate := RUNNING, pchan := None\<rparr>)\<rparr>"
    "tp t = tp ?s1"
    by (rule scheduler_resumes [where lk = TicksLock and saved = saved]) simp_all
  have f: "ticks t = ticks s + 1" "tp t = 0" "\<not> pkilled (procs t p)"
    using assms by (subst t(4), simp add: pausing_def woken_def)+
  have "pause_round p saved ticks0 n s = sys_pause_loop ticks0 n (enter TicksLock t)"
    unfolding pause_round_def by (subst Do_Done, rule C(1), subst Do_Done, rule t(1), rule refl)
  also have "\<dots> = (if ticks t - ticks0 < n then Stop Swtch (asleep TicksChan t) else Done 0 t)"
    using t(2,3) f by (intro sys_pause_loop_eq) simp_all
  finally show ?thesis using t(2,3) f by (intro that [of t]) simp_all
qed

lemma pausing_again:
  assumes "quiet t" and "tp t = 0" and "\<not> pkilled (procs t (me t))"
  obtains u where "scheduler_back (me t) (asleep TicksChan t) = Done () u" and "pausing (me t) u" and "ticks u = ticks t"
proof -
  let ?u = "set_cproc None (t\<lparr>procs := (procs t)(me t := (procs t (me t))\<lparr>pchan := Some TicksChan, pstate := SLEEPING\<rparr>)\<rparr>)"
  have "pausing (me t) ?u"
    using assms idle_asleep [OF assms(1)] quiet_me [OF assms(1)]
    by (simp add: pausing_def) (simp add: set_cproc_def upd_mycpu_def)
  moreover have "ticks ?u = ticks t" by (simp add: set_cproc_def upd_mycpu_def)
  ultimately show ?thesis using scheduler_back_asleep [OF assms(1)] that by blast
qed

lemma pause_rounds_return:
  assumes "pausing p s" and "n - (ticks s - ticks0) = of_nat (Suc k)" and "ticks s - ticks0 < n" and "Suc k < 2 ^ 32"
  shows "\<exists>t. pause_rounds (Suc k) p saved ticks0 n s = Done 0 t \<and> ticks t - ticks0 = n \<and> me t = p \<and> quiet t"
  using assms
proof (induction k arbitrary: s)
  case 0
  obtain t where t: "quiet t" "me t = p" "ticks t = ticks s + 1"
    "pause_round p saved ticks0 n s = (if ticks t - ticks0 < n then Stop Swtch (asleep TicksChan t) else Done 0 t)"
    using pause_round_eq [OF 0(1)] by metis
  have "ticks t - ticks0 = n" using 0(2) t(3) by (simp add: algebra_simps)
  then show ?case using t by simp
next
  case (Suc k)
  obtain t where t: "quiet t" "me t = p" "tp t = 0" "ticks t = ticks s + 1" "\<not> pkilled (procs t p)"
    "pause_round p saved ticks0 n s = (if ticks t - ticks0 < n then Stop Swtch (asleep TicksChan t) else Done 0 t)"
    using pause_round_eq [OF Suc.prems(1)] by metis
  have d: "n - (ticks t - ticks0) = of_nat (Suc k)" using Suc.prems(2) t(4) by (simp add: algebra_simps)
  have "unat (n - (ticks s - ticks0)) = Suc (Suc k)"
    using Suc.prems(2,4) by (simp only: unat_of_nat) simp
  then have "unat (ticks s - ticks0) + Suc (Suc k) = unat n"
    using Suc.prems(3) by (simp add: unat_sub word_less_nat_alt word_le_nat_alt)
  then have "unat (ticks s - ticks0 + 1) = unat (ticks s - ticks0) + 1" "unat (ticks s - ticks0) + 1 < unat n"
    using unat_uint_less [of n] by (simp_all add: unat_add_small)
  then have "ticks t - ticks0 < n"
    using t(4) by (simp add: word_less_nat_alt diff_add_eq)
  moreover obtain u where u: "scheduler_back p (asleep TicksChan t) = Done () u" "pausing p u" "ticks u = ticks t"
    using pausing_again [of t] t by metis
  ultimately show ?case using Suc.IH [of u] d u t(6) Suc.prems(4) by simp
qed

text \<open>The first argument of the system call, as \<open>argint\<close> reads it from the trap frame.\<close>

definition int_arg0 :: "'z kmem_scheme \<Rightarrow> int" where
  "int_arg0 s = sint (ucast (rd64 (mem s) (trapframe (procs s (me s)) + tf_off A0)) :: uint)"

lemma argint_0: "quiet s \<Longrightarrow> argint 0 s = Done (int_arg0 s) s"
  by (simp add: argint_def argraw_def tf_get_def Do_def quiet_cur gets_def return_def int_arg0_def)

lemma int_arg0_less: "int_arg0 s < 2 ^ 31"
  using sint_less [of "ucast (rd64 (mem s) (trapframe (procs s (me s)) + tf_off A0)) :: uint"]
  by (simp add: int_arg0_def)

text \<open>C10: a pause ends. A process that calls \<open>pause(n)\<close> goes to sleep, and if the clock keeps ticking and
  the scheduler runs the process after each tick, the call returns 0 at the \<open>n\<close>th tick and not
  before, also when the tick counter wraps around on the way.\<close>

theorem sys_pause_returns:
  assumes "quiet s" and "tp s = 0" and "\<not> pkilled (procs s (me s))" and "0 < int_arg0 s"
  shows "\<exists>t u. sys_pause s = Stop Swtch (asleep TicksChan s) \<and>
    scheduler_back (me s) (asleep TicksChan s) = Done () t \<and>
    pause_rounds (nat (int_arg0 s)) (me s) saved (ticks s) (word_of_int (int_arg0 s)) t = Done 0 u \<and>
    ticks u = ticks s + word_of_int (int_arg0 s)"
proof -
  let ?n = "word_of_int (int_arg0 s) :: uint"
  obtain k where k: "nat (int_arg0 s) = Suc k" using assms(4) by (cases "nat (int_arg0 s)") auto
  have small: "Suc k < 2 ^ 32" using k int_arg0_less [of s] by simp
  have "int_arg0 s = int (Suc k)" using k assms(4) by linarith
  then have n: "?n = of_nat (Suc k)" by (simp only: of_int_of_nat_eq)
  have pos: "0 < ?n" unfolding n using small by (simp only: word_less_nat_alt unat_of_nat) simp
  have "acquire TicksLock s = Done () (enter TicksLock s)" using assms(1) by (rule quiet_acquire)
  with assms argint_0 [OF assms(1)] have "sys_pause s = sys_pause_loop (ticks s) ?n (enter TicksLock s)"
    by (simp add: sys_pause_def Do_def gets_def)
  then have sl: "sys_pause s = Stop Swtch (asleep TicksChan s)"
    using sys_pause_loop_eq [OF assms(1,3)] pos by simp
  obtain t where t: "scheduler_back (me s) (asleep TicksChan s) = Done () t" "pausing (me s) t" "ticks t = ticks s"
    using pausing_again [OF assms(1-3)] .
  obtain u where "pause_rounds (Suc k) (me s) saved (ticks s) ?n t = Done 0 u" "ticks u - ticks s = ?n"
    using pause_rounds_return [OF t(2), of ?n "ticks s" k saved] t(3) n pos small by auto
  then show ?thesis using sl t(1) k by (intro exI [of _ t] exI [of _ u]) (simp add: algebra_simps)
qed

section \<open>Lazy growth\<close>

definition int_arg1 :: "'z kmem_scheme \<Rightarrow> int" where
  "int_arg1 s = sint (ucast (rd64 (mem s) (trapframe (procs s (me s)) + tf_off A1)) :: uint)"

lemma argint_1: "quiet s \<Longrightarrow> argint 1 s = Done (int_arg1 s) s"
  by (simp add: argint_def argraw_def tf_get_def Do_def quiet_cur gets_def return_def int_arg1_def)

lemma copyin_beyond_panics:
  assumes "quiet s" and "0 < n" and "MAXVA \<le> PGROUNDDOWN va" and "PGROUNDDOWN va < sz (procs s (me s))"
  shows "copyin root va n s = Stop (Panic ''walk'') s"
proof -
  let ?va = "PGROUNDDOWN va"
  have "PGROUNDDOWN ?va = ?va" by (simp add: PGROUNDDOWN_def)
  moreover have "\<not> sz (procs s (me s)) \<le> ?va" using assms(4) by simp
  ultimately have "vmfault root ?va s = Stop (Panic ''walk'') s"
    using assms(1,3) by (simp add: vmfault_def Do_def quiet_cur gets_def Let_def ismapped_def walk_def stop_def)
  moreover have "walkaddr root ?va s = Done 0 s" using assms(3) by (simp add: walkaddr_def return_def)
  ultimately show ?thesis
    using assms(2) by (subst copyin.simps) (simp add: Do_def Let_def)
qed

text \<open>C27: lazy growth is not bounded by the address space. A lazy \<open>sbrk\<close> that takes the size of the process
  beyond \<open>MAXVA\<close> succeeds; from then on a system call that fetches a word from there, as \<open>exec\<close> does with
  its argument vector, panics the kernel.\<close>

theorem lazy_sbrk_panics:
  fixes s :: "'z trapst_scheme"
  defines "old \<equiv> sz (procs s (me s))" and "n \<equiv> word_of_int (int_arg0 s)"
  assumes "quiet s" and "0 \<le> int_arg0 s" and "int_arg1 s = SBRK_LAZY"
    and "old \<le> old + n" and "MAXVA + 8 \<le> old + n"
  shows "\<exists>t. sys_sbrk s = Done old t \<and> fetchaddr MAXVA t = Stop (Panic ''walk'') t"
proof -
  let ?t = "s\<lparr>procs := (procs s)(me s := (procs s (me s))\<lparr>sz := old + n\<rparr>)\<rparr>"
  have "\<not> old + n < old" using assms(6) by simp
  then have "sys_sbrk s = Done old ?t"
    using assms(3-5) argint_0 [of s] argint_1 [of s]
    by (simp add: sys_sbrk_def Do_def quiet_cur gets_def upd_proc_eq return_def SBRK_LAZY_def SBRK_EAGER_def
        old_def n_def)
  moreover have q: "quiet ?t" "me ?t = me s" using assms(3) by simp_all
  moreover have "MAXVA < old + n" "\<not> old + n < MAXVA + 8"
    using assms(7) by (simp_all add: MAXVA_eq linorder_not_less) (simp add: word_less_nat_alt word_le_nat_alt)
  moreover have "copyin root MAXVA 8 ?t = Stop (Panic ''walk'') ?t" for root
    using q calculation(4) by (intro copyin_beyond_panics) (simp_all add: MAXVA_eq PGROUNDDOWN_def PGSIZE_def)
  moreover have g: "(old + n \<le> MAXVA \<or> old + n < MAXVA + 8) = False" using calculation(4,5) by simp
  ultimately show ?thesis
    by (intro exI [of _ ?t]) (simp add: fetchaddr_def Do_def quiet_cur gets_def g)
qed

section \<open>A machine in which process 0 runs\<close>

definition trap0 :: trapst where
  "trap0 = virtio.extend (procst.extend (filest.extend (pipest.extend pipe0
       (filest.fields (\<lambda>_. \<lparr>ftype = FD_NONE, fref = 0, readable = False, writable = False, fpipe = 0, fip = 0,
          foff = 0, fmajor = 0\<rparr>) (\<lambda>_. 0)))
     (procst.fields 0x80001000 0x80002000 0x80003000 0x80007000 0x80007090))
     (virtio.fields (\<lambda>_. 0) 0xF (\<lambda>_. \<lparr>vd_addr = DmaNull, vd_len = 0, vd_flags = 0, vd_next = 0\<rparr>) 0 (\<lambda>_. 0) 0 (\<lambda>_. 0)
       (\<lambda>i. i < NUM) 0 (\<lambda>_. None) (\<lambda>_. 0) (\<lambda>_. \<lparr>vr_type = 0, vr_reserved = 0, vr_sector = 0\<rparr>)))
     (trapst.fields 0 (\<lambda>_. 0) False True)"

lemma trap0_proj [simp]:
  "tp trap0 = tp uart0" "cpus trap0 = cpus uart0" "locks trap0 = locks uart0"
  "procs trap0 = procs0(0 := (procs0 0)\<lparr>pagetable := root0\<rparr>)" "mem trap0 = m_page" "kend trap0 = root0"
  "freelist trap0 = 0" "ticks trap0 = 0"
  "ftable trap0 = (\<lambda>_. \<lparr>ftype = FD_NONE, fref = 0, readable = False, writable = False, fpipe = 0, fip = 0,
     foff = 0, fmajor = 0\<rparr>)"
  using pipe0_proj
  by (simp_all add: trap0_def virtio.defs procst.defs filest.defs pipest.defs trapst.defs del: pipe0_proj)

lemma quiet_trap0: "quiet trap0" and me_trap0: "me trap0 = 0"
  using quiet_uart0 me_sched0 by (simp_all add: quiet_def me_def mycpu_def lk_free_def)


theorem sys_pause_returns_witness:
  "\<exists>(s :: trapst) t u. ticks s = 0xFFFFFFFE \<and> sys_pause s = Stop Swtch (asleep TicksChan s) \<and>
     scheduler_back (me s) (asleep TicksChan s) = Done () t \<and>
     pause_rounds 5 (me s) True (ticks s) 5 t = Done 0 u \<and> ticks u = 3"
proof -
  let ?s = "trap0\<lparr>ticks := 0xFFFFFFFE, mem := wr64 (tf_off A0) 5 m_page\<rparr>"
  have w: "(4294967299 :: uint) = 3" by simp
  have q: "quiet ?s" "me ?s = 0" using quiet_trap0 me_trap0 by (simp_all add: quiet_def me_def mycpu_def lk_free_def)
  moreover have "int_arg0 ?s = 5" using q(2) by (simp add: int_arg0_def procs0_def proc0_def)
  moreover have "tp ?s = 0" by (simp add: sched0_defs)
  moreover have "\<not> pkilled (procs ?s (me ?s))" using q(2) by (simp add: procs0_def proc0_def)
  ultimately obtain t u where "sys_pause ?s = Stop Swtch (asleep TicksChan ?s)"
    "scheduler_back (me ?s) (asleep TicksChan ?s) = Done () t"
    "pause_rounds 5 (me ?s) True (ticks ?s) 5 t = Done 0 u" "ticks u = 3"
    using sys_pause_returns [of ?s True] by (auto simp: w)
  then show ?thesis by (intro exI [of _ ?s] exI [of _ t] exI [of _ u] conjI) simp_all
qed

theorem lazy_sbrk_panics_witness:
  "\<exists>(s :: trapst) t. sys_sbrk s = Done 0x3FFFF00000 t \<and> fetchaddr MAXVA t = Stop (Panic ''walk'') t"
proof -
  let ?s = "trap0\<lparr>mem := wr64 (tf_off A1) 2 (wr64 (tf_off A0) 0x200000 m_page),
     procs := (procs trap0)(0 := (procs trap0 0)\<lparr>sz := 0x3FFFF00000\<rparr>)\<rparr>"
  have q: "quiet ?s" "me ?s = 0" using quiet_trap0 me_trap0 by (simp_all add: quiet_def me_def mycpu_def lk_free_def)
  have a: "tf_off A0 = 0x70" "tf_off A1 = 0x78" by (simp_all add: tf_off_def trapframe_regs_def)
  have args: "int_arg0 ?s = 0x200000" "int_arg1 ?s = 2"
    using q(2) by (simp_all add: int_arg0_def int_arg1_def procs0_def proc0_def a rd64_wr64_other)
  have z: "sz (procs ?s (me ?s)) = 0x3FFFF00000" using q(2) by simp
  obtain t where "sys_sbrk ?s = Done 0x3FFFF00000 t" "fetchaddr MAXVA t = Stop (Panic ''walk'') t"
    using lazy_sbrk_panics [of ?s, unfolded z args] q(1) by (auto simp: SBRK_LAZY_def MAXVA_eq)
  then show ?thesis by (intro exI conjI)
qed

end
