(* ===== verification/Frame.thy ===== *)
theory Frame
  imports Fs
begin

text \<open>
  Invariants that the lower half of the kernel can not break. \<open>keeps I m\<close>: from a state with \<open>I\<close>, the
  operation \<open>m\<close> ends in a state with \<open>I\<close>, whichever way it ends: returning, asleep, spinning or in a
  panic. \<open>yields I m P\<close> says in addition that a value it returns satisfies \<open>P\<close>. The locale
  \<open>kernel_inv\<close> is the interface between such an invariant and the operations of the memory, console,
  buffer, log and file system layers: an invariant that does not depend on the state those layers own,
  and of a process only on its open files and its directory, is kept by every one of them.
\<close>

section \<open>Keeping an invariant\<close>

primrec final :: "('a, 's) res \<Rightarrow> 's" where
  "final (Done x t) = t"
| "final (Stop r t) = t"

definition yields :: "('s \<Rightarrow> bool) \<Rightarrow> ('s, 'a) kern \<Rightarrow> ('a \<Rightarrow> bool) \<Rightarrow> bool" where
  "yields I m P \<longleftrightarrow> (\<forall>s. I s \<longrightarrow> (case m s of Done x t \<Rightarrow> I t \<and> P x | Stop r t \<Rightarrow> I t))"

definition keeps :: "('s \<Rightarrow> bool) \<Rightarrow> ('s, 'a) kern \<Rightarrow> bool" where
  "keeps I m \<longleftrightarrow> yields I m (\<lambda>_. True)"

named_theorems keep \<open>operations that keep an invariant\<close>

lemma keeps_final_iff: "keeps I m \<longleftrightarrow> (\<forall>s. I s \<longrightarrow> I (final (m s)))"
proof -
  have "(case m s of Done x t \<Rightarrow> I t \<and> True | Stop r t \<Rightarrow> I t) = I (final (m s))" for s
    by (cases "m s") simp_all
  then show ?thesis by (simp add: keeps_def yields_def)
qed

lemma yieldsD: "yields I m P \<Longrightarrow> I s \<Longrightarrow> (case m s of Done x t \<Rightarrow> I t \<and> P x | Stop r t \<Rightarrow> I t)"
  by (simp add: yields_def)

lemma yields_keeps:
  assumes "yields I m P"
  shows "keeps I m"
  unfolding keeps_final_iff
proof (intro allI impI)
  fix s
  assume "I s"
  from yieldsD [OF assms this] show "I (final (m s))" by (cases "m s") simp_all
qed

lemma yields_bind:
  assumes "yields I m P" and "\<And>x. P x \<Longrightarrow> yields I (k x) Q"
  shows "yields I (Do m k) Q"
  unfolding yields_def
proof (intro allI impI)
  fix s
  assume "I s"
  note m = yieldsD [OF assms(1) this]
  show "case Do m k s of Done x t \<Rightarrow> I t \<and> Q x | Stop r t \<Rightarrow> I t"
  proof (cases "m s")
    case (Done x t)
    with m have "P x" "I t" by simp_all
    from yieldsD [OF assms(2) [OF this(1)] this(2)] show ?thesis by (simp add: Do_def Done)
  next
    case (Stop r t)
    with m show ?thesis by (simp add: Do_def)
  qed
qed

lemma yields_Do: "keeps I m \<Longrightarrow> (\<And>x. yields I (k x) Q) \<Longrightarrow> yields I (Do m k) Q"
  by (rule yields_bind [of I m "\<lambda>_. True"]) (simp_all add: keeps_def)

lemma keeps_bind: "yields I m P \<Longrightarrow> (\<And>x. P x \<Longrightarrow> keeps I (k x)) \<Longrightarrow> keeps I (Do m k)"
  unfolding keeps_def by (rule yields_bind)

lemma keeps_Do [keep]: "keeps I m \<Longrightarrow> (\<And>x. keeps I (k x)) \<Longrightarrow> keeps I (Do m k)"
  unfolding keeps_def by (rule yields_bind [of I m "\<lambda>_. True"]) simp_all

lemma yields_return: "P x \<Longrightarrow> yields I (return x) P"
  by (simp add: yields_def return_def)

lemma yields_gets: "(\<And>s. I s \<Longrightarrow> P (f s)) \<Longrightarrow> yields I (gets f) P"
  by (simp add: yields_def gets_def)

lemma yields_stop: "yields I (stop r) P"
  by (simp add: yields_def stop_def)

lemma yields_if: "(b \<Longrightarrow> yields I m P) \<Longrightarrow> (\<not> b \<Longrightarrow> yields I k P) \<Longrightarrow> yields I (if b then m else k) P"
  by simp

lemma yields_option:
  "(r = None \<Longrightarrow> yields I m P) \<Longrightarrow> (\<And>x. r = Some x \<Longrightarrow> yields I (k x) P) \<Longrightarrow>
   yields I (case r of None \<Rightarrow> m | Some x \<Rightarrow> k x) P"
  by (cases r) simp_all

lemma yields_prod: "(\<And>a b. r = (a, b) \<Longrightarrow> yields I (k a b) P) \<Longrightarrow> yields I (case r of (a, b) \<Rightarrow> k a b) P"
  by (cases r) simp

lemma yields_Let: "(\<And>x. yields I (f x) P) \<Longrightarrow> yields I (Let e f) P"
  by (simp add: Let_def)

lemma yields_for_find:
  assumes "\<And>i. yields I (body i) (case_option True P)"
  shows "yields I (for_find is body) (case_option True P)"
proof (induction "is")
  case Nil
  show ?case by (simp add: yields_return)
next
  case (Cons i "is")
  show ?case unfolding for_find.simps
    by (rule yields_bind [OF assms], rule yields_option, rule Cons, rule yields_return) simp
qed

lemmas yield_rules = yields_return yields_stop yields_if yields_option yields_prod yields_Let yields_Do

lemma keeps_return [keep]: "keeps I (return x)"
  by (simp add: keeps_def yields_return)

lemma keeps_gets [keep]: "keeps I (gets f)"
  by (simp add: keeps_def yields_gets)

lemma keeps_modify [keep]: "(\<And>s. I s \<Longrightarrow> I (f s)) \<Longrightarrow> keeps I (modify f)"
  by (simp add: keeps_def yields_def modify_def)

lemma keeps_stop [keep]: "keeps I (stop r)"
  by (simp add: keeps_def yields_stop)

lemma keeps_if [keep]: "(b \<Longrightarrow> keeps I m) \<Longrightarrow> (\<not> b \<Longrightarrow> keeps I k) \<Longrightarrow> keeps I (if b then m else k)"
  by simp

lemma keeps_option [keep]:
  "keeps I m \<Longrightarrow> (\<And>x. r = Some x \<Longrightarrow> keeps I (k x)) \<Longrightarrow> keeps I (case r of None \<Rightarrow> m | Some x \<Rightarrow> k x)"
  by (cases r) simp_all

lemma keeps_prod [keep]: "(\<And>a b. r = (a, b) \<Longrightarrow> keeps I (k a b)) \<Longrightarrow> keeps I (case r of (a, b) \<Rightarrow> k a b)"
  by (cases r) simp

lemma keeps_list [keep]:
  "keeps I m \<Longrightarrow> (\<And>x xs. keeps I (k x xs)) \<Longrightarrow> keeps I (case r of [] \<Rightarrow> m | x # xs \<Rightarrow> k x xs)"
  by (cases r) simp_all

lemma keeps_iodst [keep]:
  "(\<And>a. keeps I (m a)) \<Longrightarrow> (\<And>a. keeps I (k a)) \<Longrightarrow> keeps I l \<Longrightarrow>
   keeps I (case r of UserDst a \<Rightarrow> m a | KernDst a \<Rightarrow> k a | LocalDst \<Rightarrow> l)"
  by (cases r) simp_all

lemma keeps_iosrc [keep]:
  "(\<And>a. keeps I (m a)) \<Longrightarrow> (\<And>a. keeps I (k a)) \<Longrightarrow> (\<And>a. keeps I (l a)) \<Longrightarrow>
   keeps I (case r of UserSrc a \<Rightarrow> m a | KernSrc a \<Rightarrow> k a | LocalSrc a \<Rightarrow> l a)"
  by (cases r) simp_all

lemma keeps_Let [keep]: "(\<And>x. keeps I (f x)) \<Longrightarrow> keeps I (Let e f)"
  by (simp add: Let_def)

lemma keeps_for_each [keep]: "(\<And>i. keeps I (body i)) \<Longrightarrow> keeps I (for_each is body)"
  by (induction "is") (simp_all add: keeps_return keeps_Do)

lemma keeps_for_find [keep]:
  assumes "\<And>i. keeps I (body i)"
  shows "keeps I (for_find is body)"
proof (induction "is")
  case Nil
  show ?case by (simp add: keeps_return)
next
  case (Cons i "is")
  show ?case unfolding for_find.simps by (intro keeps_Do assms keeps_option Cons keeps_return)
qed

lemma keeps_va_int [keep]: "(\<And>x. keeps I (k x)) \<Longrightarrow> keeps I (va_int ap k)"
  by (cases "(ap, k)" rule: va_int.cases) (simp_all add: keeps_stop)

lemma keeps_va_str [keep]: "(\<And>x. keeps I (k x)) \<Longrightarrow> keeps I (va_str ap k)"
  by (cases "(ap, k)" rule: va_str.cases) (simp_all add: keeps_stop)

section \<open>The interface\<close>

locale kernel_inv =
  fixes I :: "'z fsst_scheme \<Rightarrow> bool"
  assumes cwd_range: "I s \<Longrightarrow> cwd (procs s p) = Some i \<Longrightarrow> i < NINODE"
    and upd_procs: "I s \<Longrightarrow> (\<And>p. ofile (P p) = ofile (procs s p)) \<Longrightarrow> (\<And>p. cwd (P p) = cwd (procs s p)) \<Longrightarrow>
      I (s\<lparr>procs := P\<rparr>)"
    and upd_cpus: "I s \<Longrightarrow> I (s\<lparr>cpus := v_cpus\<rparr>)"
    and upd_locks: "I s \<Longrightarrow> I (s\<lparr>locks := v_locks\<rparr>)"
    and upd_initproc: "I s \<Longrightarrow> I (s\<lparr>initproc := v_initproc\<rparr>)"
    and upd_nextpid: "I s \<Longrightarrow> I (s\<lparr>nextpid := v_nextpid\<rparr>)"
    and upd_slocks: "I s \<Longrightarrow> I (s\<lparr>slocks := v_slocks\<rparr>)"
    and upd_mem: "I s \<Longrightarrow> I (s\<lparr>mem := v_mem\<rparr>)"
    and upd_freelist: "I s \<Longrightarrow> I (s\<lparr>freelist := v_freelist\<rparr>)"
    and upd_kernel_pagetable: "I s \<Longrightarrow> I (s\<lparr>kernel_pagetable := v_kernel_pagetable\<rparr>)"
    and upd_uart_regs: "I s \<Longrightarrow> I (s\<lparr>uart_regs := v_uart_regs\<rparr>)"
    and upd_uart_in: "I s \<Longrightarrow> I (s\<lparr>uart_in := v_uart_in\<rparr>)"
    and upd_uart_out: "I s \<Longrightarrow> I (s\<lparr>uart_out := v_uart_out\<rparr>)"
    and upd_tx_busy: "I s \<Longrightarrow> I (s\<lparr>tx_busy := v_tx_busy\<rparr>)"
    and upd_panicking: "I s \<Longrightarrow> I (s\<lparr>panicking := v_panicking\<rparr>)"
    and upd_panicked: "I s \<Longrightarrow> I (s\<lparr>panicked := v_panicked\<rparr>)"
    and upd_cons_buf: "I s \<Longrightarrow> I (s\<lparr>cons_buf := v_cons_buf\<rparr>)"
    and upd_cons_r: "I s \<Longrightarrow> I (s\<lparr>cons_r := v_cons_r\<rparr>)"
    and upd_cons_w: "I s \<Longrightarrow> I (s\<lparr>cons_w := v_cons_w\<rparr>)"
    and upd_cons_e: "I s \<Longrightarrow> I (s\<lparr>cons_e := v_cons_e\<rparr>)"
    and upd_bufs: "I s \<Longrightarrow> I (s\<lparr>bufs := v_bufs\<rparr>)"
    and upd_lru: "I s \<Longrightarrow> I (s\<lparr>lru := v_lru\<rparr>)"
    and upd_disk: "I s \<Longrightarrow> I (s\<lparr>disk := v_disk\<rparr>)"
    and upd_dwrites: "I s \<Longrightarrow> I (s\<lparr>dwrites := v_dwrites\<rparr>)"
    and upd_log_start: "I s \<Longrightarrow> I (s\<lparr>log_start := v_log_start\<rparr>)"
    and upd_log_outstanding: "I s \<Longrightarrow> I (s\<lparr>log_outstanding := v_log_outstanding\<rparr>)"
    and upd_log_committing: "I s \<Longrightarrow> I (s\<lparr>log_committing := v_log_committing\<rparr>)"
    and upd_log_dev: "I s \<Longrightarrow> I (s\<lparr>log_dev := v_log_dev\<rparr>)"
    and upd_lh_n: "I s \<Longrightarrow> I (s\<lparr>lh_n := v_lh_n\<rparr>)"
    and upd_lh_block: "I s \<Longrightarrow> I (s\<lparr>lh_block := v_lh_block\<rparr>)"
    and upd_sb: "I s \<Longrightarrow> I (s\<lparr>sb := v_sb\<rparr>)"
    and upd_itable: "I s \<Longrightarrow> I (s\<lparr>itable := v_itable\<rparr>)"

context kernel_inv
begin

lemmas upds [keep] = upd_cpus upd_locks upd_initproc upd_nextpid upd_slocks upd_mem upd_freelist upd_kernel_pagetable upd_uart_regs upd_uart_in upd_uart_out upd_tx_busy upd_panicking upd_panicked upd_cons_buf upd_cons_r upd_cons_w upd_cons_e upd_bufs upd_lru upd_disk upd_dwrites upd_log_start upd_log_outstanding upd_log_committing upd_log_dev upd_lh_n upd_lh_block upd_sb upd_itable

lemma keeps_r_csr [keep]: "keeps I (r_csr x0)"
  unfolding r_csr_def by (intro keep)

lemma keeps_holding [keep]: "keeps I (holding x0)"
  unfolding holding_def by (intro keep)

lemma keeps_cpuid [keep]: "keeps I cpuid"
  unfolding cpuid_def by (intro keep)

lemma upd_mycpu [keep]: "I s \<Longrightarrow> I (upd_mycpu f s)"
  unfolding upd_mycpu_def by (rule upd_cpus)

lemma keeps_w_csr [keep]: "keeps I (w_csr x0 x1)"
  unfolding w_csr_def by (intro keep)

lemma keeps_intr_on [keep]: "keeps I intr_on"
  unfolding intr_on_def by (intro keep)

lemma keeps_intr_off [keep]: "keeps I intr_off"
  unfolding intr_off_def by (intro keep)

lemma keeps_intr_get [keep]: "keeps I intr_get"
  unfolding intr_get_def by (intro keep)

lemma keeps_push_off [keep]: "keeps I push_off"
  unfolding push_off_def by (intro keep)

lemma keeps_pop_off [keep]: "keeps I pop_off"
  unfolding pop_off_def by (intro keep)

lemma keeps_initlock [keep]: "keeps I (initlock x0 x1)"
  unfolding initlock_def by (intro keep)

lemma keeps_acquire [keep]: "keeps I (acquire x0)"
  unfolding acquire_def by (intro keep)

lemma keeps_release [keep]: "keeps I (release x0)"
  unfolding release_def by (intro keep)

lemma keeps_upd_proc:
  "(\<And>q. ofile (f q) = ofile q) \<Longrightarrow> (\<And>q. cwd (f q) = cwd q) \<Longrightarrow> keeps I (upd_proc p f)"
  unfolding upd_proc_def by (intro keep upd_procs) simp_all

lemma keeps_myproc [keep]: "keeps I myproc"
  unfolding myproc_def by (intro keep)

lemma keeps_cur [keep]: "keeps I cur"
  unfolding cur_def by (intro keep)

lemma keeps_allocpid [keep]: "keeps I allocpid"
  unfolding allocpid_def by (intro keep)

lemma keeps_sched [keep]: "keeps I sched"
  unfolding sched_def by (intro keep)

lemma keeps_sched_resume [keep]: "keeps I (sched_resume x0)"
  unfolding sched_resume_def by (intro keep)

lemma keeps_yield [keep]: "keeps I yield"
  unfolding yield_def by (intro keep keeps_upd_proc; simp)

lemma keeps_yield_resume [keep]: "keeps I (yield_resume x0 x1)"
  unfolding yield_resume_def by (intro keep keeps_upd_proc; simp)

lemma keeps_sleep [keep]: "keeps I (sleep x0 x1)"
  unfolding sleep_def by (intro keep keeps_upd_proc; simp)

lemma keeps_sleep_resume [keep]: "keeps I (sleep_resume x0 x1 x2)"
  unfolding sleep_resume_def by (intro keep keeps_upd_proc; simp)

lemma keeps_scheduler_try [keep]: "keeps I (scheduler_try x0)"
  unfolding scheduler_try_def by (intro keep keeps_upd_proc; simp)

lemma keeps_scheduler_back [keep]: "keeps I (scheduler_back x0)"
  unfolding scheduler_back_def by (intro keep keeps_upd_proc; simp)

lemma keeps_wakeup_one [keep]: "keeps I (wakeup_one x0 x1)"
  unfolding wakeup_one_def by (intro keep keeps_upd_proc; simp)

lemma keeps_wakeup [keep]: "keeps I (wakeup x0)"
  unfolding wakeup_def by (intro keep)

lemma keeps_kkill [keep]: "keeps I (kkill x0)"
  unfolding kkill_def by (intro keep keeps_upd_proc; simp)

lemma keeps_setkilled [keep]: "keeps I (setkilled x0)"
  unfolding setkilled_def by (intro keep keeps_upd_proc; simp)

lemma keeps_killed [keep]: "keeps I (killed x0)"
  unfolding killed_def by (intro keep keeps_upd_proc; simp)

lemma keeps_reparent [keep]: "keeps I (reparent x0)"
  unfolding reparent_def by (intro keep keeps_upd_proc; simp)

lemma keeps_upd_slock [keep]: "keeps I (upd_slock x0 x1)"
  unfolding upd_slock_def by (intro keep)

lemma keeps_initsleeplock [keep]: "keeps I (initsleeplock x0 x1)"
  unfolding initsleeplock_def by (intro keep)

lemma keeps_acquiresleep_loop [keep]: "keeps I (acquiresleep_loop x0)"
  unfolding acquiresleep_loop_def by (intro keep)

lemma keeps_acquiresleep [keep]: "keeps I (acquiresleep x0)"
  unfolding acquiresleep_def by (intro keep)

lemma keeps_releasesleep [keep]: "keeps I (releasesleep x0)"
  unfolding releasesleep_def by (intro keep)

lemma keeps_holdingsleep [keep]: "keeps I (holdingsleep x0)"
  unfolding holdingsleep_def by (intro keep)

lemma keeps_upd_mem [keep]: "keeps I (upd_mem x0)"
  unfolding upd_mem_def by (intro keep)

lemma keeps_kfree [keep]: "keeps I (kfree x0)"
  unfolding kfree_def by (intro keep)

lemma keeps_kalloc [keep]: "keeps I kalloc"
  unfolding kalloc_def by (intro keep)

lemma keeps_freerange_loop [keep]: "keeps I (freerange_loop p e)"
proof (induction p e rule: freerange_loop.induct)
  case (1 p e)
  show ?case by (subst freerange_loop.simps) (intro keep 1)
qed

lemma keeps_freerange [keep]: "keeps I (freerange x0 x1)"
  unfolding freerange_def by (intro keep)

lemma keeps_kinit [keep]: "keeps I kinit"
  unfolding kinit_def by (intro keep)

lemma keeps_walk_from [keep]: "keeps I (walk_from n pt va alloc)"
proof (induction n arbitrary: pt)
  case 0
  show ?case unfolding walk_from.simps by (intro keep)
next
  case (Suc n)
  show ?case unfolding walk_from.simps by (intro keep Suc)
qed

lemma keeps_walk [keep]: "keeps I (walk x0 x1 x2)"
  unfolding walk_def by (intro keep)

lemma keeps_walkaddr [keep]: "keeps I (walkaddr x0 x1)"
  unfolding walkaddr_def by (intro keep)

lemma keeps_mappages_loop [keep]: "keeps I (mappages_loop k pt a lst pa perm)"
proof (induction k arbitrary: a pa)
  case 0
  show ?case unfolding mappages_loop.simps by (intro keep)
next
  case (Suc k)
  show ?case unfolding mappages_loop.simps by (intro keep Suc)
qed

lemma keeps_mappages [keep]: "keeps I (mappages x0 x1 x2 x3 x4)"
  unfolding mappages_def by (intro keep)

lemma keeps_kvmmap [keep]: "keeps I (kvmmap x0 x1 x2 x3 x4)"
  unfolding kvmmap_def by (intro keep)

lemma keeps_proc_mapstacks [keep]: "keeps I (proc_mapstacks x0)"
  unfolding proc_mapstacks_def by (intro keep)

lemma keeps_kvmmake [keep]: "keeps I kvmmake"
  unfolding kvmmake_def by (intro keep)

lemma keeps_kvminit [keep]: "keeps I kvminit"
  unfolding kvminit_def by (intro keep)

lemma keeps_kvminithart [keep]: "keeps I kvminithart"
  unfolding kvminithart_def by (intro keep)

lemma keeps_uvmcreate [keep]: "keeps I uvmcreate"
  unfolding uvmcreate_def by (intro keep)

lemma keeps_uvmunmap [keep]: "keeps I (uvmunmap x0 x1 x2 x3)"
  unfolding uvmunmap_def by (intro keep)

lemma keeps_uvmdealloc [keep]: "keeps I (uvmdealloc x0 x1 x2)"
  unfolding uvmdealloc_def by (intro keep)

lemma keeps_uvmalloc [keep]: "keeps I (uvmalloc x0 x1 x2 x3)"
  unfolding uvmalloc_def by (intro keep)

lemma keeps_freewalk [keep]: "keeps I (freewalk d pt)"
proof (induction d arbitrary: pt)
  case 0
  show ?case unfolding freewalk.simps by (intro keep)
next
  case (Suc d)
  show ?case unfolding freewalk.simps by (intro keep Suc)
qed

lemma keeps_uvmfree [keep]: "keeps I (uvmfree x0 x1)"
  unfolding uvmfree_def by (intro keep)

lemma keeps_uvmcopy [keep]: "keeps I (uvmcopy x0 x1 x2)"
  unfolding uvmcopy_def by (intro keep)

lemma keeps_uvmclear [keep]: "keeps I (uvmclear x0 x1)"
  unfolding uvmclear_def by (intro keep)

lemma keeps_ismapped [keep]: "keeps I (ismapped x0 x1)"
  unfolding ismapped_def by (intro keep)

lemma keeps_vmfault [keep]: "keeps I (vmfault x0 x1)"
  unfolding vmfault_def by (intro keep)

lemma keeps_copyout [keep]: "keeps I (copyout pt va src)"
proof (induction src arbitrary: va rule: length_induct)
  case (1 src)
  then have ih: "\<And>va. src \<noteq> [] \<Longrightarrow> keeps I (copyout pt va (drop (chunk v (length src)) src))" for v
    by (simp add: chunk_pos)
  show ?case by (subst copyout.simps) (intro keep ih)
qed

lemma keeps_copyin [keep]: "keeps I (copyin pt va len)"
proof (induction len arbitrary: va rule: less_induct)
  case (less len)
  then have ih: "\<And>va. len \<noteq> 0 \<Longrightarrow> keeps I (copyin pt va (len - chunk v len))" for v
    by (simp add: chunk_pos)
  show ?case by (subst copyin.simps) (simp only: Let_def, intro keep ih)
qed

lemma keeps_copyinstr [keep]: "keeps I (copyinstr pt va len)"
proof (induction len arbitrary: va rule: less_induct)
  case (less len)
  then have ih: "\<And>va. len \<noteq> 0 \<Longrightarrow> keeps I (copyinstr pt va (len - chunk v len))" for v
    by (simp add: chunk_pos)
  show ?case by (subst copyinstr.simps) (simp only: Let_def, intro keep ih)
qed

lemma keeps_WriteReg [keep]: "keeps I (WriteReg x0 x1)"
  unfolding WriteReg_def by (intro keep) (simp add: upds)

lemma keeps_uartinit [keep]: "keeps I uartinit"
  unfolding uartinit_def by (intro keep)

lemma keeps_uartwrite_loop [keep]: "keeps I (uartwrite_loop cs)"
proof (induction cs)
  case Nil
  show ?case unfolding uartwrite_loop.simps by (intro keep)
next
  case (Cons c cs)
  show ?case unfolding uartwrite_loop.simps by (intro keep Cons)
qed

lemma keeps_uartwrite [keep]: "keeps I (uartwrite x0)"
  unfolding uartwrite_def by (intro keep)

lemma keeps_uartputc_sync [keep]: "keeps I (uartputc_sync x0)"
  unfolding uartputc_sync_def by (intro keep)

lemma keeps_uartgetc [keep]: "keeps I uartgetc"
  unfolding uartgetc_def by (intro keep)

lemma keeps_consputc [keep]: "keeps I (consputc x0)"
  unfolding consputc_def by (intro keep)

lemma keeps_printint [keep]: "keeps I (printint x0 x1 x2)"
  unfolding printint_def by (intro keep)

lemma keeps_printptr_loop [keep]: "keeps I (printptr_loop n x)"
proof (induction n arbitrary: x)
  case 0
  show ?case unfolding printptr_loop.simps by (intro keep)
next
  case (Suc n)
  show ?case unfolding printptr_loop.simps by (intro keep Suc)
qed

lemma keeps_printptr [keep]: "keeps I (printptr x0)"
  unfolding printptr_def by (intro keep)

lemma keeps_printf_loop [keep]: "keeps I (printf_loop fmt ap)"
proof (induction fmt arbitrary: ap rule: length_induct)
  case (1 fmt)
  show ?case
  proof (cases fmt)
    case Nil
    then show ?thesis by (simp add: printf_loop.simps keep)
  next
    case (Cons cx fm)
    have ih: "keeps I (printf_loop (drop k fm) ap)" "keeps I (printf_loop fm ap)" for k ap
      using 1 Cons by simp_all
    show ?thesis unfolding Cons printf_loop.simps by (intro keep ih)
  qed
qed

lemma keeps_printf [keep]: "keeps I (printf x0 x1)"
  unfolding printf_def by (intro keep)

lemma keeps_printfinit [keep]: "keeps I printfinit"
  unfolding printfinit_def by (intro keep)

lemma keeps_panic_call [keep]: "keeps I (panic_call x0)"
  unfolding panic_call_def by (intro keep)

lemma keeps_either_copyout [keep]: "keeps I (either_copyout x0 x1 x2)"
  unfolding either_copyout_def by (intro keep)

lemma keeps_either_copyin [keep]: "keeps I (either_copyin x0 x1 x2)"
  unfolding either_copyin_def by (intro keep)

lemma keeps_procdump [keep]: "keeps I procdump"
  unfolding procdump_def by (intro keep)

lemma keeps_consolewrite_loop [keep]: "keeps I (consolewrite_loop u src i n)"
proof (induction "n - i" arbitrary: i rule: less_induct)
  case less
  then have ih: "i < n \<Longrightarrow> keeps I (consolewrite_loop u src (i + (if 32 > n - i then n - i else 32)) n)"
    by simp
  show ?case by (subst consolewrite_loop.simps) (simp only: Let_def, intro keep ih)
qed

lemma keeps_consolewrite [keep]: "keeps I (consolewrite x0 x1 x2)"
  unfolding consolewrite_def by (intro keep)

lemma keeps_consoleread_loop [keep]: "keeps I (consoleread_loop u dst n target)"
proof (induction n arbitrary: dst)
  case 0
  show ?case unfolding consoleread_loop.simps by (intro keep)
next
  case (Suc n)
  show ?case unfolding consoleread_loop.simps by (intro keep Suc)
qed

lemma keeps_consoleread [keep]: "keeps I (consoleread x0 x1 x2)"
  unfolding consoleread_def by (intro keep)

lemma keeps_kill_line [keep]: "keeps I (kill_line k)"
proof (induction k)
  case 0
  show ?case unfolding kill_line.simps by (intro keep)
next
  case (Suc k)
  show ?case unfolding kill_line.simps by (intro keep Suc)
qed

lemma keeps_console_key [keep]: "keeps I (console_key x0)"
  unfolding console_key_def by (intro keep)

lemma keeps_consoleintr [keep]: "keeps I (consoleintr x0)"
  unfolding consoleintr_def by (intro keep)

lemma keeps_uartintr_input [keep]: "keeps I (uartintr_input cs)"
proof (induction cs)
  case Nil
  show ?case unfolding uartintr_input.simps by (intro keep)
next
  case (Cons c cs)
  show ?case unfolding uartintr_input.simps by (intro keep Cons)
qed

lemma keeps_uartintr [keep]: "keeps I uartintr"
  unfolding uartintr_def by (intro keep)

lemma keeps_consoleinit [keep]: "keeps I consoleinit"
  unfolding consoleinit_def by (intro keep)

lemma keeps_upd_buf [keep]: "keeps I (upd_buf x0 x1)"
  unfolding upd_buf_def by (intro keep)

lemma keeps_disk_rw [keep]: "keeps I (disk_rw x0 x1)"
  unfolding disk_rw_def by (intro keep) (simp add: upds Let_def)

lemma keeps_binit [keep]: "keeps I binit"
  unfolding binit_def by (intro keep)

lemma keeps_bget_cached [keep]: "keeps I (bget_cached x0 x1 x2)"
  unfolding bget_cached_def by (intro keep)

lemma keeps_bget_recycle [keep]: "keeps I (bget_recycle x0 x1 x2)"
  unfolding bget_recycle_def by (intro keep)

lemma keeps_bget [keep]: "keeps I (bget x0 x1)"
  unfolding bget_def by (intro keep)

lemma keeps_bread [keep]: "keeps I (bread x0 x1)"
  unfolding bread_def by (intro keep)

lemma keeps_bwrite [keep]: "keeps I (bwrite x0)"
  unfolding bwrite_def by (intro keep)

lemma keeps_brelse [keep]: "keeps I (brelse x0)"
  unfolding brelse_def by (intro keep)

lemma keeps_bpin [keep]: "keeps I (bpin x0)"
  unfolding bpin_def by (intro keep)

lemma keeps_bunpin [keep]: "keeps I (bunpin x0)"
  unfolding bunpin_def by (intro keep)

lemma keeps_copy_data [keep]: "keeps I (copy_data x0 x1)"
  unfolding copy_data_def by (intro keep)

lemma keeps_install_block [keep]: "keeps I (install_block x0 x1)"
  unfolding install_block_def by (intro keep)

lemma keeps_install_trans [keep]: "keeps I (install_trans x0)"
  unfolding install_trans_def by (intro keep)

lemma keeps_read_head [keep]: "keeps I read_head"
  unfolding read_head_def by (intro keep)

lemma keeps_write_head [keep]: "keeps I write_head"
  unfolding write_head_def by (intro keep)

lemma keeps_recover_from_log [keep]: "keeps I recover_from_log"
  unfolding recover_from_log_def by (intro keep)

lemma keeps_initlog [keep]: "keeps I (initlog x0 x1)"
  unfolding initlog_def by (intro keep)

lemma keeps_begin_op_loop [keep]: "keeps I begin_op_loop"
  unfolding begin_op_loop_def by (intro keep)

lemma keeps_begin_op [keep]: "keeps I begin_op"
  unfolding begin_op_def by (intro keep)

lemma keeps_write_log_block [keep]: "keeps I (write_log_block x0)"
  unfolding write_log_block_def by (intro keep)

lemma keeps_write_log [keep]: "keeps I write_log"
  unfolding write_log_def by (intro keep)

lemma keeps_commit [keep]: "keeps I commit"
  unfolding commit_def by (intro keep)

lemma keeps_end_op [keep]: "keeps I end_op"
  unfolding end_op_def by (intro keep)

lemma keeps_log_write [keep]: "keeps I (log_write x0)"
  unfolding log_write_def by (intro keep)

lemma keeps_upd_inode [keep]: "keeps I (upd_inode x0 x1)"
  unfolding upd_inode_def by (intro keep)

lemma keeps_upd_data [keep]: "keeps I (upd_data x0 x1)"
  unfolding upd_data_def by (intro keep)

lemma keeps_readsb [keep]: "keeps I (readsb x0)"
  unfolding readsb_def by (intro keep)

lemma keeps_bzero [keep]: "keeps I (bzero x0 x1)"
  unfolding bzero_def by (intro keep)

lemma keeps_balloc_in [keep]: "keeps I (balloc_in x0 x1)"
  unfolding balloc_in_def by (intro keep)

lemma keeps_balloc [keep]: "keeps I (balloc x0)"
  unfolding balloc_def by (intro keep)

lemma keeps_bfree [keep]: "keeps I (bfree x0 x1)"
  unfolding bfree_def by (intro keep)

lemma keeps_iinit [keep]: "keeps I iinit"
  unfolding iinit_def by (intro keep)

lemma iget_range: "yields I (iget dev n) (\<lambda>i. i < NINODE)"
  unfolding iget_def
  by (intro yield_rules keep) (simp_all add: find_upt_Some)

lemma keeps_iget [keep]: "keeps I (iget dev n)"
  using iget_range by (rule yields_keeps)

lemma ialloc_try_range: "yields I (ialloc_try dev ty n) (case_option True (\<lambda>i. i < NINODE))"
  unfolding ialloc_try_def
  by (intro yield_rules keep yields_bind [OF iget_range]) simp_all

lemma ialloc_range: "yields I (ialloc dev ty) (case_option True (\<lambda>i. i < NINODE))"
  unfolding ialloc_def
  by (rule yields_Do [OF keeps_gets], rule yields_bind [OF yields_for_find [OF ialloc_try_range]])
    (auto intro!: yield_rules keep split: option.split)

lemma keeps_ialloc [keep]: "keeps I (ialloc dev ty)"
  using ialloc_range by (rule yields_keeps)

lemma keeps_iupdate [keep]: "keeps I (iupdate x0)"
  unfolding iupdate_def by (intro keep)

lemma idup_range: "i < NINODE \<Longrightarrow> yields I (idup i) (\<lambda>j. j < NINODE)"
  unfolding idup_def by (intro yield_rules keep)

lemma keeps_idup [keep]: "keeps I (idup i)"
  unfolding idup_def by (intro keep)

lemma keeps_ilock [keep]: "keeps I (ilock x0)"
  unfolding ilock_def by (intro keep)

lemma keeps_iunlock [keep]: "keeps I (iunlock x0)"
  unfolding iunlock_def by (intro keep)

lemma keeps_bmap [keep]: "keeps I (bmap x0 x1)"
  unfolding bmap_def by (intro keep)

lemma keeps_itrunc [keep]: "keeps I (itrunc x0)"
  unfolding itrunc_def by (intro keep)

lemma keeps_iput [keep]: "keeps I (iput x0)"
  unfolding iput_def by (intro keep)

lemma keeps_iunlockput [keep]: "keeps I (iunlockput x0)"
  unfolding iunlockput_def by (intro keep)

lemma keeps_ireclaim_one [keep]: "keeps I (ireclaim_one x0 x1)"
  unfolding ireclaim_one_def by (intro keep)

lemma keeps_ireclaim [keep]: "keeps I (ireclaim x0)"
  unfolding ireclaim_def by (intro keep)

lemma keeps_fsinit [keep]: "keeps I (fsinit x0)"
  unfolding fsinit_def by (intro keep)

lemma keeps_stati [keep]: "keeps I (stati x0)"
  unfolding stati_def by (intro keep)

lemma keeps_copy_to [keep]: "keeps I (copy_to x0 x1 x2)"
  unfolding copy_to_def by (intro keep)

lemma keeps_copy_from [keep]: "keeps I (copy_from x0 x1 x2)"
  unfolding copy_from_def by (intro keep)

lemma keeps_readi_loop [keep]: "keeps I (readi_loop ip dst tot off left)"
proof (induction left arbitrary: tot off rule: less_induct)
  case (less left)
  then have ih: "\<And>tot' off'. left \<noteq> 0 \<Longrightarrow> keeps I (readi_loop ip dst tot' off' (left - block_part off left))"
    by (simp add: block_part_pos)
  show ?case by (subst readi_loop.simps) (simp only: Let_def, intro keep ih)
qed

lemma keeps_writei_loop [keep]: "keeps I (writei_loop ip src tot off left)"
proof (induction left arbitrary: tot off rule: less_induct)
  case (less left)
  then have ih: "\<And>tot' off'. left \<noteq> 0 \<Longrightarrow> keeps I (writei_loop ip src tot' off' (left - block_part off left))"
    by (simp add: block_part_pos)
  show ?case by (subst writei_loop.simps) (simp only: Let_def, intro keep ih)
qed

lemma keeps_readi [keep]: "keeps I (readi x0 x1 x2 x3)"
  unfolding readi_def by (intro keep)

lemma keeps_writei [keep]: "keeps I (writei x0 x1 x2 x3)"
  unfolding writei_def by (intro keep)

lemma keeps_read_dirent [keep]: "keeps I (read_dirent x0 x1 x2)"
  unfolding read_dirent_def by (intro keep)

lemma dirlookup_range: "yields I (dirlookup dp name) (case_option True (\<lambda>(i, _). i < NINODE))"
  unfolding dirlookup_def
  by (intro yields_Do yields_if yields_stop yields_for_find yields_return keep yields_bind [OF iget_range]) simp_all

lemma keeps_dirlookup [keep]: "keeps I (dirlookup dp name)"
  using dirlookup_range by (rule yields_keeps)

lemma keeps_dirlink [keep]: "keeps I (dirlink x0 x1 x2)"
  unfolding dirlink_def by (intro keep)

lemma namex_loop_range:
  "i < NINODE \<Longrightarrow> yields I (namex_loop i path par name) (case_option True (\<lambda>(i, _). i < NINODE))"
proof (induction path arbitrary: i name rule: length_induct)
  case (1 path)
  then have ih: "yields I (namex_loop j path' par name') (case_option True (\<lambda>(i, _). i < NINODE))"
    if "skipelem path = Some (path', name')" "j < NINODE" for j path' name'
    using that skipelem_shorter by blast
  show ?case
    by (subst namex_loop.simps)
      (intro yields_option yields_if yields_prod yields_bind [OF dirlookup_range] yields_Do keep yields_return
        ih | use 1 in \<open>simp split: option.splits\<close>)+
qed

lemma namex_range: "yields I (namex path par) (case_option True (\<lambda>(i, _). i < NINODE))"
  unfolding namex_def
proof (rule yields_bind [where P = "\<lambda>i. i < NINODE"])
  show "yields I (if path \<noteq> [] \<and> hd path = slash then iget ROOTDEV ROOTINO
     else Do cur (\<lambda>p. Do (gets (\<lambda>s. cwd (procs s p))) (\<lambda>c. case c of
       None \<Rightarrow> stop (Fault ''namex'') | Some ip \<Rightarrow> idup ip))) (\<lambda>i. i < NINODE)"
    by (intro yields_if iget_range yields_Do keep yields_bind [OF yields_gets [where P = "case_option True (\<lambda>i. i < NINODE)"]]
        yields_option yields_stop idup_range) (auto split: option.split dest: cwd_range)
qed (rule namex_loop_range)

lemma keeps_namex [keep]: "keeps I (namex path par)"
  using namex_range by (rule yields_keeps)

lemma namei_range: "yields I (namei path) (case_option True (\<lambda>i. i < NINODE))"
  unfolding namei_def
  by (rule yields_bind [OF namex_range], rule yields_return) (auto split: option.splits)

lemma keeps_namei [keep]: "keeps I (namei path)"
  using namei_range by (rule yields_keeps)

lemma nameiparent_range: "yields I (nameiparent path) (case_option True (\<lambda>(i, _). i < NINODE))"
  unfolding nameiparent_def by (rule namex_range)

lemma keeps_nameiparent [keep]: "keeps I (nameiparent path)"
  using nameiparent_range by (rule yields_keeps)

end

end
