(* ===== verification/Tables.thy ===== *)
theory Tables
  imports Trap Frame
begin

text \<open>
  Well-typed kernel tables. The kernel links its structures by pointers into fixed tables, which the
  model has as indices: an open file points to an inode, a process to its open files and its current
  directory. \<open>tables_ok\<close> says that all of them lie inside their tables and that no reference count is
  negative. It satisfies the interface \<open>kernel_inv\<close>, so the lower layers keep it; this theory goes
  through the operations above them, up to the trap handlers.
\<close>

section \<open>The invariant\<close>

definition file_ok :: "open_file \<Rightarrow> bool" where
  "file_ok x \<longleftrightarrow> 0 \<le> fref x \<and> fip x < NINODE"

definition proc_ok :: "proc \<Rightarrow> bool" where
  "proc_ok q \<longleftrightarrow> (\<forall>fd f. ofile q fd = Some f \<longrightarrow> fd < NOFILE \<and> f < NFILE) \<and> (\<forall>i. cwd q = Some i \<longrightarrow> i < NINODE)"

definition tables_ok :: "'z filest_scheme \<Rightarrow> bool" where
  "tables_ok s \<longleftrightarrow> (\<forall>f<NFILE. file_ok (ftable s f)) \<and> (\<forall>p. proc_ok (procs s p))"

interpretation kernel_tables: kernel_inv "tables_ok :: 'z filest_scheme \<Rightarrow> bool"
  by unfold_locales (auto simp: tables_ok_def proc_ok_def)

lemma keeps_sum [keep]:
  "(\<And>a. keeps I (m a)) \<Longrightarrow> (\<And>b. keeps I (k b)) \<Longrightarrow> keeps I (case r of Inl a \<Rightarrow> m a | Inr b \<Rightarrow> k b)"
  by (cases r) simp_all

lemma keeps_fdtype [keep]:
  "keeps I a \<Longrightarrow> keeps I b \<Longrightarrow> keeps I c \<Longrightarrow> keeps I d \<Longrightarrow>
   keeps I (case t of FD_NONE \<Rightarrow> a | FD_PIPE \<Rightarrow> b | FD_INODE \<Rightarrow> c | FD_DEVICE \<Rightarrow> d)"
  by (cases t) simp_all

lemma keeps_for_each_in:
  "(\<And>i. i \<in> set is \<Longrightarrow> keeps I (body i)) \<Longrightarrow> keeps I (for_each is body)"
  by (induction "is") (simp_all add: keeps_return keeps_Do)

lemma tables_upd_proc:
  "(\<And>q. proc_ok q \<Longrightarrow> proc_ok (f q)) \<Longrightarrow> keeps tables_ok (upd_proc p f)"
  unfolding upd_proc_def by (intro keeps_modify) (simp add: tables_ok_def)

lemma proc_ok_same: "proc_ok q \<Longrightarrow> ofile q' = ofile q \<Longrightarrow> cwd q' = cwd q \<Longrightarrow> proc_ok q'"
  by (simp add: proc_ok_def)

lemma keeps_upd_file:
  "(\<And>x. file_ok x \<Longrightarrow> file_ok (g x)) \<Longrightarrow> keeps tables_ok (upd_file f g)"
  unfolding upd_file_def by (intro keeps_modify) (simp add: tables_ok_def)

lemma proc_range: "yields tables_ok (gets (\<lambda>s. procs s p)) proc_ok"
  by (rule yields_gets) (simp add: tables_ok_def)

section \<open>Pipes and files\<close>

lemma tables_upd_pipe [keep]: "keeps tables_ok (upd_pipe x0 x1)"
  unfolding upd_pipe_def by (intro keep keeps_modify) (simp_all add: tables_ok_def)

lemma tables_pipeclose [keep]: "keeps tables_ok (pipeclose x0 x1)"
  unfolding pipeclose_def by (intro keep)

lemma tables_pipewrite_loop [keep]: "keeps tables_ok (pipewrite_loop pr pi addr i n)"
proof (induction "n - i" arbitrary: i rule: less_induct)
  case less
  have ih: "i < n \<Longrightarrow> keeps (tables_ok :: 'a filest_scheme \<Rightarrow> bool) (pipewrite_loop pr pi addr (i + 1) n)" by (rule less) simp
  show ?case by (subst pipewrite_loop.simps) (intro keep ih)
qed

lemma tables_pipewrite [keep]: "keeps tables_ok (pipewrite x0 x1 x2)"
  unfolding pipewrite_def by (intro keep)

lemma tables_piperead_copy [keep]: "keeps tables_ok (piperead_copy pr pi addr i k)"
proof (induction k arbitrary: i)
  case 0
  show ?case unfolding piperead_copy.simps by (intro keep)
next
  case (Suc k)
  show ?case unfolding piperead_copy.simps by (intro keep Suc)
qed

lemma tables_piperead_loop [keep]: "keeps tables_ok (piperead_loop x0 x1 x2 x3)"
  unfolding piperead_loop_def by (intro keep)

lemma tables_piperead [keep]: "keeps tables_ok (piperead x0 x1 x2)"
  unfolding piperead_def by (intro keep)

lemma tables_fileinit [keep]: "keeps tables_ok fileinit"
  unfolding fileinit_def by (intro keep)

lemma filealloc_range: "yields tables_ok filealloc (case_option True (\<lambda>f. f < NFILE))"
  unfolding filealloc_def
  by (intro yields_option yields_return yields_Do keep keeps_upd_file) (auto simp: file_ok_def find_upt_Some)

lemma tables_filealloc [keep]: "keeps tables_ok filealloc"
  using filealloc_range by (rule yields_keeps)

lemma filedup_range: "f < NFILE \<Longrightarrow> yields tables_ok (filedup f) (\<lambda>f. f < NFILE)"
  unfolding filedup_def
  by (intro yields_if yields_stop yields_return yields_Do keep keeps_upd_file) (auto simp: file_ok_def)

lemma tables_filedup [keep]: "keeps tables_ok (filedup f)"
  unfolding filedup_def by (intro keep keeps_upd_file) (simp add: file_ok_def)

lemma keeps_drop_ref:
  assumes "keeps tables_ok k"
  shows "keeps tables_ok (Do (get_file f) (\<lambda>x. if fref x < 1 then panic msg
    else Seq (upd_file f (\<lambda>x. x\<lparr>fref := fref x - 1\<rparr>)) k))"
  unfolding keeps_final_iff
proof (intro allI impI)
  fix s :: "'a filest_scheme"
  assume s: "tables_ok s"
  let ?t = "s\<lparr>ftable := (ftable s)(f := (ftable s f)\<lparr>fref := fref (ftable s f) - 1\<rparr>)\<rparr>"
  have "tables_ok ?t" if "\<not> fref (ftable s f) < 1"
    using s that by (auto simp: tables_ok_def file_ok_def)
  with s assms show "tables_ok (final (Do (get_file f) (\<lambda>x. if fref x < 1 then panic msg
      else Seq (upd_file f (\<lambda>x. x\<lparr>fref := fref x - 1\<rparr>)) k) s))"
    by (auto simp: Do_gets upd_file_def Do_modify stop_def keeps_final_iff)
qed

lemma tables_fileclose [keep]: "keeps tables_ok (fileclose f)"
  unfolding fileclose_def
  by (intro keeps_Do [OF kernel_tables.keeps_acquire] keeps_drop_ref keep keeps_upd_file) (simp add: file_ok_def)

lemma tables_devsw [keep]:
  "keeps tables_ok a \<Longrightarrow> keeps tables_ok (case devsw_read n of None \<Rightarrow> a | Some f \<Rightarrow> f u x m)"
  "keeps tables_ok a \<Longrightarrow> keeps tables_ok (case devsw_write n of None \<Rightarrow> a | Some g \<Rightarrow> g u x m)"
  by (simp_all add: devsw_read_def devsw_write_def kernel_tables.keeps_consoleread kernel_tables.keeps_consolewrite)

lemma tables_filestat [keep]: "keeps tables_ok (filestat x0 x1)"
  unfolding filestat_def by (intro keep)

lemma tables_fileread [keep]: "keeps tables_ok (fileread x0 x1 x2)"
  unfolding fileread_def by (intro tables_devsw keep keeps_upd_file; simp add: file_ok_def)

lemma tables_filewrite_loop [keep]: "keeps tables_ok (filewrite_loop f addr i n)"
proof (induction "n - i" arbitrary: i rule: less_induct)
  case less
  then have ih: "i < n \<Longrightarrow> keeps (tables_ok :: 'a filest_scheme \<Rightarrow> bool) (filewrite_loop f addr (i + (if n - i > write_chunk then write_chunk else n - i)) n)"
    using write_chunk_pos by simp
  show ?case
    by (subst filewrite_loop.simps, simp only: Let_def) (intro keep keeps_upd_file ih; simp add: file_ok_def)
qed

lemma tables_filewrite [keep]: "keeps tables_ok (filewrite x0 x1 x2)"
  unfolding filewrite_def by (intro tables_devsw keep)

lemma tables_pipealloc_bad [keep]: "keeps tables_ok (pipealloc_bad x0 x1)"
  unfolding pipealloc_bad_def by (intro keep)

lemma pipealloc_range:
  "yields tables_ok pipealloc (case_option True (\<lambda>(f, g). f < NFILE \<and> g < NFILE))"
proof -
  have bad: "yields (tables_ok :: 'a filest_scheme \<Rightarrow> bool) (pipealloc_bad a b) (case_option True (\<lambda>(f, g). f < NFILE \<and> g < NFILE))" for a b
    unfolding pipealloc_bad_def by (intro yields_Do yields_return keep) simp
  show ?thesis
    unfolding pipealloc_def
    by (rule yields_bind [OF filealloc_range], rule yields_option, rule bad,
        rule yields_bind [OF filealloc_range], rule yields_option, rule bad)
      (intro yields_Do yields_if yields_return bad keep keeps_upd_file; simp add: file_ok_def)
qed

lemma tables_pipealloc [keep]: "keeps tables_ok pipealloc"
  using pipealloc_range by (rule yields_keeps)

section \<open>Processes\<close>

lemma tables_tf_get [keep]: "keeps tables_ok (tf_get x0 x1)"
  unfolding tf_get_def by (intro keep)

lemma tables_tf_set [keep]: "keeps tables_ok (tf_set x0 x1 x2)"
  unfolding tf_set_def by (intro keep)

lemma tables_procinit [keep]: "keeps tables_ok procinit"
  unfolding procinit_def by (intro keep tables_upd_proc; simp add: proc_ok_def)

lemma tables_proc_pagetable [keep]: "keeps tables_ok (proc_pagetable x0)"
  unfolding proc_pagetable_def by (intro keep)

lemma tables_proc_freepagetable [keep]: "keeps tables_ok (proc_freepagetable x0 x1)"
  unfolding proc_freepagetable_def by (intro keep)

lemma tables_freeproc [keep]: "keeps tables_ok (freeproc x0)"
  unfolding freeproc_def by (intro keep tables_upd_proc; simp add: proc_ok_def)

lemma tables_allocproc_found [keep]: "keeps tables_ok (allocproc_found x0)"
  unfolding allocproc_found_def by (intro keep tables_upd_proc; simp add: proc_ok_def)

lemma tables_allocproc [keep]: "keeps tables_ok allocproc"
  unfolding allocproc_def by (intro keep)

lemma tables_userinit [keep]: "keeps tables_ok userinit"
  unfolding userinit_def
  by (intro keeps_Do [OF tables_allocproc] keeps_bind [OF kernel_tables.namei_range] keep tables_upd_proc)
    (auto simp: proc_ok_def split: option.splits)

lemma tables_growproc [keep]: "keeps tables_ok (growproc x0)"
  unfolding growproc_def by (intro keep tables_upd_proc; simp add: proc_ok_def)

lemma kfork_files:
  assumes q: "proc_ok q"
  shows "keeps tables_ok (for_each [0..<NOFILE] (\<lambda>i. case ofile q i of None \<Rightarrow> skip
      | Some f \<Rightarrow> Do (filedup f) (\<lambda>f. upd_proc np (\<lambda>x. x\<lparr>ofile := (ofile x)(i := Some f)\<rparr>))))"
proof (intro keeps_for_each_in keeps_option keeps_return)
  fix i f
  assume "i \<in> set [0..<NOFILE]" "ofile q i = Some f"
  with q have "i < NOFILE" "f < NFILE" by (auto simp: proc_ok_def)
  then show "keeps tables_ok (Do (filedup f) (\<lambda>f. upd_proc np (\<lambda>x. x\<lparr>ofile := (ofile x)(i := Some f)\<rparr>)))"
    by (intro keeps_bind [OF filedup_range] tables_upd_proc) (auto simp: proc_ok_def)
qed

lemma kfork_cwd:
  "proc_ok q \<Longrightarrow> yields tables_ok (case cwd q of None \<Rightarrow> stop (Fault ''idup'') | Some ip \<Rightarrow> idup ip) (\<lambda>i. i < NINODE)"
  by (intro yields_option yields_stop kernel_tables.idup_range) (simp add: proc_ok_def)

lemma tables_kfork [keep]: "keeps tables_ok kfork"
  unfolding kfork_def
  by (intro keeps_bind [OF proc_range] keeps_bind [OF kfork_cwd] keeps_Do [OF kfork_files] keep tables_upd_proc;
      (assumption | simp add: proc_ok_def)?)

lemma tables_kexit [keep]: "keeps tables_ok (kexit x0)"
  unfolding kexit_def by (intro keep tables_upd_proc; simp add: proc_ok_def)

lemma tables_kwait_scan [keep]: "keeps tables_ok (kwait_scan pps havekids p addr)"
proof (induction pps arbitrary: havekids)
  case Nil
  show ?case unfolding kwait_scan.simps by (intro keep)
next
  case (Cons pp pps)
  show ?case unfolding kwait_scan.simps by (intro keep Cons)
qed

lemma tables_kwait_loop [keep]: "keeps tables_ok (kwait_loop x0 x1)"
  unfolding kwait_loop_def by (intro keep)

lemma tables_kwait [keep]: "keeps tables_ok (kwait x0)"
  unfolding kwait_def by (intro keep)

section \<open>System calls\<close>

lemma tables_fetchaddr [keep]: "keeps tables_ok (fetchaddr x0)"
  unfolding fetchaddr_def by (intro keep)

lemma tables_fetchstr [keep]: "keeps tables_ok (fetchstr x0 x1)"
  unfolding fetchstr_def by (intro keep)

lemma tables_argraw [keep]: "keeps tables_ok (argraw x0)"
  unfolding argraw_def by (intro keep)

lemma tables_argint [keep]: "keeps tables_ok (argint x0)"
  unfolding argint_def by (intro keep)

lemma tables_argaddr [keep]: "keeps tables_ok (argaddr x0)"
  unfolding argaddr_def by (intro keep)

lemma tables_argstr [keep]: "keeps tables_ok (argstr x0 x1)"
  unfolding argstr_def by (intro keep)

lemma tables_loadseg [keep]: "keeps tables_ok (loadseg x0 x1 x2 x3 x4)"
  unfolding loadseg_def by (intro keep)

lemma tables_load_segments [keep]: "keeps tables_ok (load_segments k off pt ip len)"
proof (induction k arbitrary: off len)
  case 0
  show ?case unfolding load_segments.simps by (intro keep)
next
  case (Suc k)
  show ?case unfolding load_segments.simps by (intro keep Suc)
qed

lemma tables_push_args [keep]: "keeps tables_ok (push_args as pt base sptr ustack)"
proof (induction as arbitrary: sptr ustack)
  case Nil
  show ?case unfolding push_args.simps by (intro keep)
next
  case (Cons a as)
  show ?case unfolding push_args.simps by (intro keep Cons)
qed

lemma tables_kexec_bad [keep]: "keeps tables_ok (kexec_bad x0 x1 x2)"
  unfolding kexec_bad_def by (intro keep)

lemma tables_kexec_stack [keep]: "keeps tables_ok (kexec_stack x0 x1 x2 x3 x4)"
  unfolding kexec_stack_def by (intro keep tables_upd_proc; simp add: proc_ok_def)

lemma tables_kexec [keep]: "keeps tables_ok (kexec x0 x1)"
  unfolding kexec_def by (intro keep)

lemma argfd_range: "yields tables_ok (argfd n) (case_option True (\<lambda>(fd, f). f < NFILE))"
  unfolding argfd_def
  by (intro yields_Do [OF tables_argint] yields_if yields_return yields_Do [OF kernel_tables.keeps_cur]
      yields_bind [OF yields_gets [where P = "case_option True (\<lambda>f. f < NFILE)"]])
    (auto simp: tables_ok_def proc_ok_def split: option.splits)

lemma tables_argfd [keep]: "keeps tables_ok (argfd n)"
  using argfd_range by (rule yields_keeps)

lemma tables_fdalloc: "f < NFILE \<Longrightarrow> keeps tables_ok (fdalloc f)"
  unfolding fdalloc_def by (intro keep tables_upd_proc) (auto simp: proc_ok_def find_upt_Some)

lemma tables_sys_dup [keep]: "keeps tables_ok sys_dup"
  unfolding sys_dup_def
  by (intro keeps_bind [OF argfd_range] keep) (auto intro: tables_fdalloc)

lemma tables_sys_read [keep]: "keeps tables_ok sys_read"
  unfolding sys_read_def by (intro keep)

lemma tables_sys_write [keep]: "keeps tables_ok sys_write"
  unfolding sys_write_def by (intro keep)

lemma tables_sys_close [keep]: "keeps tables_ok sys_close"
  unfolding sys_close_def by (intro keep tables_upd_proc; simp add: proc_ok_def)

lemma tables_sys_fstat [keep]: "keeps tables_ok sys_fstat"
  unfolding sys_fstat_def by (intro keep)

lemma tables_sys_link_bad [keep]: "keeps tables_ok (sys_link_bad x0)"
  unfolding sys_link_bad_def by (intro keep)

lemma tables_sys_link [keep]: "keeps tables_ok sys_link"
  unfolding sys_link_def by (intro keep)

lemma tables_isdirempty [keep]: "keeps tables_ok (isdirempty x0)"
  unfolding isdirempty_def by (intro keep)

lemma tables_sys_unlink_bad [keep]: "keeps tables_ok (sys_unlink_bad x0)"
  unfolding sys_unlink_bad_def by (intro keep)

lemma tables_sys_unlink [keep]: "keeps tables_ok sys_unlink"
  unfolding sys_unlink_def by (intro keep)

lemma tables_create_fail [keep]: "keeps tables_ok (create_fail x0 x1)"
  unfolding create_fail_def by (intro keep)

lemma create_range: "yields tables_ok (create path ty major minor) (case_option True (\<lambda>i. i < NINODE))"
proof -
  have fail: "yields (tables_ok :: 'a filest_scheme \<Rightarrow> bool) (create_fail i d) (case_option True (\<lambda>i. i < NINODE))" for i d
    unfolding create_fail_def by (intro yields_Do yields_return keep) simp
  show ?thesis
    unfolding create_def
    by (intro yields_bind [OF kernel_tables.dirlookup_range] yields_bind [OF kernel_tables.ialloc_range] fail
        yields_option yields_prod yields_if yields_return yields_Do keep) simp_all
qed

lemma tables_create [keep]: "keeps tables_ok (create path ty major minor)"
  using create_range by (rule yields_keeps)

lemma tables_open_fail [keep]: "keeps tables_ok (open_fail x0)"
  unfolding open_fail_def by (intro keep)

lemma open_fail_range: "yields tables_ok (open_fail i) P" if "P None"
  unfolding open_fail_def using that by (intro yields_Do yields_return keep)

lemma follow_links_range: "yields tables_ok (follow_links k omode path) (case_option True (\<lambda>i. i < NINODE))"
proof (induction k arbitrary: path)
  case 0
  show ?case unfolding follow_links.simps
    by (intro yields_bind [OF kernel_tables.namei_range] open_fail_range yields_option yields_if yields_return
        yields_Do keep) simp_all
next
  case (Suc k)
  show ?case unfolding follow_links.simps
    by (intro yields_bind [OF kernel_tables.namei_range] open_fail_range yields_option yields_prod yields_if
        yields_return yields_stop yields_Do keep Suc) simp_all
qed

lemma tables_follow_links [keep]: "keeps tables_ok (follow_links k omode path)"
  using follow_links_range by (rule yields_keeps)

lemma tables_open_inode: "i < NINODE \<Longrightarrow> keeps tables_ok (open_inode omode i)"
  unfolding open_inode_def
  by (intro keeps_bind [OF filealloc_range] keeps_Do [OF tables_fdalloc] keep keeps_upd_file)
    (simp_all add: file_ok_def)

lemma open_target_range:
  "yields tables_ok (if omode AND O_CREATE \<noteq> 0 then
       Do (create path T_FILE 0 0) (\<lambda>r. case r of None \<Rightarrow> Seq end_op (return None) | Some ip \<Rightarrow> return (Some ip))
     else
       Do (follow_links 10 omode path) (\<lambda>r. case r of None \<Rightarrow> return None | Some ip \<Rightarrow>
       Do (get_inode ip) (\<lambda>x.
       if itype x = T_DIR \<and> omode \<noteq> O_RDONLY then open_fail ip else return (Some ip))))
   (case_option True (\<lambda>i. i < NINODE))"
  by (intro yields_if yields_bind [OF create_range] yields_bind [OF follow_links_range] open_fail_range
      yields_option yields_return yields_Do keep) simp_all

lemma tables_sys_open [keep]: "keeps tables_ok sys_open"
  unfolding sys_open_def
  by (intro keeps_bind [OF open_target_range] tables_open_inode keep) simp_all

lemma tables_sys_mkdir [keep]: "keeps tables_ok sys_mkdir"
  unfolding sys_mkdir_def by (intro keep)

lemma tables_sys_mknod [keep]: "keeps tables_ok sys_mknod"
  unfolding sys_mknod_def by (intro keep)

lemma tables_sys_chdir [keep]: "keeps tables_ok sys_chdir"
  unfolding sys_chdir_def
  by (intro keeps_bind [OF kernel_tables.namei_range] keep tables_upd_proc) (auto simp: proc_ok_def)

lemma tables_sys_symlink [keep]: "keeps tables_ok sys_symlink"
  unfolding sys_symlink_def by (intro keep)

lemma tables_exec_args [keep]: "keeps tables_ok (exec_args k uargv args)"
proof (induction k arbitrary: args)
  case 0
  show ?case unfolding exec_args.simps by (intro keep)
next
  case (Suc k)
  show ?case unfolding exec_args.simps by (intro keep Suc)
qed

lemma tables_sys_exec [keep]: "keeps tables_ok sys_exec"
  unfolding sys_exec_def by (intro keep)

lemma tables_close_pair [keep]: "keeps tables_ok (close_pair x0 x1)"
  unfolding close_pair_def by (intro keep)

lemma tables_clear_fd [keep]: "keeps tables_ok (clear_fd x0 x1)"
  unfolding clear_fd_def by (intro keep tables_upd_proc; simp add: proc_ok_def)

lemma tables_sys_pipe [keep]: "keeps tables_ok sys_pipe"
  unfolding sys_pipe_def
  by (intro keeps_bind [OF pipealloc_range] keeps_Do [OF tables_fdalloc] keep) simp_all

section \<open>The disk driver\<close>

lemma tables_mmio_read [keep]: "keeps tables_ok (mmio_read x0)"
  unfolding mmio_read_def by (intro keep)

lemma tables_mmio_write [keep]: "keeps tables_ok (mmio_write x0 x1)"
  unfolding mmio_write_def by (intro keep keeps_modify) (simp_all add: tables_ok_def)

lemma tables_upd_desc [keep]: "keeps tables_ok (upd_desc x0 x1)"
  unfolding upd_desc_def by (intro keep keeps_modify) (simp_all add: tables_ok_def)

lemma tables_virtio_disk_init [keep]: "keeps tables_ok virtio_disk_init"
  unfolding virtio_disk_init_def by (intro keep; simp add: tables_ok_def)

lemma tables_alloc_desc [keep]: "keeps tables_ok alloc_desc"
  unfolding alloc_desc_def by (intro keep; simp add: tables_ok_def)

lemma tables_free_desc [keep]: "keeps tables_ok (free_desc x0)"
  unfolding free_desc_def by (intro keep; simp add: tables_ok_def)

lemma tables_free_chain [keep]: "keeps tables_ok (free_chain k i)"
proof (induction k arbitrary: i)
  case 0
  show ?case unfolding free_chain.simps by (intro keep)
next
  case (Suc k)
  show ?case unfolding free_chain.simps by (intro keep Suc)
qed

lemma tables_alloc3_desc [keep]: "keeps tables_ok alloc3_desc"
  unfolding alloc3_desc_def by (intro keep)

lemma tables_virtio_alloc [keep]: "keeps tables_ok virtio_alloc"
  unfolding virtio_alloc_def by (intro keep)

lemma tables_virtio_submit [keep]: "keeps tables_ok (virtio_submit x0 x1 x2)"
  unfolding virtio_submit_def by (intro keep; simp add: tables_ok_def)

lemma tables_virtio_wait [keep]: "keeps tables_ok (virtio_wait x0 x1)"
  unfolding virtio_wait_def by (intro keep; simp add: tables_ok_def)

lemma tables_virtio_disk_rw [keep]: "keeps tables_ok (virtio_disk_rw x0 x1)"
  unfolding virtio_disk_rw_def by (intro keep; simp add: tables_ok_def)

lemma tables_virtio_complete [keep]: "keeps tables_ok virtio_complete"
  unfolding virtio_complete_def by (intro keep; simp add: tables_ok_def)

lemma tables_virtio_disk_intr [keep]: "keeps tables_ok virtio_disk_intr"
  unfolding virtio_disk_intr_def by (intro keep; simp add: tables_ok_def)

section \<open>Traps\<close>

lemma tables_r_sstatus [keep]: "keeps tables_ok r_sstatus"
  unfolding r_sstatus_def by (intro keep)

lemma tables_w_sstatus [keep]: "keeps tables_ok (w_sstatus x0)"
  unfolding w_sstatus_def by (intro keep)

lemma tables_r_sepc [keep]: "keeps tables_ok r_sepc"
  unfolding r_sepc_def by (intro keep)

lemma tables_w_sepc [keep]: "keeps tables_ok (w_sepc x0)"
  unfolding w_sepc_def by (intro keep)

lemma tables_w_stvec [keep]: "keeps tables_ok (w_stvec x0)"
  unfolding w_stvec_def by (intro keep)

lemma tables_w_stimecmp [keep]: "keeps tables_ok (w_stimecmp x0)"
  unfolding w_stimecmp_def by (intro keep)

lemma tables_r_satp [keep]: "keeps tables_ok r_satp"
  unfolding r_satp_def by (intro keep)

lemma tables_r_scause [keep]: "keeps tables_ok r_scause"
  unfolding r_scause_def by (intro keep)

lemma tables_r_stval [keep]: "keeps tables_ok r_stval"
  unfolding r_stval_def by (intro keep)

lemma tables_r_time [keep]: "keeps tables_ok r_time"
  unfolding r_time_def by (intro keep)

lemma tables_r_tp [keep]: "keeps tables_ok r_tp"
  unfolding r_tp_def by (intro keep)

lemma tables_plic_set [keep]: "keeps tables_ok (plic_set x0 x1)"
  unfolding plic_set_def by (intro keep keeps_modify) (simp_all add: tables_ok_def)

lemma tables_plicinit [keep]: "keeps tables_ok plicinit"
  unfolding plicinit_def by (intro keep)

lemma tables_plicinithart [keep]: "keeps tables_ok plicinithart"
  unfolding plicinithart_def by (intro keep)

lemma tables_plic_claim [keep]: "keeps tables_ok plic_claim"
  unfolding plic_claim_def by (intro keep; simp add: tables_ok_def)

lemma tables_plic_complete [keep]: "keeps tables_ok (plic_complete x0)"
  unfolding plic_complete_def by (intro keep; simp add: tables_ok_def)

lemma tables_trapinit [keep]: "keeps tables_ok trapinit"
  unfolding trapinit_def by (intro keep)

lemma tables_trapinithart [keep]: "keeps tables_ok trapinithart"
  unfolding trapinithart_def by (intro keep)

lemma tables_clockintr [keep]: "keeps tables_ok clockintr"
  unfolding clockintr_def by (intro keep; simp add: tables_ok_def)

lemma tables_devintr [keep]: "keeps tables_ok devintr"
  unfolding devintr_def by (intro keep)

lemma tables_prepare_return [keep]: "keeps tables_ok prepare_return"
  unfolding prepare_return_def by (intro keep)

lemma tables_forkret [keep]: "keeps tables_ok forkret"
  unfolding forkret_def by (intro keep; simp add: tables_ok_def)

lemma tables_sys_exit [keep]: "keeps tables_ok sys_exit"
  unfolding sys_exit_def by (intro keep)

lemma tables_sys_getpid [keep]: "keeps tables_ok sys_getpid"
  unfolding sys_getpid_def by (intro keep)

lemma tables_sys_fork [keep]: "keeps tables_ok sys_fork"
  unfolding sys_fork_def by (intro keep)

lemma tables_sys_wait [keep]: "keeps tables_ok sys_wait"
  unfolding sys_wait_def by (intro keep)

lemma tables_sys_sbrk [keep]: "keeps tables_ok sys_sbrk"
  unfolding sys_sbrk_def by (intro keep tables_upd_proc; simp add: proc_ok_def)

lemma tables_sys_pause_loop [keep]: "keeps tables_ok (sys_pause_loop x0 x1)"
  unfolding sys_pause_loop_def by (intro keep)

lemma tables_sys_pause [keep]: "keeps tables_ok sys_pause"
  unfolding sys_pause_def by (intro keep)

lemma tables_sys_kill [keep]: "keeps tables_ok sys_kill"
  unfolding sys_kill_def by (intro keep)

lemma tables_sys_uptime [keep]: "keeps tables_ok sys_uptime"
  unfolding sys_uptime_def by (intro keep)

lemma tables_syscalls: "(n, f) \<in> set syscalls \<Longrightarrow> keeps tables_ok f"
  by (auto simp: syscalls_def intro: keep)

lemma tables_syscall [keep]: "keeps tables_ok syscall"
  unfolding syscall_def
  by (intro keep) (auto dest: map_of_SomeD intro: tables_syscalls)

lemma tables_usertrap_return [keep]: "keeps tables_ok (usertrap_return x0)"
  unfolding usertrap_return_def by (intro keep)

lemma tables_usertrap_handle [keep]: "keeps tables_ok (usertrap_handle x0)"
  unfolding usertrap_handle_def by (intro keep)

lemma tables_usertrap [keep]: "keeps tables_ok usertrap"
  unfolding usertrap_def by (intro keep)

lemma tables_kerneltrap_return [keep]: "keeps tables_ok (kerneltrap_return x0 x1)"
  unfolding kerneltrap_return_def by (intro keep)

lemma tables_kerneltrap [keep]: "keeps tables_ok kerneltrap"
  unfolding kerneltrap_def by (intro keep)

lemma tables_kmain [keep]: "keeps tables_ok kmain"
  unfolding kmain_def by (intro keep; simp add: tables_ok_def)

section \<open>Every trap\<close>



end
