(* ===== verification/Grep.thy ===== *)
theory Grep
  imports Prelude
begin

text \<open>
  The user program \<open>grep\<close> (\<open>user/grep.c\<close>): the matcher for patterns with \<open>^ . * $\<close>, with the option \<open>-i\<close>,
  and the loop that reads a file through a buffer of 1024 bytes. Strings are byte lists without the
  final NUL, so \<open>*text == 0\<close> is \<open>text = []\<close>. The loop of \<open>matchstar\<close> can run for ever: for \<open>.\<close> it does not
  advance. Not returning is the value \<open>None\<close>.
\<close>

section \<open>The matcher\<close>

definition to_lower :: "byte \<Rightarrow> byte" where
  "to_lower c = (if c \<ge> of_char CHR ''A'' \<and> c \<le> of_char CHR ''Z'' then c + 32 else c)"

abbreviation "caret \<equiv> of_char CHR ''^'' :: byte"
abbreviation "period \<equiv> of_char CHR ''.'' :: byte"
abbreviation "star \<equiv> of_char CHR ''*'' :: byte"
abbreviation "dollar \<equiv> of_char CHR ''$'' :: byte"

text \<open>Comparison of a literal character of the pattern with one of the text.\<close>

definition same_char :: "bool \<Rightarrow> byte \<Rightarrow> byte \<Rightarrow> bool" where
  "same_char ignore_case c d = (if ignore_case then to_lower c = to_lower d else c = d)"

text \<open>\<open>matchstar(c, re, text)\<close>, where \<open>m\<close> is \<open>matchhere(re, _)\<close>. The increment of \<open>text\<close> is part of the
  comparison, which is skipped for the character \<open>.\<close>.\<close>

partial_function (option) matchstar :: "bool \<Rightarrow> byte \<Rightarrow> (byte list \<Rightarrow> bool option) \<Rightarrow> byte list \<Rightarrow> bool option" where
  "matchstar ign c m text =
     Option.bind (m text) (\<lambda>found.
     if found then Some True
     else if text = [] then Some False
     else if c = period then matchstar ign c m text
     else if same_char ign (hd text) c then matchstar ign c m (tl text)
     else Some False)"

fun matchhere :: "bool \<Rightarrow> byte list \<Rightarrow> byte list \<Rightarrow> bool option" where
  "matchhere ign [] text = Some True"
| "matchhere ign [c] text =
     (if c = dollar then Some (text = [])
      else if text \<noteq> [] \<and> (c = period \<or> same_char ign c (hd text)) then matchhere ign [] (tl text)
      else Some False)"
| "matchhere ign (c # d # re) text =
     (if d = star then matchstar ign c (\<lambda>t. matchhere ign re t) text
      else if text \<noteq> [] \<and> (c = period \<or> same_char ign c (hd text)) then matchhere ign (d # re) (tl text)
      else Some False)"

text \<open>The loop of \<open>match\<close> that looks for a match at every suffix, the empty one included.\<close>

primrec match_anywhere :: "bool \<Rightarrow> byte list \<Rightarrow> byte list \<Rightarrow> bool option" where
  "match_anywhere ign re [] = matchhere ign re []"
| "match_anywhere ign re (d # text) =
     Option.bind (matchhere ign re (d # text)) (\<lambda>found.
     if found then Some True else match_anywhere ign re text)"

definition match :: "bool \<Rightarrow> byte list \<Rightarrow> byte list \<Rightarrow> bool option" where
  "match ign re text =
     (if re \<noteq> [] \<and> hd re = caret then matchhere ign (tl re) text
      else match_anywhere ign re text)"

section \<open>Reading the file\<close>

text \<open>The inner loop of \<open>grep\<close> on the contents of the buffer: the output, and the part behind the last
  newline, which \<open>memmove\<close> brings to the front.\<close>

abbreviation "newline_b \<equiv> 10 :: byte"

function grep_lines :: "bool \<Rightarrow> byte list \<Rightarrow> byte list \<Rightarrow> (byte list \<times> byte list) option" where
  "grep_lines ign re p =
     (if newline_b \<notin> set (takeWhile (\<lambda>c. c \<noteq> 0) p) then Some ([], p)
      else
        let line = takeWhile (\<lambda>c. c \<noteq> newline_b) p; q = dropWhile (\<lambda>c. c \<noteq> newline_b) p in
        case match ign re line of
          None \<Rightarrow> None
        | Some hit \<Rightarrow>
            (case grep_lines ign re (tl q) of
               None \<Rightarrow> None
             | Some (out, rest) \<Rightarrow> Some ((if hit then line @ [newline_b] else []) @ out, rest)))"
  by auto

termination grep_lines
proof (relation "measure (\<lambda>(_, _, p). length p)", simp, goal_cases)
  case (1 ign re p x xa x2)
  then have "newline_b \<in> set p" using set_takeWhileD by fastforce
  then have "dropWhile (\<lambda>c. c \<noteq> newline_b) p \<noteq> []" by (auto simp: dropWhile_eq_Nil_conv)
  moreover have "length (dropWhile (\<lambda>c. c \<noteq> newline_b) p) \<le> length p" by (rule length_dropWhile_le)
  ultimately show ?case using 1 by (cases "dropWhile (\<lambda>c. c \<noteq> newline_b) p") auto
qed

declare grep_lines.simps [simp del]

definition BUFSZ :: nat where "BUFSZ = 1024"

text \<open>
  The outer loop, with \<open>buf\<close> the \<open>m\<close> bytes kept from before and \<open>inp\<close> the rest of the file. How many bytes
  \<open>read\<close> returns is up to the kernel: \<open>rd\<close> proposes a number, of which at least one byte and no more than
  fit or remain are taken. \<open>read\<close> returns 0 at the end of the file and when the buffer is full.
\<close>

definition read_size :: "(nat \<Rightarrow> nat) \<Rightarrow> nat \<Rightarrow> nat \<Rightarrow> nat" where
  "read_size rd space left = min (min space left) (max 1 (rd left))"

function grep_loop :: "bool \<Rightarrow> byte list \<Rightarrow> (nat \<Rightarrow> nat) \<Rightarrow> byte list \<Rightarrow> byte list \<Rightarrow> byte list option" where
  "grep_loop ign re rd buf inp =
     (let n = read_size rd (BUFSZ - length buf - 1) (length inp) in
      if n = 0 then Some [] else
      case grep_lines ign re (buf @ take n inp) of
        None \<Rightarrow> None
      | Some (out, rest) \<Rightarrow> map_option (\<lambda>o2. out @ o2) (grep_loop ign re rd rest (drop n inp)))"
  by auto

termination grep_loop
  by (relation "measure (\<lambda>(_, _, _, _, inp). length inp)") (auto simp: read_size_def min_def split: if_splits)

declare grep_loop.simps [simp del]

definition grep :: "bool \<Rightarrow> byte list \<Rightarrow> (nat \<Rightarrow> nat) \<Rightarrow> byte list \<Rightarrow> byte list option" where
  "grep ign re rd inp = grep_loop ign re rd [] inp"

text \<open>\<open>main\<close>: what the arguments ask for.\<close>

datatype grep_call = Usage | Grep bool "byte list" "byte list list"

definition grep_main :: "byte list list \<Rightarrow> grep_call" where
  "grep_main argv =
     (if length argv \<le> 1 then Usage
      else if argv ! 1 = map of_char ''-i'' then
        (if length argv \<le> 2 then Usage else Grep True (argv ! 2) (drop 3 argv))
      else Grep False (argv ! 1) (drop 2 argv))"

section \<open>Specification\<close>

text \<open>
  A pattern is read as a sequence of items: a character with a star, a final \<open>$\<close>, or a single
  character. \<open>starts\<close> says that the text begins with a match, \<open>matches\<close> that it contains one.
\<close>

definition fits :: "bool \<Rightarrow> byte \<Rightarrow> byte \<Rightarrow> bool" where
  "fits ign c d \<longleftrightarrow> c = period \<or> same_char ign c d"

fun starts :: "bool \<Rightarrow> byte list \<Rightarrow> byte list \<Rightarrow> bool" where
  "starts ign [] text \<longleftrightarrow> True"
| "starts ign [c] text \<longleftrightarrow> (if c = dollar then text = [] else text \<noteq> [] \<and> fits ign c (hd text))"
| "starts ign (c # d # re) text \<longleftrightarrow>
     (if d = star
      then \<exists>k\<le>length text. (\<forall>x\<in>set (take k text). fits ign c x) \<and> starts ign re (drop k text)
      else text \<noteq> [] \<and> fits ign c (hd text) \<and> starts ign (d # re) (tl text))"

definition matches :: "bool \<Rightarrow> byte list \<Rightarrow> byte list \<Rightarrow> bool" where
  "matches ign re text \<longleftrightarrow>
     (if re \<noteq> [] \<and> hd re = caret then starts ign (tl re) text
      else \<exists>k\<le>length text. starts ign re (drop k text))"

text \<open>The pattern has no item \<open>.*\<close>.\<close>

fun no_dot_star :: "byte list \<Rightarrow> bool" where
  "no_dot_star [] \<longleftrightarrow> True"
| "no_dot_star [c] \<longleftrightarrow> True"
| "no_dot_star (c # d # re) \<longleftrightarrow> (if d = star then c \<noteq> period \<and> no_dot_star re else no_dot_star (d # re))"

section \<open>Correctness\<close>

lemma same_char_sym: "same_char ign c d = same_char ign d c"
  by (auto simp: same_char_def)

lemma ex_le_shift: "(\<exists>k\<le>Suc n. P k) \<longleftrightarrow> P 0 \<or> (\<exists>k\<le>n. P (Suc k))"
  by (metis Suc_le_mono bot_nat_0.extremum not0_implies_Suc)

lemma matchstar_correct:
  assumes "c \<noteq> period"
  shows "matchstar ign c (\<lambda>t. Some (M t)) text =
    Some (\<exists>k\<le>length text. (\<forall>x\<in>set (take k text). fits ign c x) \<and> M (drop k text))"
proof (induction "text")
  case Nil
  then show ?case using assms by (subst matchstar.simps) auto
next
  case (Cons d t)
  have *: "(\<exists>k\<le>length (d # t). (\<forall>x\<in>set (take k (d # t)). fits ign c x) \<and> M (drop k (d # t))) \<longleftrightarrow>
      M (d # t) \<or> fits ign c d \<and> (\<exists>k\<le>length t. (\<forall>x\<in>set (take k t). fits ign c x) \<and> M (drop k t))"
    by (auto simp: ex_le_shift)
  show ?case unfolding * using assms Cons
    by (subst matchstar.simps) (auto simp: fits_def same_char_sym)
qed

lemma matchhere_correct: "no_dot_star re \<Longrightarrow> matchhere ign re text = Some (starts ign re text)"
proof (induction ign re "text" rule: matchhere.induct)
  case (3 ign c d re s)
  have "matchhere ign re = (\<lambda>t. Some (starts ign re t))" if "d = star"
    using 3 that by auto
  then show ?case using 3 by (auto simp: fits_def matchstar_correct)
qed (auto simp: fits_def)

lemma match_anywhere_correct:
  "no_dot_star re \<Longrightarrow> match_anywhere ign re text = Some (\<exists>k\<le>length text. starts ign re (drop k text))"
  by (induction "text") (auto simp: matchhere_correct ex_le_shift)

text \<open>\<open>match\<close> drops a leading \<open>^\<close> before the items are read.\<close>

definition searchable :: "byte list \<Rightarrow> bool" where
  "searchable re \<longleftrightarrow> no_dot_star (if re \<noteq> [] \<and> hd re = caret then tl re else re)"

lemma match_correct: "searchable re \<Longrightarrow> match ign re text = Some (matches ign re text)"
  by (auto simp: match_def matches_def searchable_def matchhere_correct match_anywhere_correct split: if_splits)



lemma matchstar_dot:
  assumes "m text = Some False" and "text \<noteq> []"
  shows "matchstar ign period m text = None"
proof -
  have "\<not> (c = period \<and> f t = Some False \<and> t \<noteq> [])" if "matchstar i c f t = Some y" for i c f t y
    by (rule matchstar.raw_induct [where P = "\<lambda>i c f t y. \<not> (c = period \<and> f t = Some False \<and> t \<noteq> [])", OF _ that]) (auto simp: Option.bind_eq_Some_conv split: if_splits)
  with assms show ?thesis by (cases "matchstar ign period m text") auto
qed

text \<open>C31: For the item \<open>.*\<close> the loop does not advance: unless the rest of the pattern matches at once, or
  the text is empty, \<open>match\<close> never returns.\<close>

theorem grep_dot_star_hangs:
  assumes "matchhere ign re text = Some False" and "text \<noteq> []"
  shows "match ign (period # star # re) text = None"
  using assms matchstar_dot [of "matchhere ign re" "text" ign]
  by (cases "text") (auto simp: match_def)

theorem grep_dot_star_hangs_witness:
  "match False (map of_char ''.*b'') (map of_char ''ab'') = None"
proof -
  have "matchhere False (map of_char ''b'') (map of_char ''ab'') = Some False" by code_simp
  from grep_dot_star_hangs [OF this] show ?thesis by simp
qed

section \<open>Files\<close>

text \<open>The complete lines of a file, and what follows the last newline.\<close>

fun text_lines :: "byte list \<Rightarrow> byte list list" where
  "text_lines [] = []"
| "text_lines (c # cs) =
     (if c = newline_b then [] # text_lines cs
      else if newline_b \<in> set cs then (c # hd (text_lines cs)) # tl (text_lines cs) else [])"

definition last_part :: "byte list \<Rightarrow> byte list" where
  "last_part cs = rev (takeWhile (\<lambda>c. c \<noteq> newline_b) (rev cs))"

lemma text_lines_empty [simp]: "newline_b \<notin> set p \<Longrightarrow> text_lines p = []"
  by (induction p) auto

lemma last_part_all [simp]: "newline_b \<notin> set p \<Longrightarrow> last_part p = p"
  unfolding last_part_def by (subst takeWhile_eq_all_conv [THEN iffD2]) auto

lemma text_lines_line:
  "newline_b \<notin> set line \<Longrightarrow> text_lines (line @ newline_b # cs) = line # text_lines cs"
  by (induction line) auto

lemma last_part_line: "last_part (line @ newline_b # cs) = last_part cs"
  by (auto simp: last_part_def takeWhile_append intro!: takeWhile_eq_all_conv [THEN iffD2, symmetric])

lemma last_part_no_newline: "newline_b \<notin> set (last_part p)"
  by (auto simp: last_part_def dest: set_takeWhileD)

lemma set_last_part: "set (last_part p) \<subseteq> set p"
  by (auto simp: last_part_def dest: set_takeWhileD)

text \<open>Cutting a file into lines, one at a time.\<close>

lemma lines_induct [case_names Rest Line]:
  assumes "\<And>p. newline_b \<notin> set p \<Longrightarrow> P p"
    and "\<And>line p. newline_b \<notin> set line \<Longrightarrow> P p \<Longrightarrow> P (line @ newline_b # p)"
  shows "P p"
proof (induction "length p" arbitrary: p rule: less_induct)
  case less
  show ?case
  proof (cases "newline_b \<in> set p")
    case True
    then obtain xs ys where "p = xs @ newline_b # ys" "newline_b \<notin> set xs" using split_list_first by metis
    with less assms(2) show ?thesis by simp
  next
    case False
    then show ?thesis by (rule assms(1))
  qed
qed

lemma text_lines_append: "text_lines (p @ q) = text_lines p @ text_lines (last_part p @ q)"
  by (induction p rule: lines_induct) (simp_all add: text_lines_line last_part_line)

lemma last_part_append: "last_part (p @ q) = last_part (last_part p @ q)"
  by (induction p rule: lines_induct) (simp_all add: last_part_line)

definition show_lines :: "byte list list \<Rightarrow> byte list" where
  "show_lines ls = concat (map (\<lambda>l. l @ [newline_b]) ls)"

lemma grep_lines_correct:
  assumes "searchable re"
  shows "0 \<notin> set p \<Longrightarrow>
    grep_lines ign re p = Some (show_lines (filter (matches ign re) (text_lines p)), last_part p)"
proof (induction p rule: lines_induct)
  case (Rest p)
  then show ?case
    by (subst grep_lines.simps) (auto simp: show_lines_def dest: set_takeWhileD)
next
  case (Line line p)
  have nz: "takeWhile (\<lambda>c. c \<noteq> 0) (line @ newline_b # p) = line @ newline_b # p"
    using Line.prems by (simp add: takeWhile_eq_all_conv) auto
  have "takeWhile (\<lambda>c. c \<noteq> newline_b) (line @ newline_b # p) = line"
    and "dropWhile (\<lambda>c. c \<noteq> newline_b) (line @ newline_b # p) = newline_b # p"
    using Line.hyps by (auto simp: takeWhile_append dropWhile_append)
  then show ?case
    using Line assms nz
    by (subst grep_lines.simps) (auto simp: match_correct show_lines_def text_lines_line last_part_line)
qed

text \<open>Every line, and the unfinished one at the end, fits into the buffer.\<close>

definition short_lines :: "byte list \<Rightarrow> bool" where
  "short_lines p \<longleftrightarrow> (\<forall>l\<in>set (last_part p # text_lines p). length l < BUFSZ - 1)"

lemma short_lines_append: "short_lines (p @ q) \<Longrightarrow> short_lines (last_part p @ q)"
  unfolding short_lines_def text_lines_append [of p q] last_part_append [of p q] by auto

lemma short_lines_prefix:
  assumes "short_lines (p @ q)" and "newline_b \<notin> set p"
  shows "length p < BUFSZ - 1"
proof (cases "newline_b \<in> set q")
  case True
  then obtain xs ys where q: "q = xs @ newline_b # ys" "newline_b \<notin> set xs" using split_list_first by metis
  have "text_lines (p @ q) = (p @ xs) # text_lines ys"
    using text_lines_line [of "p @ xs" ys] assms(2) q by simp
  with assms(1) show ?thesis by (simp add: short_lines_def)
next
  case False
  with assms show ?thesis by (simp add: short_lines_def)
qed

lemma grep_loop_correct:
  assumes "searchable re"
  shows "short_lines (buf @ inp) \<Longrightarrow> 0 \<notin> set (buf @ inp) \<Longrightarrow> newline_b \<notin> set buf \<Longrightarrow>
    grep_loop ign re rd buf inp = Some (show_lines (filter (matches ign re) (text_lines (buf @ inp))))"
proof (induction inp arbitrary: buf rule: length_induct)
  case (1 inp)
  let ?n = "read_size rd (BUFSZ - length buf - 1) (length inp)" and ?out = "\<lambda>p. show_lines (filter (matches ign re) (text_lines p))"
  show ?case
  proof (cases "inp = []")
    case True
    with 1 show ?thesis by (subst grep_loop.simps) (simp add: read_size_def show_lines_def)
  next
    case False
    let ?p = "buf @ take ?n inp" and ?q = "drop ?n inp"
    have n: "0 < ?n"
      using False short_lines_prefix [OF 1(2,4)] by (simp add: read_size_def BUFSZ_def)
    have pq: "buf @ inp = ?p @ ?q" by simp
    have "0 \<notin> set ?p" using 1(3) by (auto dest: in_set_takeD)
    then have lines: "grep_lines ign re ?p = Some (?out ?p, last_part ?p)"
      by (rule grep_lines_correct [OF assms])
    have "grep_loop ign re rd (last_part ?p) ?q = Some (?out (last_part ?p @ ?q))"
    proof (rule 1(1) [rule_format])
      show "length ?q < length inp" using n False by simp
      show "short_lines (last_part ?p @ ?q)" using 1(2) unfolding pq by (rule short_lines_append)
      show "0 \<notin> set (last_part ?p @ ?q)"
        using 1(3) set_last_part [of ?p] by (auto dest: in_set_takeD in_set_dropD)
      show "newline_b \<notin> set (last_part ?p)" by (rule last_part_no_newline)
    qed
    then have "grep_loop ign re rd buf inp = Some (?out ?p @ ?out (last_part ?p @ ?q))"
      using n lines by (subst grep_loop.simps) (simp add: Let_def)
    then show ?thesis unfolding pq text_lines_append [of ?p ?q] by (simp add: show_lines_def)
  qed
qed

text \<open>C30: Whatever pieces \<open>read\<close> returns, \<open>grep\<close> prints exactly the complete lines of its input that contain
  a match, in order, each with its newline, provided that no line is longer than the buffer and that there
  is no NUL byte. Text behind the last newline is not looked at.\<close>

theorem grep_prints_matching_lines:
  assumes "searchable re" and "short_lines inp" and "0 \<notin> set inp"
  shows "grep ign re rd inp = Some (show_lines (filter (matches ign re) (text_lines inp)))"
  using grep_loop_correct [of re "[]" inp] assms by (simp add: grep_def)

theorem grep_prints_matching_lines_witness:
  "grep True (map of_char ''b$'') (\<lambda>_. 2) (map of_char ''aB\<newline>c\<newline>b'') =
     Some (show_lines (filter (matches True (map of_char ''b$'')) (map (map of_char) [''aB'', ''c''])))"
proof -
  let ?re = "map of_char ''b$'' :: byte list" and ?inp = "map of_char ''aB\<newline>c\<newline>b'' :: byte list"
  have "searchable ?re" by code_simp
  moreover have "short_lines ?inp" by (simp add: short_lines_def last_part_def BUFSZ_def)
  moreover have "0 \<notin> set ?inp" by simp
  ultimately have "grep True ?re (\<lambda>_. 2) ?inp = Some (show_lines (filter (matches True ?re) (text_lines ?inp)))"
    by (rule grep_prints_matching_lines)
  moreover have "text_lines ?inp = map (map of_char) [''aB'', ''c'']" by simp
  ultimately show ?thesis by (simp only:)
qed

end
