(* ===== verification/Umalloc.thy ===== *)
theory Umalloc
  imports Prelude
begin

text \<open>
  The user-level allocator (\<open>user/umalloc.c\<close>): a circular list of free blocks in address order, each with
  a header of 16 bytes. Addresses are byte addresses as natural numbers, a block is the address of its
  header, sizes count headers and are stored in 32 bits. The header fields of all addresses form the
  state, with the end of the heap; \<open>sbrk\<close> has the effect of the system call on it: memory is granted up to
  a limit. Loops over the list may run for ever on a damaged list, which is the value \<open>None\<close>.
\<close>

section \<open>State and operations\<close>

text \<open>\<open>base\<close> is the address of the static variable of that name, in the data segment below the heap.\<close>

record umem =
  base :: nat
  hptr :: "nat \<Rightarrow> nat"
  hsize :: "nat \<Rightarrow> nat"
  freep :: nat        \<comment> \<open>0 before the first allocation\<close>
  brk :: nat
  mem_limit :: nat

definition HDR :: nat where "HDR = 16"

text \<open>\<open>sbrk(n)\<close>, with \<open>None\<close> for \<open>SBRK_ERROR\<close>. A request to shrink by more than there is leaves the size alone.\<close>

definition sbrk :: "int \<Rightarrow> umem \<Rightarrow> (nat \<times> umem) option" where
  "sbrk n s =
     (if n \<ge> 0 then
        (if brk s + nat n \<le> mem_limit s then Some (brk s, s\<lparr>brk := brk s + nat n\<rparr>) else None)
      else Some (brk s, s\<lparr>brk := (if nat (- n) \<le> brk s then brk s - nat (- n) else brk s)\<rparr>))"

text \<open>The loop of \<open>free\<close> that looks for the block behind which \<open>bp\<close> belongs.\<close>

partial_function (option) free_place :: "(nat \<Rightarrow> nat) \<Rightarrow> nat \<Rightarrow> nat \<Rightarrow> nat option" where
  "free_place h bp p =
     (if bp > p \<and> bp < h p then Some p
      else if p \<ge> h p \<and> (bp > p \<or> bp < h p) then Some p
      else free_place h bp (h p))"

definition set_ptr :: "nat \<Rightarrow> nat \<Rightarrow> umem \<Rightarrow> umem" where
  "set_ptr p v s = s\<lparr>hptr := (hptr s)(p := v)\<rparr>"

definition set_size :: "nat \<Rightarrow> nat \<Rightarrow> umem \<Rightarrow> umem" where
  "set_size p n s = s\<lparr>hsize := (hsize s)(p := n mod 2 ^ 32)\<rparr>"

definition link_next :: "nat \<Rightarrow> nat \<Rightarrow> umem \<Rightarrow> umem" where
  "link_next bp p s =
     (let nxt = hptr s p in
      if bp + HDR * hsize s bp = nxt
      then set_ptr bp (hptr s nxt) (set_size bp (hsize s bp + hsize s nxt) s)
      else set_ptr bp nxt s)"

definition link_prev :: "nat \<Rightarrow> nat \<Rightarrow> umem \<Rightarrow> umem" where
  "link_prev bp p s =
     (if p + HDR * hsize s p = bp
      then set_ptr p (hptr s bp) (set_size p (hsize s p + hsize s bp) s)
      else set_ptr p bp s)"

definition free :: "nat \<Rightarrow> umem \<Rightarrow> umem option" where
  "free ap s =
     (let bp = ap - HDR in
      map_option (\<lambda>p. (link_prev bp p (link_next bp p s))\<lparr>freep := p\<rparr>)
        (free_place (hptr s) bp (freep s)))"

text \<open>The number of bytes goes through an \<open>int\<close>.\<close>

definition to_int32 :: "nat \<Rightarrow> int" where
  "to_int32 n = (int n + 2 ^ 31) mod 2 ^ 32 - 2 ^ 31"

text \<open>\<open>morecore\<close> returns \<open>freep\<close>, or 0.\<close>

definition morecore :: "nat \<Rightarrow> umem \<Rightarrow> (nat \<times> umem) option" where
  "morecore nu s =
     (let nu = (if nu < 4096 then 4096 else nu) in
      case sbrk (to_int32 (nu * HDR)) s of
        None \<Rightarrow> Some (0, s)
      | Some (hp, t) \<Rightarrow> map_option (\<lambda>u. (freep u, u)) (free (hp + HDR) (set_size hp nu t)))"

definition take_block :: "nat \<Rightarrow> nat \<Rightarrow> nat \<Rightarrow> umem \<Rightarrow> nat \<times> umem" where
  "take_block nunits prevp p s =
     (if hsize s p = nunits then (p + HDR, (set_ptr prevp (hptr s p) s)\<lparr>freep := prevp\<rparr>)
      else
        let t = set_size p (hsize s p - nunits) s; q = p + HDR * hsize t p in
        (q + HDR, (set_size q nunits t)\<lparr>freep := prevp\<rparr>))"

partial_function (option) malloc_loop :: "nat \<Rightarrow> nat \<Rightarrow> nat \<Rightarrow> umem \<Rightarrow> (nat \<times> umem) option" where
  "malloc_loop nunits prevp p s =
     (if hsize s p \<ge> nunits then Some (take_block nunits prevp p s)
      else if p = freep s then
        Option.bind (morecore nunits s) (\<lambda>r.
        if fst r = 0 then Some (0, snd r)
        else malloc_loop nunits (fst r) (hptr (snd r) (fst r)) (snd r))
      else malloc_loop nunits p (hptr s p) s)"

definition units_for :: "uint \<Rightarrow> nat" where
  "units_for nbytes = (unat nbytes + HDR - 1) div HDR + 1"

definition malloc :: "uint \<Rightarrow> umem \<Rightarrow> (nat \<times> umem) option" where
  "malloc nbytes s =
     (let t = (if freep s = 0 then (set_size (base s) 0 (set_ptr (base s) (base s) s))\<lparr>freep := base s\<rparr> else s) in
      malloc_loop (units_for nbytes) (freep t) (hptr t (freep t)) t)"

section \<open>The free list\<close>

text \<open>\<open>linked h xs e\<close>: the blocks \<open>xs\<close> are linked in this order and the last one points to \<open>e\<close>.\<close>

fun linked :: "(nat \<Rightarrow> nat) \<Rightarrow> nat list \<Rightarrow> nat \<Rightarrow> bool" where
  "linked h [] e \<longleftrightarrow> True"
| "linked h [x] e \<longleftrightarrow> h x = e"
| "linked h (x # y # xs) e \<longleftrightarrow> h x = y \<and> linked h (y # xs) e"

lemma linked_append: "linked h (xs @ y # ys) e \<longleftrightarrow> linked h xs y \<and> linked h (y # ys) e"
  by (induction h xs y rule: linked.induct) auto

lemma linked_Cons: "linked h (x # xs) e \<longleftrightarrow> h x = hd (xs @ [e]) \<and> linked h xs e"
  by (cases xs) auto

lemma linked_upd: "z \<notin> set xs \<Longrightarrow> linked (h(z := v)) xs e = linked h xs e"
  by (induction h xs e rule: linked.induct) auto

lemma linked_next: "linked h xs e \<Longrightarrow> x \<in> set xs \<Longrightarrow> h x \<in> insert e (set xs)"
  by (induction h xs e rule: linked.induct) auto

text \<open>
  Invariant: \<open>fl\<close> lists the free blocks with their sizes in address order; behind \<open>base\<close>, which has size
  0, they are linked in a circle, and no two of them touch. \<open>A\<close> is the set of blocks handed out. All
  blocks are disjoint and lie inside the heap, and their headers hold their sizes.
\<close>

abbreviation ends :: "nat \<times> nat \<Rightarrow> nat" where
  "ends x \<equiv> fst x + HDR * snd x"

definition apart :: "nat \<times> nat \<Rightarrow> nat \<times> nat \<Rightarrow> bool" where
  "apart x y \<longleftrightarrow> ends x \<le> fst y \<or> ends y \<le> fst x"

definition block :: "nat \<Rightarrow> umem \<Rightarrow> nat \<times> nat \<Rightarrow> bool" where
  "block low s x \<longleftrightarrow> low \<le> fst x \<and> ends x \<le> brk s \<and> 0 < snd x \<and> hsize s (fst x) = snd x"

definition heap_inv :: "nat \<Rightarrow> (nat \<times> nat) set \<Rightarrow> (nat \<times> nat) list \<Rightarrow> umem \<Rightarrow> bool" where
  "heap_inv low A fl s \<longleftrightarrow>
     0 < base s \<and> base s < low \<and> low \<le> brk s \<and> brk s \<le> mem_limit s \<and> mem_limit s \<le> 2 ^ 36 \<and>
     linked (hptr s) (base s # map fst fl) (base s) \<and> freep s \<in> set (base s # map fst fl) \<and>
     hsize s (base s) = 0 \<and> sorted_wrt (\<lambda>x y. ends x < fst y) fl \<and>
     (\<forall>x\<in>set fl \<union> A. block low s x) \<and>
     (\<forall>x\<in>set fl. \<forall>y\<in>A. apart x y) \<and> (\<forall>x\<in>A. \<forall>y\<in>A. x \<noteq> y \<longrightarrow> apart x y)"

lemma heap_invD:
  assumes "heap_inv low A fl s"
  shows "0 < base s" "base s < low" "low \<le> brk s" "brk s \<le> mem_limit s" "mem_limit s \<le> 2 ^ 36"
    "linked (hptr s) (base s # map fst fl) (base s)" "freep s \<in> set (base s # map fst fl)"
    "hsize s (base s) = 0" "sorted_wrt (\<lambda>x y. ends x < fst y) fl"
    "x \<in> set fl \<union> A \<Longrightarrow> block low s x" "x \<in> set fl \<Longrightarrow> y \<in> A \<Longrightarrow> apart x y"
    "x \<in> A \<Longrightarrow> y \<in> A \<Longrightarrow> x \<noteq> y \<Longrightarrow> apart x y"
  using assms by (auto simp: heap_inv_def)

section \<open>Searching the list\<close>

lemma free_place_step:
  assumes "\<not> (bp > p \<and> bp < h p)" and "\<not> (p \<ge> h p \<and> (bp > p \<or> bp < h p))"
  shows "free_place h bp p = free_place h bp (h p)"
  by (subst free_place.simps) (use assms in auto)

text \<open>Blocks along the way at which the search does not stop.\<close>

lemma free_place_walk:
  assumes "linked h (zs @ [p]) e"
    and "\<And>z. z \<in> set zs \<Longrightarrow> \<not> (bp > z \<and> bp < h z) \<and> \<not> (z \<ge> h z \<and> (bp > z \<or> bp < h z))"
  shows "free_place h bp (hd (zs @ [p])) = free_place h bp p"
  using assms
proof (induction zs)
  case (Cons z zs)
  have "h z = hd (zs @ [p])" using Cons.prems(1) by (cases zs) (auto simp: linked_Cons)
  moreover have "free_place h bp z = free_place h bp (h z)"
    using Cons.prems(2) by (intro free_place_step) auto
  moreover have "free_place h bp (hd (zs @ [p])) = free_place h bp p"
    using Cons by (auto simp: linked_Cons)
  ultimately show ?case by simp
qed simp

lemma linked_sorted_next:
  "linked h (xs @ [p]) e \<Longrightarrow> sorted_wrt (<) (xs @ [p]) \<Longrightarrow> x \<in> set xs \<Longrightarrow> x < h x \<and> h x \<le> p"
proof (induction xs)
  case (Cons z zs)
  then show ?case by (cases zs) (auto simp: linked_Cons)
qed simp

lemma linked_sorted_last:
  "linked h xs e \<Longrightarrow> sorted_wrt (<) xs \<Longrightarrow> x \<in> set xs \<Longrightarrow> x < h x \<or> h x = e"
proof (induction xs)
  case (Cons z zs)
  then show ?case by (cases zs) (auto simp: linked_Cons)
qed simp

lemma free_place_found:
  assumes l: "linked h (ws @ p # vs) e" and srt: "sorted_wrt (<) (ws @ p # vs)" and e: "e = hd (ws @ [p])"
    and lo: "\<forall>w\<in>set (ws @ [p]). w < bp" and hi: "\<forall>v\<in>set vs. bp < v"
    and f: "f \<in> set (ws @ p # vs)"
  shows "free_place h bp f = Some p"
proof -
  have lp: "linked h (ws @ [p]) (h p)" and lv: "linked h vs e" and hp: "h p = hd (vs @ [e])"
    using l by (auto simp: linked_append linked_Cons)
  have "e \<le> p" using srt e by (cases ws) (auto simp: sorted_wrt_append)
  then have stop: "free_place h bp p = Some p"
    using lo hi hp by (subst free_place.simps) (cases vs; auto)
  have w: "w < h w \<and> h w < bp" if "w \<in> set ws" for w
    using linked_sorted_next [OF lp _ that] srt lo by (auto simp: sorted_wrt_append)
  have "e < bp" using e lo by (cases ws) auto
  then have v: "bp < v \<and> (v < h v \<or> h v < bp)" if "v \<in> set vs" for v
    using linked_sorted_last [OF lv _ that] srt hi that by (auto simp: sorted_wrt_append)
  consider "f \<in> set ws" | "f = p" | "f \<in> set vs" using f by auto
  then show ?thesis
  proof cases
    case 1
    then obtain w1 w2 where ws: "ws = w1 @ f # w2" by (meson split_list)
    have "free_place h bp (hd ((f # w2) @ [p])) = free_place h bp p"
    proof (rule free_place_walk)
      show "linked h ((f # w2) @ [p]) (h p)" using lp ws by (simp add: linked_append)
    qed (use w ws in force)
    then show ?thesis using stop by simp
  next
    case 3
    then obtain v1 v2 where vs: "vs = v1 @ f # v2" by (meson split_list)
    have "free_place h bp (hd ((f # v2 @ ws) @ [p])) = free_place h bp p"
    proof (rule free_place_walk)
      have "linked h (f # v2) (hd (ws @ [p]))" using lv vs e by (simp add: linked_append)
      then show "linked h ((f # v2 @ ws) @ [p]) (h p)"
        using lp linked_append [of h "f # v2" "hd (ws @ [p])" "tl (ws @ [p])" "h p"] by (cases ws) auto
    qed (use v w vs in force)
    then show ?thesis using stop by simp
  qed (use stop in simp)
qed

section \<open>Freeing\<close>

text \<open>Where \<open>bp\<close> belongs in the list.\<close>

lemma heap_split:
  assumes inv: "heap_inv low A fl s" and bp: "(bp, n) \<in> A"
  obtains xs ys where "fl = xs @ ys" "\<forall>x\<in>set xs. ends x \<le> bp" "\<forall>y\<in>set ys. bp + HDR * n \<le> fst y"
proof
  let ?P = "\<lambda>x. fst x < bp"
  show "fl = takeWhile ?P fl @ dropWhile ?P fl" by simp
  have n: "0 < n" using heap_invD(10) [OF inv, of "(bp, n)"] bp by (simp add: block_def)
  have "apart x (bp, n)" if "x \<in> set fl" for x using heap_invD(11) [OF inv that bp] .
  moreover have pos: "0 < snd x" if "x \<in> set fl" for x using heap_invD(10) [OF inv, of x] that by (simp add: block_def)
  ultimately have ap: "x \<in> set fl \<Longrightarrow> ends x \<le> bp \<and> fst x < bp \<or> bp + HDR * n \<le> fst x \<and> \<not> fst x < bp" for x
    using n by (fastforce simp: apart_def HDR_def)
  show "\<forall>x\<in>set (takeWhile ?P fl). ends x \<le> bp"
  proof
    fix x assume "x \<in> set (takeWhile ?P fl)"
    then have "x \<in> set fl" "fst x < bp" by (auto dest: set_takeWhileD)
    with ap show "ends x \<le> bp" by fastforce
  qed
  show "\<forall>y\<in>set (dropWhile ?P fl). bp + HDR * n \<le> fst y"
  proof
    fix y assume y: "y \<in> set (dropWhile ?P fl)"
    have "sorted_wrt (\<lambda>x y. ends x < fst y) (dropWhile ?P fl)"
      using heap_invD(9) [OF inv] sorted_wrt_append [of "\<lambda>x y. ends x < fst y" "takeWhile ?P fl" "dropWhile ?P fl"]
      by simp
    moreover obtain d ds where d: "dropWhile ?P fl = d # ds" using y by (cases "dropWhile ?P fl") auto
    moreover have "\<not> fst d < bp" using hd_dropWhile [of ?P fl] d by auto
    ultimately have "\<not> fst y < bp" using y by (auto simp: HDR_def)
    moreover have "y \<in> set fl" using y by (rule set_dropWhileD)
    ultimately show "bp + HDR * n \<le> fst y" using ap by blast
  qed
qed

text \<open>Joining two neighbouring blocks keeps the distance to a third.\<close>

lemma apart_join:
  "apart (a, m) y \<Longrightarrow> apart (a + HDR * m, k) y \<Longrightarrow> 0 < snd y \<Longrightarrow> apart (a, m + k) y"
  by (auto simp: apart_def HDR_def)

lemma heap_pos: "heap_inv low A fl s \<Longrightarrow> (a, k) \<in> A \<Longrightarrow> 0 < k"
  using heap_invD(10) [of low A fl s "(a, k)"] by (simp add: block_def)

lemma apart_sym: "apart x y \<Longrightarrow> apart y x"
  by (auto simp: apart_def)

lemma size_bound: "heap_inv low A fl s \<Longrightarrow> low \<le> a \<Longrightarrow> a + HDR * n \<le> brk s \<Longrightarrow> n < 2 ^ 32"
  using heap_invD(1-5) [of low A fl s] by (simp add: HDR_def)

lemma set_size_small: "n < 2 ^ 32 \<Longrightarrow> set_size p n s = s\<lparr>hsize := (hsize s)(p := n)\<rparr>"
  by (simp add: set_size_def)

lemma link_next_ok:
  assumes inv: "heap_inv low A fl s" and bp: "(bp, n) \<in> A" and fl: "fl = xs @ ys"
    and hi: "\<forall>y\<in>set ys. bp + HDR * n \<le> fst y" and p: "hptr s p = hd (map fst ys @ [base s])"
  obtains zs k where
    "link_next bp p s = s\<lparr>hptr := (hptr s)(bp := hd (map fst zs @ [base s])), hsize := (hsize s)(bp := k)\<rparr>"
    "set zs \<subseteq> set ys" "sorted_wrt (\<lambda>x y. ends x < fst y) (xs @ zs)" "\<forall>z\<in>set zs. bp + HDR * k < fst z"
    "linked (hptr s) (map fst zs) (base s)" "bp + HDR * k \<le> brk s" "n \<le> k"
    "\<forall>y\<in>A - {(bp, n)}. apart (bp, k) y"
proof -
  note srt = heap_invD(9) [OF inv]
  have b: "low \<le> bp" "bp + HDR * n \<le> brk s" "0 < n" "hsize s bp = n"
    using heap_invD(10) [OF inv, of "(bp, n)"] bp by (auto simp: block_def)
  have lnk: "linked (hptr s) (map fst ys) (base s)"
    using heap_invD(6) [OF inv] fl by (cases ys) (simp_all add: linked_append flip: append_Cons)
  have far: "\<forall>y\<in>A - {(bp, n)}. apart (bp, n) y"
    using heap_invD(12) [OF inv bp] by auto
  show thesis
  proof (cases "ys \<noteq> [] \<and> bp + HDR * n = fst (hd ys)")
    case True
    then obtain q m zs where ys: "ys = (q, m) # zs" "q = bp + HDR * n" by (cases ys) auto
    have q: "hsize s q = m" "q + HDR * m \<le> brk s" "low \<le> q"
      using heap_invD(10) [OF inv, of "(q, m)"] fl ys by (auto simp: block_def)
    have e: "bp + HDR * (n + m) \<le> brk s" using q ys by (simp add: algebra_simps)
    show thesis
    proof (rule that [of "n + m" zs])
      have "hptr s q = hd (map fst zs @ [base s])" using lnk ys by (simp add: linked_Cons)
      then show "link_next bp p s = s\<lparr>hptr := (hptr s)(bp := hd (map fst zs @ [base s])), hsize := (hsize s)(bp := n + m)\<rparr>"
        using p ys b(4) q(1) size_bound [OF inv b(1) e]
        by (simp add: link_next_def Let_def set_size_small set_ptr_def)
      show "\<forall>y\<in>A - {(bp, n)}. apart (bp, n + m) y"
        using far heap_invD(11) [OF inv, of "(q, m)"] heap_pos [OF inv] fl ys
        by (auto intro!: apart_join)
      show "sorted_wrt (\<lambda>x y. ends x < fst y) (xs @ zs)"
        using srt fl ys by (auto simp: sorted_wrt_append)
      show "\<forall>z\<in>set zs. bp + HDR * (n + m) < fst z"
        using srt fl ys by (auto simp: sorted_wrt_append algebra_simps)
      show "linked (hptr s) (map fst zs) (base s)" using lnk ys by (simp add: linked_Cons)
      show "set zs \<subseteq> set ys" using ys by auto
    qed (use e in auto)
  next
    case False
    have "hd (map fst ys @ [base s]) \<noteq> bp + HDR * n"
      using False b heap_invD(2) [OF inv] by (cases ys) auto
    then have eq: "link_next bp p s = s\<lparr>hptr := (hptr s)(bp := hd (map fst ys @ [base s])), hsize := (hsize s)(bp := n)\<rparr>"
      using p b(4) by (simp add: link_next_def Let_def set_ptr_def fun_upd_same_value)
    have gap: "\<forall>z\<in>set ys. bp + HDR * n < fst z"
    proof
      fix z assume z: "z \<in> set ys"
      show "bp + HDR * n < fst z"
      proof (cases "z = hd ys")
        case True
        then show ?thesis using False hi z by (cases ys) (auto simp: order_less_le)
      next
        case other: False
        obtain y ys' where ys: "ys = y # ys'" using z by (cases ys) auto
        then have "ends y < fst z" using srt fl z other by (auto simp: sorted_wrt_append)
        moreover have "bp + HDR * n \<le> fst y" using hi ys by simp
        ultimately show ?thesis by simp
      qed
    qed
    show thesis
      by (rule that [OF eq _ _ gap lnk]) (use srt fl b far in auto)
  qed
qed

lemma heap_sorted: "heap_inv low A fl s \<Longrightarrow> sorted_wrt (<) (base s # map fst fl)"
proof -
  assume inv: "heap_inv low A fl s"
  have "\<forall>x\<in>set fl. base s < fst x"
    using heap_invD(2) [OF inv] heap_invD(10) [OF inv] by (fastforce simp: block_def)
  moreover have "sorted_wrt (\<lambda>x y. fst x < fst y) fl"
    using heap_invD(9) [OF inv] by (rule sorted_wrt_mono_rel [rotated]) simp
  ultimately show ?thesis by (simp add: sorted_wrt_map)
qed

text \<open>The new block goes into the list behind \<open>xs\<close>.\<close>

lemma insert_block:
  assumes inv: "heap_inv low A (xs @ ys) s" and bp: "(bp, n) \<in> A"
    and zs: "set zs \<subseteq> set ys" "sorted_wrt (\<lambda>x y. ends x < fst y) (xs @ zs)"
      "\<forall>z\<in>set zs. bp + HDR * k < fst z" "linked (hptr s) (map fst zs) (base s)"
    and k: "bp + HDR * k \<le> brk s" "n \<le> k" "\<forall>y\<in>A - {(bp, n)}. apart (bp, k) y"
    and lo: "\<forall>x\<in>set xs. ends x < bp" and p: "p = last (base s # map fst xs)"
  shows "heap_inv low (A - {(bp, n)}) (xs @ (bp, k) # zs)
    (s\<lparr>hptr := (hptr s)(bp := hd (map fst zs @ [base s]), p := bp), hsize := (hsize s)(bp := k), freep := p\<rparr>)"
proof -
  let ?t = "s\<lparr>hptr := (hptr s)(bp := hd (map fst zs @ [base s]), p := bp), hsize := (hsize s)(bp := k), freep := p\<rparr>"
  have b: "low \<le> bp" "0 < n" using heap_invD(10) [OF inv, of "(bp, n)"] bp by (auto simp: block_def)
  obtain ws where ws: "base s # map fst xs = ws @ [p]"
    using p append_butlast_last_id [of "base s # map fst xs"] by (metis list.distinct(1))
  have addr: "a \<noteq> bp" if "a \<in> set (map fst (xs @ zs))" for a
    using that lo zs(3) by (fastforce simp: HDR_def)
  have below: "\<forall>a\<in>set (base s # map fst xs). a < bp"
    using lo b heap_invD(2) [OF inv] by (auto simp: HDR_def)
  have pin: "p \<in> set (base s # map fst xs)" unfolding ws by simp
  have pb: "p < bp" using below unfolding ws by simp
  have "sorted_wrt (<) (ws @ [p])"
    using heap_sorted [OF inv] unfolding ws [symmetric] by (simp add: sorted_wrt_append)
  then have pws: "p \<notin> set ws" by (auto simp: sorted_wrt_append)
  have link: "linked (hptr ?t) (base s # map fst (xs @ (bp, k) # zs)) (base s)"
  proof -
    have "linked (hptr s) (ws @ p # map fst ys) (base s)"
      using heap_invD(6) [OF inv] ws by (metis append.assoc append_Cons append_Nil map_append)
    then have "linked (hptr s) ws p" by (simp add: linked_append)
    then have "linked (hptr ?t) ws p" using below pws unfolding ws by (auto simp: linked_upd)
    moreover have "linked (hptr ?t) (map fst zs) (base s)"
    proof -
      have "p \<notin> set (map fst zs)" "bp \<notin> set (map fst zs)" using zs(3) pb by (force simp: HDR_def)+
      then show ?thesis using zs(4) by (simp add: linked_upd del: set_map)
    qed
    moreover have "p \<noteq> bp" using pb by simp
    ultimately have "linked (hptr ?t) (ws @ p # bp # map fst zs) (base s)"
      by (simp add: linked_append linked_Cons)
    moreover have "base s # map fst (xs @ (bp, k) # zs) = ws @ p # bp # map fst zs"
      using arg_cong [OF ws, of "\<lambda>l. l @ bp # map fst zs"] by simp
    ultimately show ?thesis by (simp only:)
  qed
  show ?thesis
    unfolding heap_inv_def
  proof (intro conjI)
    show "linked (hptr ?t) (base ?t # map fst (xs @ (bp, k) # zs)) (base ?t)" using link by simp
    show "freep ?t \<in> set (base ?t # map fst (xs @ (bp, k) # zs))" using pin by auto
    show "sorted_wrt (\<lambda>x y. ends x < fst y) (xs @ (bp, k) # zs)" using zs lo by (auto simp: sorted_wrt_append)
    show "\<forall>x\<in>set (xs @ (bp, k) # zs) \<union> (A - {(bp, n)}). block low ?t x"
    proof
      fix x assume x: "x \<in> set (xs @ (bp, k) # zs) \<union> (A - {(bp, n)})"
      show "block low ?t x"
      proof (cases "x = (bp, k)")
        case True
        then show ?thesis using b k by (simp add: block_def)
      next
        case False
        then have old: "block low s x" using x zs(1) by (intro heap_invD(10) [OF inv]) auto
        have "fst x \<noteq> bp"
          using x False addr k b old by (auto simp: apart_def block_def HDR_def dest!: bspec)
        then show ?thesis using old by (simp add: block_def)
      qed
    qed
    show "\<forall>x\<in>set (xs @ (bp, k) # zs). \<forall>y\<in>A - {(bp, n)}. apart x y"
      using k(3) zs(1) heap_invD(11) [OF inv] by auto
    show "\<forall>x\<in>A - {(bp, n)}. \<forall>y\<in>A - {(bp, n)}. x \<noteq> y \<longrightarrow> apart x y" using heap_invD(12) [OF inv] by auto
    show "hsize ?t (base ?t) = 0" using heap_invD(8) [OF inv] below by auto
  qed (use heap_invD(1-5) [OF inv] in simp_all)
qed

text \<open>The new block is joined to the one before it.\<close>

lemma merge_block:
  assumes inv: "heap_inv low A (us @ (p, m) # ys) s" and bp: "(bp, n) \<in> A"
    and zs: "set zs \<subseteq> set ys" "sorted_wrt (\<lambda>x y. ends x < fst y) (us @ (p, m) # zs)"
      "\<forall>z\<in>set zs. bp + HDR * k < fst z" "linked (hptr s) (map fst zs) (base s)"
    and k: "bp + HDR * k \<le> brk s" "n \<le> k" "\<forall>y\<in>A - {(bp, n)}. apart (bp, k) y"
    and p: "p + HDR * m = bp"
  shows "heap_inv low (A - {(bp, n)}) (us @ (p, m + k) # zs)
    (s\<lparr>hptr := (hptr s)(bp := v, p := hd (map fst zs @ [base s])), hsize := (hsize s)(bp := k, p := m + k), freep := p\<rparr>)"
proof -
  let ?t = "s\<lparr>hptr := (hptr s)(bp := v, p := hd (map fst zs @ [base s])), hsize := (hsize s)(bp := k, p := m + k), freep := p\<rparr>"
  have b: "low \<le> bp" "0 < n" using heap_invD(10) [OF inv, of "(bp, n)"] bp by (auto simp: block_def)
  have pm: "low \<le> p" "0 < m" using heap_invD(10) [OF inv, of "(p, m)"] by (auto simp: block_def)
  have pb: "p < bp" using p pm by (auto simp: HDR_def)
  have us: "\<forall>a\<in>set (base s # map fst us). a < p" using heap_sorted [OF inv] by (auto simp: sorted_wrt_append)
  have far: "\<forall>y\<in>A - {(bp, n)}. apart (p, m + k) y"
    using heap_invD(11) [OF inv, of "(p, m)"] heap_pos [OF inv] k(3) p by (auto intro!: apart_join)
  have link: "linked (hptr ?t) (base s # map fst (us @ (p, m + k) # zs)) (base s)"
  proof -
    have "linked (hptr s) ((base s # map fst us) @ p # map fst ys) (base s)" using heap_invD(6) [OF inv] by simp
    then have "linked (hptr s) (base s # map fst us) p" unfolding linked_append ..
    moreover have "p \<notin> set (base s # map fst us)" "bp \<notin> set (base s # map fst us)" using us pb by auto
    ultimately have 1: "linked (hptr ?t) (base s # map fst us) p" by (simp add: linked_upd del: list.set set_map)
    have "p \<notin> set (map fst zs)" "bp \<notin> set (map fst zs)" using zs(3) pb by (force simp: HDR_def)+
    then have "linked (hptr ?t) (map fst zs) (base s)" using zs(4) by (simp add: linked_upd del: set_map)
    with 1 have "linked (hptr ?t) ((base s # map fst us) @ p # map fst zs) (base s)"
      unfolding linked_append by (simp add: linked_Cons)
    then show ?thesis by simp
  qed
  show ?thesis
    unfolding heap_inv_def
  proof (intro conjI)
    show "linked (hptr ?t) (base ?t # map fst (us @ (p, m + k) # zs)) (base ?t)" using link by simp
    show "sorted_wrt (\<lambda>x y. ends x < fst y) (us @ (p, m + k) # zs)"
      using zs(2,3) p by (auto simp: sorted_wrt_append algebra_simps)
    show "\<forall>x\<in>set (us @ (p, m + k) # zs) \<union> (A - {(bp, n)}). block low ?t x"
    proof
      fix x assume x: "x \<in> set (us @ (p, m + k) # zs) \<union> (A - {(bp, n)})"
      show "block low ?t x"
      proof (cases "x = (p, m + k)")
        case True
        then show ?thesis using pm pb k(1) p by (auto simp: block_def algebra_simps)
      next
        case False
        then have old: "block low s x" using x zs(1) by (intro heap_invD(10) [OF inv]) auto
        have "fst x < p" if "x \<in> set us" using us that by auto
        moreover have "bp < fst x" if "x \<in> set zs" using zs(3) that by auto
        moreover have "apart (p, m + k) x" if "x \<in> A - {(bp, n)}" using far that by blast
        moreover have "apart (bp, k) x" if "x \<in> A - {(bp, n)}" using k(3) that by blast
        ultimately have "fst x \<noteq> bp" "fst x \<noteq> p"
          using x False pb b pm k(2) old by (auto simp: apart_def block_def HDR_def)
        then show ?thesis using old by (simp add: block_def)
      qed
    qed
    show "\<forall>x\<in>set (us @ (p, m + k) # zs). \<forall>y\<in>A - {(bp, n)}. apart x y"
      using far zs(1) heap_invD(11) [OF inv] by auto
    show "\<forall>x\<in>A - {(bp, n)}. \<forall>y\<in>A - {(bp, n)}. x \<noteq> y \<longrightarrow> apart x y" using heap_invD(12) [OF inv] by auto
    show "hsize ?t (base ?t) = 0" using heap_invD(8) [OF inv] us pb by auto
  qed (use heap_invD(1-5) [OF inv] in simp_all)
qed

lemma free_finds_place:
  assumes inv: "heap_inv low A (xs @ ys) s" and bp: "(bp, n) \<in> A"
    and lo: "\<forall>x\<in>set xs. ends x \<le> bp" and hi: "\<forall>y\<in>set ys. bp + HDR * n \<le> fst y"
  defines "p \<equiv> last (base s # map fst xs)"
  shows "free_place (hptr s) bp (freep s) = Some p" and "hptr s p = hd (map fst ys @ [base s])"
proof -
  have b: "low \<le> bp" "0 < n" using heap_invD(10) [OF inv, of "(bp, n)"] bp by (auto simp: block_def)
  obtain ws where ws: "base s # map fst xs = ws @ [p]"
    using p_def append_butlast_last_id [of "base s # map fst xs"] by (metis list.distinct(1))
  have all: "base s # map fst (xs @ ys) = ws @ p # map fst ys"
    using arg_cong [OF ws, of "\<lambda>l. l @ map fst ys"] by simp
  have l: "linked (hptr s) (ws @ p # map fst ys) (base s)" using heap_invD(6) [OF inv] unfolding all .
  then show "hptr s p = hd (map fst ys @ [base s])" by (simp add: linked_append linked_Cons)
  show "free_place (hptr s) bp (freep s) = Some p"
  proof (rule free_place_found [OF l])
    show "sorted_wrt (<) (ws @ p # map fst ys)" using heap_sorted [OF inv] unfolding all .
    show "base s = hd (ws @ [p])" using arg_cong [OF ws, of hd] by simp
    have "\<forall>x\<in>set xs. 0 < snd x" using heap_invD(10) [OF inv] by (fastforce simp: block_def)
    then show "\<forall>w\<in>set (ws @ [p]). w < bp"
      unfolding ws [symmetric] using lo b heap_invD(2) [OF inv] by (fastforce simp: HDR_def)
    show "\<forall>v\<in>set (map fst ys). bp < v" using hi b by (auto simp: HDR_def)
    show "freep s \<in> set (ws @ p # map fst ys)" using heap_invD(7) [OF inv] unfolding all .
  qed
qed

lemma free_ok:
  assumes inv: "heap_inv low A fl s" and bp: "(bp, n) \<in> A"
  obtains fl' t where "free (bp + HDR) s = Some t" "heap_inv low (A - {(bp, n)}) fl' t"
    "brk t = brk s" "mem_limit t = mem_limit s" "base t = base s" "\<exists>x\<in>set fl'. n \<le> snd x"
proof -
  obtain xs ys where fl: "fl = xs @ ys" and lo: "\<forall>x\<in>set xs. ends x \<le> bp"
    and hi: "\<forall>y\<in>set ys. bp + HDR * n \<le> fst y" using heap_split [OF inv bp] .
  define p where "p = last (base s # map fst xs)"
  note inv' = inv [unfolded fl]
  have place: "free_place (hptr s) bp (freep s) = Some p" and hp: "hptr s p = hd (map fst ys @ [base s])"
    using free_finds_place [OF inv' bp lo hi] by (simp_all add: p_def)
  obtain zs k where nxt: "link_next bp p s =
      s\<lparr>hptr := (hptr s)(bp := hd (map fst zs @ [base s])), hsize := (hsize s)(bp := k)\<rparr>"
    and zs: "set zs \<subseteq> set ys" "sorted_wrt (\<lambda>x y. ends x < fst y) (xs @ zs)"
      "\<forall>z\<in>set zs. bp + HDR * k < fst z" "linked (hptr s) (map fst zs) (base s)"
    and k: "bp + HDR * k \<le> brk s" "n \<le> k" "\<forall>y\<in>A - {(bp, n)}. apart (bp, k) y"
    by (rule link_next_ok [OF inv bp fl hi hp])
  have free_eq: "free (bp + HDR) s = Some ((link_prev bp p (link_next bp p s))\<lparr>freep := p\<rparr>)"
    using place by (simp add: free_def)
  have b: "low \<le> bp" using heap_invD(10) [OF inv bp [THEN UnI2]] by (simp add: block_def)
  show thesis
  proof (cases "xs \<noteq> [] \<and> ends (last xs) = bp")
    case True
    then obtain us m where xs: "xs = us @ [(p, m)]" and pm: "p + HDR * m = bp"
      by (cases xs rule: rev_cases) (auto simp: p_def)
    have m: "hsize s p = m" "0 < m" "low \<le> p"
      using heap_invD(10) [OF inv', of "(p, m)"] xs by (auto simp: block_def)
    have pb: "p \<noteq> bp" using pm m by (auto simp: HDR_def)
    have "m + k < 2 ^ 32" using size_bound [OF inv m(3), of "m + k"] k(1) pm by (simp add: algebra_simps)
    then have "link_prev bp p (link_next bp p s) = s\<lparr>hptr := (hptr s)(bp := hd (map fst zs @ [base s]),
        p := hd (map fst zs @ [base s])), hsize := (hsize s)(bp := k, p := m + k)\<rparr>"
      unfolding nxt using pm m pb by (simp add: link_prev_def set_size_small set_ptr_def)
    with free_eq have "free (bp + HDR) s = Some (s\<lparr>hptr := (hptr s)(bp := hd (map fst zs @ [base s]),
        p := hd (map fst zs @ [base s])), hsize := (hsize s)(bp := k, p := m + k), freep := p\<rparr>)" by simp
    moreover have "heap_inv low (A - {(bp, n)}) (us @ (p, m + k) # zs) (s\<lparr>hptr := (hptr s)(bp := hd (map fst zs @ [base s]),
        p := hd (map fst zs @ [base s])), hsize := (hsize s)(bp := k, p := m + k), freep := p\<rparr>)"
      by (rule merge_block [OF _ bp zs(1) _ zs(3,4) k pm]) (use inv' zs(2) xs in simp_all)
    ultimately show thesis by (rule that) (use k in auto)
  next
    case False
    have srt: "sorted_wrt (\<lambda>x y. ends x < fst y) xs" using zs(2) by (simp add: sorted_wrt_append)
    have "\<forall>x\<in>set xs. ends x < bp"
      using False lo srt by (cases xs rule: rev_cases) (fastforce simp: sorted_wrt_append)+
    then have new: "heap_inv low (A - {(bp, n)}) (xs @ (bp, k) # zs)
      (s\<lparr>hptr := (hptr s)(bp := hd (map fst zs @ [base s]), p := bp), hsize := (hsize s)(bp := k), freep := p\<rparr>)"
      by (rule insert_block [OF inv' bp zs k _ p_def])
    have "p + HDR * hsize s p \<noteq> bp \<and> p \<noteq> bp"
    proof (cases xs rule: rev_cases)
      case Nil
      then show ?thesis using heap_invD(2,8) [OF inv] b by (auto simp: p_def)
    next
      case (snoc us x)
      then have "block low s x" using heap_invD(10) [OF inv', of x] by simp
      moreover have "ends x \<le> bp" "ends x \<noteq> bp" "p = fst x" using snoc lo False by (auto simp: p_def)
      ultimately show ?thesis by (auto simp: block_def HDR_def)
    qed
    then have "link_prev bp p (link_next bp p s) = s\<lparr>hptr := (hptr s)(bp := hd (map fst zs @ [base s]), p := bp),
        hsize := (hsize s)(bp := k)\<rparr>"
      unfolding nxt by (simp add: link_prev_def set_ptr_def)
    with free_eq have "free (bp + HDR) s = Some (s\<lparr>hptr := (hptr s)(bp := hd (map fst zs @ [base s]), p := bp),
        hsize := (hsize s)(bp := k), freep := p\<rparr>)" by simp
    from this new show thesis by (rule that) (use k in auto)
  qed
qed

section \<open>Allocating\<close>

definition grow_and_retry :: "nat \<Rightarrow> umem \<Rightarrow> (nat \<times> umem) option" where
  "grow_and_retry n s =
     Option.bind (morecore n s) (\<lambda>r.
     if fst r = 0 then Some (0, snd r) else malloc_loop n (fst r) (hptr (snd r) (fst r)) (snd r))"

lemma malloc_walk:
  assumes "linked (hptr s) (prevp # zs @ [f]) e" and "f = freep s" and "f \<notin> set zs"
  shows "(\<exists>q prv. q \<in> set (zs @ [f]) \<and> prv \<in> set (prevp # zs) \<and> hptr s prv = q \<and> n \<le> hsize s q \<and>
      malloc_loop n prevp (hd (zs @ [f])) s = Some (take_block n prv q s)) \<or>
    (\<forall>q\<in>set (zs @ [f]). hsize s q < n) \<and> malloc_loop n prevp (hd (zs @ [f])) s = grow_and_retry n s"
  using assms
proof (induction zs arbitrary: prevp)
  case Nil
  then show ?case
    by (subst (1 2) malloc_loop.simps) (auto simp: grow_and_retry_def)
next
  case (Cons z zs)
  have nxt: "hptr s z = hd (zs @ [f])" and pz: "hptr s prevp = z"
    using Cons.prems(1) by (cases zs; auto simp: linked_Cons)+
  have IH: "(\<exists>q prv. q \<in> set (zs @ [f]) \<and> prv \<in> set (z # zs) \<and> hptr s prv = q \<and> n \<le> hsize s q \<and>
      malloc_loop n z (hd (zs @ [f])) s = Some (take_block n prv q s)) \<or>
    (\<forall>q\<in>set (zs @ [f]). hsize s q < n) \<and> malloc_loop n z (hd (zs @ [f])) s = grow_and_retry n s"
    using Cons.prems by (intro Cons.IH) (auto simp: linked_Cons)
  show ?case
  proof (cases "n \<le> hsize s z")
    case True
    then have "malloc_loop n prevp z s = Some (take_block n prevp z s)" by (subst malloc_loop.simps) simp
    then show ?thesis using True pz by auto
  next
    case False
    then have "malloc_loop n prevp z s = malloc_loop n z (hd (zs @ [f])) s"
      using Cons.prems(2,3) nxt by (subst malloc_loop.simps) auto
    then show ?thesis using IH False by auto
  qed
qed

text \<open>One turn around the circle, starting behind \<open>freep\<close>.\<close>

lemma malloc_search:
  assumes inv: "heap_inv low A fl s" and n: "0 < n"
  shows "(\<exists>q prv m. (q, m) \<in> set fl \<and> prv \<in> set (base s # map fst fl) \<and> hptr s prv = q \<and> n \<le> m \<and>
      malloc_loop n (freep s) (hptr s (freep s)) s = Some (take_block n prv q s)) \<or>
    (\<forall>x\<in>set fl. snd x < n) \<and> malloc_loop n (freep s) (hptr s (freep s)) s = grow_and_retry n s"
proof -
  define f where "f = freep s"
  obtain as bs where ab: "base s # map fst fl = as @ f # bs"
    using heap_invD(7) [OF inv] unfolding f_def by (meson split_list)
  have l: "linked (hptr s) (as @ f # bs) (base s)" using heap_invD(6) [OF inv] unfolding ab .
  have b: "base s = hd (as @ [f])" using arg_cong [OF ab, of hd] by (cases as) auto
  have "linked (hptr s) (f # bs) (hd (as @ [f]))" and "linked (hptr s) (as @ [f]) (hptr s f)"
    using l b by (auto simp: linked_append)
  then have "linked (hptr s) (f # (bs @ as) @ [f]) (hptr s f)"
    using linked_append [of "hptr s" "f # bs" "hd (as @ [f])" "tl (as @ [f])" "hptr s f"] by (cases as) auto
  moreover have "f \<notin> set (bs @ as)"
    using heap_sorted [OF inv] unfolding ab by (auto simp: sorted_wrt_append)
  ultimately have walk: "(\<exists>q prv. q \<in> set ((bs @ as) @ [f]) \<and> prv \<in> set (f # bs @ as) \<and> hptr s prv = q \<and> n \<le> hsize s q \<and>
      malloc_loop n f (hd ((bs @ as) @ [f])) s = Some (take_block n prv q s)) \<or>
    (\<forall>q\<in>set ((bs @ as) @ [f]). hsize s q < n) \<and> malloc_loop n f (hd ((bs @ as) @ [f])) s = grow_and_retry n s"
    by (intro malloc_walk) (simp_all add: f_def)
  have hf: "hd ((bs @ as) @ [f]) = hptr s f"
    using l b by (cases bs; cases as) (auto simp: linked_append linked_Cons)
  have ring: "set ((bs @ as) @ [f]) = set (base s # map fst fl)" "set (f # bs @ as) = set (base s # map fst fl)"
    unfolding ab by auto
  have fit: "(q, hsize s q) \<in> set fl" if "q \<in> set (base s # map fst fl)" "n \<le> hsize s q" for q
    using that n heap_invD(8) [OF inv] heap_invD(10) [OF inv] by (fastforce simp: block_def)
  have sz: "snd x = hsize s (fst x)" if "x \<in> set fl" for x
    using heap_invD(10) [OF inv, of x] that by (simp add: block_def)
  from walk [unfolded hf ring, unfolded f_def] show ?thesis
  proof (elim disjE exE conjE)
    fix q prv assume q: "q \<in> set (base s # map fst fl)" "n \<le> hsize s q" and *: "prv \<in> set (base s # map fst fl)" "hptr s prv = q"
      "malloc_loop n (freep s) (hptr s (freep s)) s = Some (take_block n prv q s)"
    then show ?thesis using fit [OF q] by blast
  next
    assume "\<forall>q\<in>set (base s # map fst fl). hsize s q < n" "malloc_loop n (freep s) (hptr s (freep s)) s = grow_and_retry n s"
    then show ?thesis using sz by auto
  qed
qed

lemma linked_into: "linked h (x # ys) e \<Longrightarrow> z \<in> set (x # ys) \<Longrightarrow> h z \<in> insert e (set ys)"
proof (induction ys arbitrary: x)
  case (Cons y ys)
  then show ?case using Cons.IH [of y] by auto
qed simp

lemma linked_pred:
  assumes "linked h (xs @ q # ys) e" and "distinct (xs @ q # ys)" and "e \<noteq> q"
    and "x \<in> set (xs @ q # ys)" and "h x = q"
  shows "xs \<noteq> [] \<and> x = last xs"
proof -
  have ys: "h z \<in> insert e (set ys)" if "z \<in> set (q # ys)" for z
    using assms(1) that linked_into [of h q ys e z] by (simp add: linked_append)
  have x: "x \<in> set xs" using ys [of x] assms by auto
  then obtain us vs where xs: "xs = us @ x # vs" by (meson split_list)
  have "linked h (x # vs) q"
    using assms(1) xs linked_append [of h "x # vs" q ys e] by (simp add: linked_append)
  then have "vs = [] \<or> h x \<in> set vs" by (cases vs) auto
  then show ?thesis using xs assms(2,5) by auto
qed

lemma take_exact:
  assumes inv: "heap_inv low A (xs @ (q, n) # ys) s" and prv: "prv \<in> set (base s # map fst (xs @ (q, n) # ys))" "hptr s prv = q"
  shows "heap_inv low (insert (q, n) A) (xs @ ys) (s\<lparr>hptr := (hptr s)(prv := hptr s q), freep := prv\<rparr>)"
proof -
  let ?t = "s\<lparr>hptr := (hptr s)(prv := hptr s q), freep := prv\<rparr>"
  note l = heap_invD(6) [OF inv] and srt = heap_sorted [OF inv] and s2 = heap_invD(9) [OF inv]
  have q: "block low s (q, n)" using heap_invD(10) [OF inv] by simp
  then have bq: "base s \<noteq> q" using heap_invD(2) [OF inv] by (auto simp: block_def)
  have l': "linked (hptr s) ((base s # map fst xs) @ q # map fst ys) (base s)" using l by simp
  have srt': "sorted_wrt (<) ((base s # map fst xs) @ q # map fst ys)" using srt by simp
  then have "distinct ((base s # map fst xs) @ q # map fst ys)" by (simp only: strict_sorted_iff)
  from linked_pred [OF l' this bq] prv have p: "prv = last (base s # map fst xs)" by auto
  obtain ws where ws: "base s # map fst xs = ws @ [prv]"
    using p append_butlast_last_id [of "base s # map fst xs"] by (metis list.distinct(1))
  have "prv \<notin> set ws" "prv \<notin> set (map fst ys)" using srt' unfolding ws by (auto simp: sorted_wrt_append)
  moreover have "linked (hptr s) ws prv" "linked (hptr s) (map fst ys) (base s)" "hptr s q = hd (map fst ys @ [base s])"
    using l' unfolding ws by (auto simp: linked_append linked_Cons)
  ultimately have "linked (hptr ?t) (ws @ prv # map fst ys) (base s)"
    by (simp add: linked_append linked_Cons linked_upd)
  moreover have "base s # map fst (xs @ ys) = ws @ prv # map fst ys"
    using arg_cong [OF ws, of "\<lambda>l. l @ map fst ys"] by simp
  ultimately have link: "linked (hptr ?t) (base s # map fst (xs @ ys)) (base s)" by (simp only:)
  have pin: "prv \<in> set (base s # map fst xs)" unfolding ws by simp
  show ?thesis
    unfolding heap_inv_def
  proof (intro conjI)
    show "linked (hptr ?t) (base ?t # map fst (xs @ ys)) (base ?t)" using link by simp
    show "freep ?t \<in> set (base ?t # map fst (xs @ ys))" using pin by auto
    show "\<forall>x\<in>set (xs @ ys) \<union> insert (q, n) A. block low ?t x"
      using heap_invD(10) [OF inv] by (simp add: block_def)
    have "apart x (q, n)" if "x \<in> set (xs @ ys)" for x
      using s2 that by (auto simp: sorted_wrt_append apart_def)
    then show "\<forall>x\<in>set (xs @ ys). \<forall>y\<in>insert (q, n) A. apart x y" using heap_invD(11) [OF inv] by auto
    show "\<forall>x\<in>insert (q, n) A. \<forall>y\<in>insert (q, n) A. x \<noteq> y \<longrightarrow> apart x y"
      using heap_invD(11) [OF inv, of "(q, n)"] heap_invD(12) [OF inv] by (auto simp: apart_def)
  qed (use s2 heap_invD(1-5,8) [OF inv] in \<open>simp_all add: sorted_wrt_append\<close>)
qed

lemma take_tail:
  assumes inv: "heap_inv low A (xs @ (q, m) # ys) s" and n: "0 < n" "n < m"
    and prv: "prv \<in> set (base s # map fst (xs @ (q, m) # ys))"
  defines "a \<equiv> q + HDR * (m - n)"
  shows "heap_inv low (insert (a, n) A) (xs @ (q, m - n) # ys)
    (s\<lparr>hsize := (hsize s)(q := m - n, a := n), freep := prv\<rparr>)"
proof -
  let ?t = "s\<lparr>hsize := (hsize s)(q := m - n, a := n), freep := prv\<rparr>"
  note s2 = heap_invD(9) [OF inv]
  have q: "block low s (q, m)" using heap_invD(10) [OF inv] by simp
  have qa: "q < a" "a + HDR * n = q + HDR * m" using n by (auto simp: a_def HDR_def)
  have ba: "base s < q" using q heap_invD(2) [OF inv] by (auto simp: block_def)
  have apx: "apart x (a, n) \<and> apart x (q, m - n) \<and> fst x \<noteq> q \<and> fst x \<noteq> a"
    if "apart (q, m) x" "0 < snd x" for x
    using that n qa by (auto simp: apart_def a_def HDR_def)
  have other: "apart (q, m) x \<and> 0 < snd x" if "x \<in> set (xs @ ys) \<union> A" for x
    using that s2 heap_invD(11) [OF inv, of "(q, m)" x] heap_invD(10) [OF inv, of x]
    by (auto simp: sorted_wrt_append apart_def block_def)
  show ?thesis
    unfolding heap_inv_def
  proof (intro conjI)
    show "\<forall>x\<in>set (xs @ (q, m - n) # ys) \<union> insert (a, n) A. block low ?t x"
    proof
      fix x assume "x \<in> set (xs @ (q, m - n) # ys) \<union> insert (a, n) A"
      then consider "x = (q, m - n)" | "x = (a, n)" | "x \<in> set (xs @ ys) \<union> A" by auto
      then show "block low ?t x"
      proof cases
        case 3
        then have "block low s x" using heap_invD(10) [OF inv, of x] by auto
        then show ?thesis using apx [of x] other [OF 3] by (simp add: block_def)
      qed (use q n qa in \<open>auto simp: block_def HDR_def a_def\<close>)
    qed
    show "\<forall>x\<in>set (xs @ (q, m - n) # ys). \<forall>y\<in>insert (a, n) A. apart x y"
    proof (intro ballI)
      fix x y assume x: "x \<in> set (xs @ (q, m - n) # ys)" and y: "y \<in> insert (a, n) A"
      consider "x = (q, m - n)" "y = (a, n)" | "x = (q, m - n)" "y \<in> A" | "x \<in> set (xs @ ys)" "y = (a, n)"
        | "x \<in> set (xs @ ys)" "y \<in> A" using x y by auto
      then show "apart x y"
      proof cases
        case 1
        then show ?thesis by (simp add: apart_def a_def)
      next
        case 2
        then have "apart y (q, m - n)" using apx [of y] other [of y] by simp
        then show ?thesis unfolding 2 by (rule apart_sym)
      next
        case 3
        then show ?thesis using apx [of x] other [of x] by simp
      next
        case 4
        then show ?thesis using heap_invD(11) [OF inv, of x y] by auto
      qed
    qed
    show "\<forall>x\<in>insert (a, n) A. \<forall>y\<in>insert (a, n) A. x \<noteq> y \<longrightarrow> apart x y"
    proof (intro ballI impI)
      fix x y assume x: "x \<in> insert (a, n) A" and y: "y \<in> insert (a, n) A" and "x \<noteq> y"
      then consider "x = (a, n)" "y \<in> A" | "x \<in> A" "y = (a, n)" | "x \<in> A" "y \<in> A" by auto
      then show "apart x y"
      proof cases
        case 1
        then have "apart y (a, n)" using apx [of y] other [of y] by simp
        then show ?thesis unfolding 1 by (rule apart_sym)
      next
        case 2
        then show ?thesis using apx [of x] other [of x] by simp
      next
        case 3
        then show ?thesis using heap_invD(12) [OF inv] \<open>x \<noteq> y\<close> by simp
      qed
    qed
    show "sorted_wrt (\<lambda>x y. ends x < fst y) (xs @ (q, m - n) # ys)"
      using s2 n by (fastforce simp: sorted_wrt_append HDR_def)
    show "hsize ?t (base ?t) = 0" using heap_invD(8) [OF inv] ba qa by auto
  qed (use prv heap_invD(1-6) [OF inv] in simp_all)
qed

lemma take_block_ok:
  assumes inv: "heap_inv low A fl s" and q: "(q, m) \<in> set fl" and n: "0 < n" "n \<le> m"
    and prv: "prv \<in> set (base s # map fst fl)" "hptr s prv = q"
  obtains a t fl' where "take_block n prv q s = (a + HDR, t)" "heap_inv low (insert (a, n) A) fl' t"
    "\<forall>x\<in>A. apart x (a, n)" "low \<le> a"
proof -
  obtain xs ys where fl: "fl = xs @ (q, m) # ys" using q by (meson split_list)
  note inv' = inv [unfolded fl]
  have blk: "block low s (q, m)" using heap_invD(10) [OF inv] q by blast
  have far: "apart (q, m) x" if "x \<in> A" for x using heap_invD(11) [OF inv q that] .
  show thesis
  proof (cases "n = m")
    case True
    show thesis
    proof (rule that)
      show "take_block n prv q s = (q + HDR, s\<lparr>hptr := (hptr s)(prv := hptr s q), freep := prv\<rparr>)"
        using True blk by (simp add: take_block_def block_def set_ptr_def)
      show "heap_inv low (insert (q, n) A) (xs @ ys) (s\<lparr>hptr := (hptr s)(prv := hptr s q), freep := prv\<rparr>)"
        using take_exact [OF inv' _ prv(2)] prv(1) fl True by simp
      show "\<forall>x\<in>A. apart x (q, n)" using far True by (auto intro: apart_sym)
      show "low \<le> q" using blk by (simp add: block_def)
    qed
  next
    case False
    let ?a = "q + HDR * (m - n)"
    let ?t = "s\<lparr>hsize := (hsize s)(q := m - n, ?a := n), freep := prv\<rparr>"
    have small: "m < 2 ^ 32" using size_bound [OF inv, of q m] blk by (simp add: block_def)
    show thesis
    proof (rule that)
      show "take_block n prv q s = (?a + HDR, ?t)"
        using False n small blk by (simp add: take_block_def Let_def block_def set_size_def)
      show "heap_inv low (insert (?a, n) A) (xs @ (q, m - n) # ys) ?t"
        using take_tail [OF inv' n(1) _ prv(1) [unfolded fl]] False n by simp
      show "\<forall>x\<in>A. apart x (?a, n)" using far n False by (fastforce simp: apart_def HDR_def)
      show "low \<le> ?a" using blk by (simp add: block_def)
    qed
  qed
qed

text \<open>The result of an allocation of \<open>n\<close> units: 0 and an unchanged heap, or a new block.\<close>

definition malloc_result :: "nat \<Rightarrow> (nat \<times> nat) set \<Rightarrow> nat \<Rightarrow> umem \<Rightarrow> nat \<Rightarrow> umem \<Rightarrow> bool" where
  "malloc_result low A n s r t \<longleftrightarrow>
     (if r = 0 then brk s + HDR * max n 4096 > mem_limit s \<and> (\<exists>fl. heap_inv low A fl t)
      else low + HDR \<le> r \<and> (\<forall>x\<in>A. apart x (r - HDR, n)) \<and> (\<exists>fl. heap_inv low (insert (r - HDR, n) A) fl t))"

lemma malloc_loop_fits:
  assumes inv: "heap_inv low A fl s" and n: "0 < n" and fit: "\<exists>x\<in>set fl. n \<le> snd x"
  shows "\<exists>r t. malloc_loop n (freep s) (hptr s (freep s)) s = Some (r, t) \<and> malloc_result low A n u r t"
proof -
  have "\<not> (\<forall>x\<in>set fl. snd x < n)" using fit by force
  then obtain q prv m where *: "(q, m) \<in> set fl" "prv \<in> set (base s # map fst fl)" "hptr s prv = q" "n \<le> m"
      "malloc_loop n (freep s) (hptr s (freep s)) s = Some (take_block n prv q s)"
    using malloc_search [OF inv n] by blast
  obtain a t fl' where "take_block n prv q s = (a + HDR, t)" "heap_inv low (insert (a, n) A) fl' t"
    "\<forall>x\<in>A. apart x (a, n)" "low \<le> a"
    by (rule take_block_ok [OF inv *(1) n *(4,2,3)])
  with * show ?thesis by (auto simp: malloc_result_def HDR_def)
qed

lemma sbrk_int:
  "sbrk (int k) s = (if brk s + k \<le> mem_limit s then Some (brk s, s\<lparr>brk := brk s + k\<rparr>) else None)"
  by (simp add: sbrk_def)

lemma grow_heap:
  assumes inv: "heap_inv low A fl s" and k: "0 < k" "brk s + HDR * k \<le> mem_limit s"
  shows "heap_inv low (insert (brk s, k) A) fl (s\<lparr>hsize := (hsize s)(brk s := k), brk := brk s + HDR * k\<rparr>)"
proof -
  let ?t = "s\<lparr>hsize := (hsize s)(brk s := k), brk := brk s + HDR * k\<rparr>"
  have old: "block low ?t x \<and> apart x (brk s, k)" if "x \<in> set fl \<union> A" for x
    using heap_invD(10) [OF inv that] by (auto simp: block_def apart_def HDR_def)
  show ?thesis
    unfolding heap_inv_def
  proof (intro conjI)
    show "\<forall>x\<in>set fl \<union> insert (brk s, k) A. block low ?t x"
      using old k heap_invD(3) [OF inv] by (auto simp: block_def)
    show "\<forall>x\<in>set fl. \<forall>y\<in>insert (brk s, k) A. apart x y"
      using old heap_invD(11) [OF inv] by auto
    show "\<forall>x\<in>insert (brk s, k) A. \<forall>y\<in>insert (brk s, k) A. x \<noteq> y \<longrightarrow> apart x y"
    proof (intro ballI impI)
      fix x y assume "x \<in> insert (brk s, k) A" "y \<in> insert (brk s, k) A" "x \<noteq> y"
      then consider "x = (brk s, k)" "y \<in> A" | "x \<in> A" "y = (brk s, k)" | "x \<in> A" "y \<in> A" by auto
      then show "apart x y"
        by cases (use old apart_sym heap_invD(12) [OF inv] \<open>x \<noteq> y\<close> in auto)
    qed
    show "hsize ?t (base ?t) = 0" using heap_invD(2,3,8) [OF inv] by auto
  qed (use heap_invD(1-7,9) [OF inv] k in simp_all)
qed

lemma grow_ok:
  assumes inv: "heap_inv low A fl s" and n: "0 < n" "HDR * n < 2 ^ 31"
  shows "\<exists>r t. grow_and_retry n s = Some (r, t) \<and> malloc_result low A n s r t"
proof -
  let ?nu = "max n 4096"
  have nu: "(if n < 4096 then 4096 else n) = ?nu" by (simp add: max_def)
  have i32: "to_int32 (?nu * HDR) = int (HDR * ?nu)" using n by (simp add: to_int32_def HDR_def max_def)
  have small: "?nu < 2 ^ 32" using n by (auto simp: HDR_def)
  show ?thesis
  proof (cases "brk s + HDR * ?nu \<le> mem_limit s")
    case False
    then have "sbrk (to_int32 (?nu * HDR)) s = None" unfolding i32 sbrk_int by simp
    then have "grow_and_retry n s = Some (0, s)"
      by (simp add: grow_and_retry_def morecore_def nu Let_def)
    then show ?thesis using False inv by (auto simp: malloc_result_def)
  next
    case True
    let ?t = "s\<lparr>hsize := (hsize s)(brk s := ?nu), brk := brk s + HDR * ?nu\<rparr>"
    have sb: "sbrk (to_int32 (?nu * HDR)) s = Some (brk s, s\<lparr>brk := brk s + HDR * ?nu\<rparr>)"
      unfolding i32 sbrk_int using True by simp
    have set: "set_size (brk s) ?nu (s\<lparr>brk := brk s + HDR * ?nu\<rparr>) = ?t"
      using small by (simp add: set_size_def)
    have inv2: "heap_inv low (insert (brk s, ?nu) A) fl ?t" by (rule grow_heap [OF inv _ True]) simp
    obtain fl' u where u: "free (brk s + HDR) ?t = Some u"
        "heap_inv low (insert (brk s, ?nu) A - {(brk s, ?nu)}) fl' u" "\<exists>x\<in>set fl'. ?nu \<le> snd x"
      by (rule free_ok [OF inv2, of "brk s" ?nu]) auto
    have "(brk s, ?nu) \<notin> A" using heap_invD(10) [OF inv, of "(brk s, ?nu)"] by (auto simp: block_def HDR_def)
    with u(2) have inv3: "heap_inv low A fl' u" by simp
    have "freep u \<noteq> 0" using heap_invD(1,2,7) [OF inv3] heap_invD(10) [OF inv3] by (fastforce simp: block_def)
    moreover have "morecore n s = Some (freep u, u)"
      using u(1) sb set by (simp add: morecore_def nu Let_def)
    ultimately have "grow_and_retry n s = malloc_loop n (freep u) (hptr u (freep u)) u"
      by (simp add: grow_and_retry_def)
    moreover have "\<exists>x\<in>set fl'. n \<le> snd x" using u(3) by auto
    ultimately show ?thesis using malloc_loop_fits [OF inv3 n(1)] by auto
  qed
qed

section \<open>Programs that allocate\<close>

text \<open>
  The interface of an allocator of blocks behind headers, and a client: any sequence of allocations and
  releases of blocks that are in use, named by their position in the list of these blocks.
\<close>

locale heap_allocator =
  fixes alloc :: "'n \<Rightarrow> 's \<Rightarrow> (nat \<times> 's) option" and dealloc :: "nat \<Rightarrow> 's \<Rightarrow> 's option"
    and units :: "'n \<Rightarrow> nat" and small :: "'n \<Rightarrow> bool" and inv :: "(nat \<times> nat) set \<Rightarrow> 's \<Rightarrow> bool"
  assumes separate: "inv A s \<Longrightarrow> x \<in> A \<Longrightarrow> y \<in> A \<Longrightarrow> x \<noteq> y \<Longrightarrow> apart x y"
    and units_pos: "0 < units n"
    and alloc_ok: "inv A s \<Longrightarrow> small n \<Longrightarrow> \<exists>r t. alloc n s = Some (r, t) \<and>
      (if r = 0 then inv A t else (\<forall>x\<in>A. apart x (r - HDR, units n)) \<and> inv (insert (r - HDR, units n) A) t)"
    and dealloc_ok: "inv A s \<Longrightarrow> x \<in> A \<Longrightarrow> \<exists>t. dealloc (fst x + HDR) s = Some t \<and> inv (A - {x}) t"

datatype 'n request = Alloc 'n | Release nat

definition without :: "nat \<Rightarrow> 'a list \<Rightarrow> 'a list" where
  "without i xs = take i xs @ drop (Suc i) xs"

primrec heap_run :: "('n \<Rightarrow> 's \<Rightarrow> (nat \<times> 's) option) \<Rightarrow> (nat \<Rightarrow> 's \<Rightarrow> 's option) \<Rightarrow> ('n \<Rightarrow> nat) \<Rightarrow>
    'n request list \<Rightarrow> (nat \<times> nat) list \<Rightarrow> 's \<Rightarrow> ((nat \<times> nat) list \<times> 's) option" where
  "heap_run alloc dealloc units [] live s = Some (live, s)"
| "heap_run alloc dealloc units (c # cs) live s =
     (case c of
        Alloc n \<Rightarrow> Option.bind (alloc n s) (\<lambda>(r, t).
          heap_run alloc dealloc units cs (if r = 0 then live else (r - HDR, units n) # live) t)
      | Release i \<Rightarrow>
          (if i < length live then
             Option.bind (dealloc (fst (live ! i) + HDR) s) (heap_run alloc dealloc units cs (without i live))
           else heap_run alloc dealloc units cs live s))"

lemma set_without: "distinct xs \<Longrightarrow> i < length xs \<Longrightarrow> set (without i xs) = set xs - {xs ! i} \<and> distinct (without i xs)"
proof -
  assume d: "distinct xs" and i: "i < length xs"
  define ys x zs where "ys = take i xs" and "x = xs ! i" and "zs = drop (Suc i) xs"
  have xs: "xs = ys @ x # zs" using id_take_nth_drop [OF i] by (simp add: ys_def x_def zs_def)
  have "without i xs = ys @ zs" by (simp add: without_def ys_def zs_def)
  moreover have "xs ! i = x" by (simp add: x_def)
  ultimately show ?thesis using d unfolding xs by auto
qed

definition small_requests :: "('n \<Rightarrow> bool) \<Rightarrow> 'n request list \<Rightarrow> bool" where
  "small_requests small cs \<longleftrightarrow> (\<forall>n. Alloc n \<in> set cs \<longrightarrow> small n)"

context heap_allocator
begin

lemma run_ok:
  assumes "inv (set live) s" and "distinct live" and "small_requests small cs"
  shows "\<exists>live' t. heap_run alloc dealloc units cs live s = Some (live', t) \<and> distinct live' \<and> inv (set live') t"
  using assms
proof (induction cs arbitrary: live s)
  case (Cons c cs)
  note IH = Cons.IH and sm = Cons.prems(3)
  have rest: "small_requests small cs" using sm by (simp add: small_requests_def)
  show ?case
  proof (cases c)
    case (Alloc n)
    obtain r t where rt: "alloc n s = Some (r, t)" and
      ok: "if r = 0 then inv (set live) t else (\<forall>x\<in>set live. apart x (r - HDR, units n)) \<and>
        inv (insert (r - HDR, units n) (set live)) t"
      using alloc_ok [OF Cons.prems(1), of n] sm Alloc by (auto simp: small_requests_def)
    have "distinct (if r = 0 then live else (r - HDR, units n) # live)"
      using ok Cons.prems(2) units_pos [of n] by (force simp: apart_def HDR_def)
    moreover have "inv (set (if r = 0 then live else (r - HDR, units n) # live)) t" using ok by auto
    ultimately show ?thesis using IH rest rt Alloc by simp
  next
    case (Release i)
    show ?thesis
    proof (cases "i < length live")
      case True
      obtain t where t: "dealloc (fst (live ! i) + HDR) s = Some t" "inv (set live - {live ! i}) t"
        using dealloc_ok [OF Cons.prems(1), of "live ! i"] True by auto
      then show ?thesis
        using IH [of "without i live" t] rest True Release set_without [OF Cons.prems(2) True] by simp
    qed (use Cons Release rest in simp)
  qed
qed simp

lemma run_separate:
  assumes "inv {} s" and "small_requests small cs"
  shows "\<exists>live t. heap_run alloc dealloc units cs [] s = Some (live, t) \<and> inv (set live) t \<and>
    (\<forall>i<length live. \<forall>j<length live. i \<noteq> j \<longrightarrow> apart (live ! i) (live ! j))"
proof -
  obtain live t where *: "heap_run alloc dealloc units cs [] s = Some (live, t)" "distinct live" "inv (set live) t"
    using run_ok [of "[]" s cs] assms by auto
  have "apart (live ! i) (live ! j)" if "i < length live" "j < length live" "i \<noteq> j" for i j
    using separate [OF *(3), of "live ! i" "live ! j"] that *(2) by (simp add: nth_eq_iff_index_eq)
  with * show ?thesis by blast
qed

end

text \<open>The heap before and after the first call of \<open>malloc\<close>.\<close>

definition fresh_heap :: "nat \<Rightarrow> umem \<Rightarrow> bool" where
  "fresh_heap low s \<longleftrightarrow> freep s = 0 \<and> 0 < base s \<and> base s < low \<and> low \<le> brk s \<and> brk s \<le> mem_limit s \<and> mem_limit s \<le> 2 ^ 36"

definition uheap :: "nat \<Rightarrow> (nat \<times> nat) set \<Rightarrow> umem \<Rightarrow> bool" where
  "uheap low A s \<longleftrightarrow> (\<exists>fl. heap_inv low A fl s) \<or> A = {} \<and> fresh_heap low s"

text \<open>Requests whose size in bytes fits in an \<open>int\<close>.\<close>

definition fits_int :: "uint \<Rightarrow> bool" where
  "fits_int nbytes \<longleftrightarrow> unat nbytes + 2 * HDR \<le> 2 ^ 31"

lemma units_for_pos: "0 < units_for n"
  by (simp add: units_for_def)

lemma units_for_small: "fits_int n \<Longrightarrow> HDR * units_for n < 2 ^ 31"
  unfolding fits_int_def units_for_def HDR_def by simp

lemma malloc_init:
  assumes "uheap low A s"
  defines "t \<equiv> (if freep s = 0 then (set_size (base s) 0 (set_ptr (base s) (base s) s))\<lparr>freep := base s\<rparr> else s)"
  shows "(\<exists>fl. heap_inv low A fl t) \<and> brk t = brk s \<and> mem_limit t = mem_limit s"
proof (cases "fresh_heap low s \<and> A = {}")
  case True
  then have "heap_inv low A [] t" by (simp add: t_def fresh_heap_def heap_inv_def set_size_def set_ptr_def)
  then show ?thesis by (auto simp: t_def set_size_def set_ptr_def)
next
  case False
  then obtain fl where inv: "heap_inv low A fl s" using assms(1) by (auto simp: uheap_def)
  have "freep s \<noteq> 0" using heap_invD(1,2,7) [OF inv] heap_invD(10) [OF inv] by (fastforce simp: block_def)
  then show ?thesis using inv by (auto simp: t_def)
qed

lemma malloc_spec:
  assumes "uheap low A s" and "fits_int nbytes"
  shows "\<exists>r t. malloc nbytes s = Some (r, t) \<and> malloc_result low A (units_for nbytes) s r t"
proof -
  let ?t = "if freep s = 0 then (set_size (base s) 0 (set_ptr (base s) (base s) s))\<lparr>freep := base s\<rparr> else s"
  let ?n = "units_for nbytes"
  obtain fl where inv: "heap_inv low A fl ?t" and eq: "brk ?t = brk s" "mem_limit ?t = mem_limit s"
    using malloc_init [OF assms(1)] by blast
  have m: "malloc nbytes s = malloc_loop ?n (freep ?t) (hptr ?t (freep ?t)) ?t"
    by (simp only: malloc_def Let_def)
  show ?thesis
  proof (cases "\<exists>x\<in>set fl. ?n \<le> snd x")
    case True
    then show ?thesis unfolding m using malloc_loop_fits [OF inv units_for_pos] by blast
  next
    case False
    then have "malloc nbytes s = grow_and_retry ?n ?t"
      unfolding m using malloc_search [OF inv units_for_pos, of nbytes] by force
    moreover have "malloc_result low A ?n ?t r t = malloc_result low A ?n s r t" for r t
      by (simp only: malloc_result_def eq)
    ultimately show ?thesis using grow_ok [OF inv units_for_pos units_for_small [OF assms(2)]] by simp
  qed
qed

interpretation umalloc: heap_allocator malloc free units_for fits_int "uheap low"
proof
  fix A s x y assume "uheap low A s" "x \<in> A" "y \<in> A" "x \<noteq> y"
  then obtain fl where "heap_inv low A fl s" by (auto simp: uheap_def)
  then show "apart x y" by (rule heap_invD(12)) fact+
next
  show "0 < units_for n" for n by (rule units_for_pos)
next
  fix A s n assume "uheap low A s" "fits_int n"
  then obtain r t where *: "malloc n s = Some (r, t)" "malloc_result low A (units_for n) s r t"
    using malloc_spec by blast
  then show "\<exists>r t. malloc n s = Some (r, t) \<and> (if r = 0 then uheap low A t else
      (\<forall>x\<in>A. apart x (r - HDR, units_for n)) \<and> uheap low (insert (r - HDR, units_for n) A) t)"
    by (auto simp: malloc_result_def uheap_def split: if_splits)
next
  fix A s x assume "uheap low A s" "x \<in> A"
  then obtain fl where "heap_inv low A fl s" by (auto simp: uheap_def)
  then obtain fl' t where "free (fst x + HDR) s = Some t" "heap_inv low (A - {x}) fl' t"
    using free_ok [of low A fl s "fst x" "snd x"] \<open>x \<in> A\<close> by (metis prod.collapse)
  then show "\<exists>t. free (fst x + HDR) s = Some t \<and> uheap low (A - {x}) t" by (auto simp: uheap_def)
qed

definition uheap0 :: umem where
  "uheap0 = \<lparr>base = 0x1000, hptr = (\<lambda>_. 0), hsize = (\<lambda>_. 0), freep = 0, brk = 0x4000, mem_limit = 0x8000000\<rparr>"

lemma uheap_uheap0: "uheap 0x4000 {} uheap0"
  by (simp add: uheap_def fresh_heap_def uheap0_def)



text \<open>C33: Any program that only allocates (requests that fit in an \<open>int\<close>) and frees blocks it holds runs to its
  end, every call returning, and the blocks it holds at the end do not overlap; the next calls find an intact
  heap again.\<close>

theorem malloc_free_programs:
  assumes "uheap low {} s" and "small_requests fits_int cs"
  shows "\<exists>live t. heap_run malloc free units_for cs [] s = Some (live, t) \<and> uheap low (set live) t \<and>
    (\<forall>i<length live. \<forall>j<length live. i \<noteq> j \<longrightarrow> apart (live ! i) (live ! j))"
  using assms by (rule umalloc.run_separate)

theorem malloc_free_programs_witness:
  "\<exists>live t. heap_run malloc free units_for [Alloc 100, Alloc 5000, Release 1, Alloc 20] [] uheap0 = Some (live, t) \<and>
    uheap 0x4000 (set live) t \<and> (\<forall>i<length live. \<forall>j<length live. i \<noteq> j \<longrightarrow> apart (live ! i) (live ! j))"
proof -
  have "small_requests fits_int [Alloc 100, Alloc 5000, Release 1, Alloc 20]"
    by (auto simp: small_requests_def fits_int_def HDR_def)
  from malloc_free_programs [OF uheap_uheap0 this] show ?thesis .
qed



end
