(* ===== verification/Spec2Isabelle.thy ===== *)
theory Spec2Isabelle
  imports Tables Grep Umalloc
begin

text \<open>
  A verification library for xv6 on RISC-V, a small Unix-like operating system in C: the kernel under
  \<open>src/kernel\<close> and user programs under \<open>src/user\<close>.

  \<^bold>\<open>The program.\<close> Each hart starts in \<open>start.c\<close> and \<open>main.c\<close>, which set up the devices and the first
  process, and ends in the scheduler of \<open>proc.c\<close>. A process runs user code until a trap (\<open>trap.c\<close>) brings it
  into the kernel: a system call (\<open>syscall.c\<close>, \<open>sysproc.c\<close>, \<open>sysfile.c\<close>), a page fault on memory that is
  allocated lazily (\<open>vm.c\<close>), or a device interrupt (\<open>uart.c\<close>, \<open>console.c\<close>, \<open>virtio_disk.c\<close>, \<open>plic.c\<close>). Files
  are reached through layers: open files and pipes (\<open>file.c\<close>, \<open>pipe.c\<close>), paths, directories and inodes
  (\<open>fs.c\<close>), the write-ahead log (\<open>log.c\<close>), the buffer cache (\<open>bio.c\<close>) and the disk driver. Memory comes from the
  page allocator (\<open>kalloc.c\<close>) and is mapped by page tables (\<open>vm.c\<close>). Everything is protected by spin locks
  (\<open>spinlock.c\<close>), which disable interrupts, and sleep locks (\<open>sleeplock.c\<close>).

  \<^bold>\<open>The model.\<close> A C function that touches kernel state is a value of the monad \<open>('s, 'a) kern\<close> of the theory
  Prelude: a function from the state to \<open>Done value state\<close> or \<open>Stop reason state\<close>, where the reason is a
  panic, a switch to the scheduler, spinning on a lock held by another hart, following an invalid pointer, or a
  loop without end. Error returns of the source (-1, null) are values. The state is one record that grows
  with the layers, \<open>mach\<close>, \<open>sched\<close>, \<open>kmem\<close>, \<open>kvm\<close>, \<open>uart\<close>, \<open>cons\<close>, \<open>bio\<close>, \<open>logst\<close>, \<open>fsst\<close>, \<open>pipest\<close>, \<open>filest\<close>, \<open>procst\<close>,
  \<open>virtio\<close>, \<open>trapst\<close>, in this order; every operation is polymorphic in the later fields. Machine integers are
  words of their width; pointers to table entries are indices; physical memory is a function from 64-bit
  addresses to bytes, so page tables, trapframes and the free list of pages are bytes in it. A thread that
  sleeps leaves with \<open>Swtch\<close>; loops around \<open>sleep\<close> are definitions of their own (named \<open>..._loop\<close>), which the
  thread enters again after \<open>sleep_resume\<close>. Harts interleave by changing \<open>tp\<close> between calls.

  \<^bold>\<open>Theories, in the order of the layers.\<close>
  \<^item> Prelude: the monad, weakest preconditions, compile-time parameters (\<open>param.h\<close>), names of locks and channels.
  \<^item> Spinlock, Riscv: \<open>struct cpu\<close>, interrupt control, \<open>push_off\<close>, \<open>acquire\<close>, \<open>release\<close>, the registers of
    \<open>riscv.h\<close>. Mutual exclusion in every interleaving, interrupts off while a lock is held, all outcomes.
  \<^item> Sched: the process table, \<open>sched\<close>, \<open>sleep\<close>, \<open>wakeup\<close>, \<open>kkill\<close>, \<open>reparent\<close>, sleep locks. A process runs on one
    CPU at a time; wakeups are not lost; sleep locks implement their protocol.
  \<^item> Bytes, Kstring: words as bytes, \<open>string.c\<close>, with \<open>memmove\<close> equal to a simultaneous copy.
  \<^item> Kalloc: the free list of pages refines a set of pages (locale \<open>page_allocator\<close>, interpreted on \<open>kalloc\<close> and
    \<open>kfree\<close>); \<open>kinit\<close> frees all memory.
  \<^item> Vm, Pagetable: all of \<open>vm.c\<close>; \<open>mappages\<close> installs exactly the requested translations, and \<open>copyin\<close> reads back
    what \<open>copyout\<close> stored.
  \<^item> Ring: ring buffers with free-running counters (locale \<open>ring\<close>, interpreted for the console and for pipes).
  \<^item> Printf, Console: \<open>uart.c\<close>, \<open>printf.c\<close>, \<open>console.c\<close>; numbers are printed correctly, \<open>panic\<close> halts, and the
    interrupt handler refines a line editor on two lists.
  \<^item> Block, Bio, Log: the on-disk format (\<open>fs.h\<close>), the buffer cache and the log. The cache is transparent, a
    commit is atomic with respect to a crash after any disk write, recovery restores the disk, and a full log
    runs out of buffers.
  \<^item> Fs: \<open>fs.c\<close>.
  \<^item> Frame: which invariants the layers up to \<open>fs.c\<close> keep. An invariant that satisfies the locale \<open>kernel_inv\<close> is
    kept by every operation below, whichever way the operation ends.
  \<^item> Pipe, File: \<open>pipe.c\<close> and \<open>file.c\<close>. Writing and reading a pipe refine a bounded queue, across the wrap of the
    counters; a byte that can not be delivered is lost.
  \<^item> Proc, Syscall, Exec, Sysfile: process creation, exit and wait, arguments of system calls, loading of programs
    and the file system calls.
  \<^item> Virtio: the disk driver.
  \<^item> Trap: traps, interrupts, \<open>sysproc.c\<close>, dispatch and start-up. A pause returns at its last tick, and a lazy
    \<open>sbrk\<close> beyond the address space lets a system call panic the kernel.
  \<^item> Tables: the references between processes, open files and inodes stay inside their tables in every trap from
    user space (\<open>kernel_inv\<close>, interpreted on \<open>tables_ok\<close>).
  \<^item> Grep: \<open>user/grep.c\<close>; the matcher decides its pattern language when the pattern has no item \<open>.*\<close> (which hangs),
    and the program prints the matching lines however \<open>read\<close> splits the input.
  \<^item> Umalloc: \<open>user/umalloc.c\<close>; blocks handed out never overlap and every call returns (locale \<open>heap_allocator\<close>,
    interpreted on \<open>malloc\<close> and \<open>free\<close>), as long as requests fit in an \<open>int\<close>.

  \<^bold>\<open>Bounds and fuel.\<close> Loops over tables are recursion over the table's indices. \<open>mappages_loop\<close> is given
  \<open>size / PGSIZE\<close> rounds and ends with the last page in the last one; \<open>freewalk\<close> descends three levels, the depth of
  a page table; \<open>free_chain\<close> gets one round more than there are descriptors, and a second visit of a descriptor
  panics; \<open>kill_line\<close> and the drain loops get the number of bytes present when they start; \<open>follow_links\<close> counts
  the ten links the source allows. Loops that can run for ever in the source (\<open>matchstar\<close>, the list walks of
  \<open>malloc\<close> and \<open>free\<close>) are partial functions whose value None stands for not returning, and the theorems state
  that they return.

  \<^bold>\<open>Not modelled.\<close> The assembly files (\<open>entry.S\<close>, \<open>kernelvec.S\<close>, \<open>swtch.S\<close>, \<open>trampoline.S\<close>) and the translation
  caches of the hardware; the devices themselves, of which only the registers and what the driver sees are kept;
  memory ordering weaker than sequential consistency; continuing a thread that slept in the middle of a system
  call other than at the loops named above. Of the user programs, the shell, the image builder \<open>mkfs.c\<close>, the
  small utilities and the user library other than \<open>sbrk\<close> and the allocator: their work is done by the system calls.
  The test programs (\<open>usertests.c\<close>, \<open>grind.c\<close> and the like) only
  exercise the system; the scripts run on the host.
\<close>

end
